(* ===== verification/Gateway_Prelude.thy ===== *)
theory Gateway_Prelude
  imports Main "HOL-Library.Word" "HOL-Library.List_Lexorder"
begin

text \<open>
  Shared vocabulary of the development: JavaScript strings as lists of UTF-16 code units, byte
  arrays as lists of 8-bit words, errors as the left side of a sum, and the generic facts on
  lists, sums and bits that the component theories use.
\<close>

unbundle bit_operations_syntax

named_theorems step_simps \<open>defining equations of the operations of a component\<close>
named_theorems inv_intros \<open>preservation of a component's invariant by its operations\<close>

section \<open>Errors as sums\<close>

definition ebind :: "'e + 'a \<Rightarrow> ('a \<Rightarrow> 'e + 'b) \<Rightarrow> 'e + 'b" where
  "ebind m f = (case m of Inl e \<Rightarrow> Inl e | Inr x \<Rightarrow> f x)"

lemma ebind_simps [simp]:
  "ebind (Inl e) f = Inl e"
  "ebind (Inr x) f = f x"
  by (simp_all add: ebind_def)

lemma ebind_cong [fundef_cong]:
  "m = m' \<Longrightarrow> (\<And>x. m' = Inr x \<Longrightarrow> f x = f' x) \<Longrightarrow> ebind m f = ebind m' f'"
  by (auto simp: ebind_def split: sum.splits)

lemma ebind_eq_Inr: "ebind m f = Inr y \<longleftrightarrow> (\<exists>x. m = Inr x \<and> f x = Inr y)"
  by (auto simp: ebind_def split: sum.splits)

lemma ebind_eq_Inl: "ebind m f = Inl e \<longleftrightarrow> m = Inl e \<or> (\<exists>x. m = Inr x \<and> f x = Inl e)"
  by (auto simp: ebind_def split: sum.splits)

lemma ebind_assoc: "ebind (ebind m f) g = ebind m (\<lambda>x. ebind (f x) g)"
  by (simp add: ebind_def split: sum.splits)

lemma sum_Inr_cases: "(case s of Inl e \<Rightarrow> P e | Inr x \<Rightarrow> Q x) \<longleftrightarrow>
    (\<forall>e. s = Inl e \<longrightarrow> P e) \<and> (\<forall>x. s = Inr x \<longrightarrow> Q x)"
  by (auto split: sum.splits)

definition is_ok :: "'e + 'a \<Rightarrow> bool" where
  "is_ok m = (case m of Inl _ \<Rightarrow> False | Inr _ \<Rightarrow> True)"

lemma is_ok_simps [simp]: "\<not> is_ok (Inl e)" "is_ok (Inr x)"
  by (simp_all add: is_ok_def)

lemma is_ok_iff: "is_ok m \<longleftrightarrow> (\<exists>x. m = Inr x)"
  by (cases m) auto

section \<open>Bytes and JavaScript strings\<close>

type_synonym byte = "8 word"
type_synonym bytes = "8 word list"
type_synonym jschar = "16 word"
type_synonym jsstr = "16 word list"

text \<open>The code units of an ASCII literal of the source.\<close>

definition js :: "string \<Rightarrow> jsstr" where
  "js s = map of_char s"

text \<open>\<open>String.fromCodePoint\<close>: one code unit in the basic plane, a surrogate pair above it.\<close>

definition from_code_point :: "nat \<Rightarrow> jsstr" where
  "from_code_point cp =
     (if cp < 0x10000 then [word_of_nat cp]
      else [word_of_nat (0xd800 + (cp - 0x10000) div 0x400),
            word_of_nat (0xdc00 + (cp - 0x10000) mod 0x400)])"

definition high_surrogate :: "jschar \<Rightarrow> bool" where
  "high_surrogate u \<longleftrightarrow> 0xd800 \<le> u \<and> u \<le> 0xdbff"

definition low_surrogate :: "jschar \<Rightarrow> bool" where
  "low_surrogate u \<longleftrightarrow> 0xdc00 \<le> u \<and> u \<le> 0xdfff"

definition pair_code_point :: "jschar \<Rightarrow> jschar \<Rightarrow> nat" where
  "pair_code_point u v = 0x10000 + (unat u - 0xd800) * 0x400 + (unat v - 0xdc00)"

text \<open>
  Iterating a string (\<open>for (const c of s)\<close>, then \<open>c.codePointAt(0)\<close>) yields code points: a high
  surrogate followed by a low one is one code point, any other code unit stands for itself.
\<close>

fun code_points :: "jsstr \<Rightarrow> nat list" where
  "code_points [] = []"
| "code_points [u] = [unat u]"
| "code_points (u # v # r) =
     (if high_surrogate u \<and> low_surrogate v then pair_code_point u v # code_points r
      else unat u # code_points (v # r))"

text \<open>\<open>new TextEncoder().encode(s).byteLength\<close>: a lone surrogate becomes U+FFFD (three bytes).\<close>

definition utf8_width :: "nat \<Rightarrow> nat" where
  "utf8_width cp = (if cp < 0x80 then 1 else if cp < 0x800 then 2 else if cp < 0x10000 then 3 else 4)"

definition utf8_length :: "jsstr \<Rightarrow> nat" where
  "utf8_length s = sum_list (map utf8_width (code_points s))"

lemma js_Nil [simp]: "js [] = []"
  by (simp add: js_def)

lemma utf8_length_Nil [simp]: "utf8_length [] = 0"
  by (simp add: utf8_length_def)

lemma utf8_width_pos: "0 < utf8_width cp"
  by (simp add: utf8_width_def)

lemma pair_code_point_bounds:
  assumes "high_surrogate u" and "low_surrogate v"
  shows "0x10000 \<le> pair_code_point u v" and "pair_code_point u v \<le> 0x10ffff"
  using assms
  by (auto simp: pair_code_point_def high_surrogate_def low_surrogate_def word_le_nat_alt)

lemma from_code_point_pair:
  assumes "high_surrogate u" and "low_surrogate v"
  shows "from_code_point (pair_code_point u v) = [u, v]"
proof -
  have u: "0xd800 \<le> unat u" "unat u \<le> 0xdbff" and v: "0xdc00 \<le> unat v" "unat v \<le> 0xdfff"
    using assms by (auto simp: high_surrogate_def low_surrogate_def word_le_nat_alt)
  obtain a b where ab: "unat u = 0xd800 + a" "unat v = 0xdc00 + b" and b: "b < 0x400"
    using u v that [of "unat u - 0xd800" "unat v - 0xdc00"] by linarith
  have "pair_code_point u v - 0x10000 = b + 0x400 * a"
    by (simp add: pair_code_point_def ab)
  with b have "(pair_code_point u v - 0x10000) div 0x400 = unat u - 0xd800"
    and "(pair_code_point u v - 0x10000) mod 0x400 = unat v - 0xdc00"
    by (simp_all add: ab)
  moreover have "\<not> pair_code_point u v < 0x10000"
    by (simp add: pair_code_point_def)
  ultimately show ?thesis
    using u v by (simp add: from_code_point_def)
qed

lemma from_code_point_unit [simp]: "from_code_point (unat u) = [u]"
  using unsigned_less [of u, where ?'a = nat] by (simp add: from_code_point_def)

lemma concat_from_code_points: "concat (map from_code_point (code_points s)) = s"
  by (induction s rule: code_points.induct) (simp_all add: from_code_point_pair)

lemma code_points_bound: "cp \<in> set (code_points s) \<Longrightarrow> cp \<le> 0x10ffff"
proof (induction s rule: code_points.induct)
  case (2 u)
  then show ?case using unsigned_less [of u, where ?'a = nat] by simp
next
  case (3 u v r)
  then show ?case
    using unsigned_less [of u, where ?'a = nat] pair_code_point_bounds [of u v]
    by (auto split: if_splits)
qed simp

lemma code_points_inj: "code_points s = code_points t \<longleftrightarrow> s = t"
  by (metis concat_from_code_points)

section \<open>Bits of natural numbers\<close>

lemma nat_and_mask6: "(n::nat) AND 63 = n mod 64"
  using take_bit_eq_mask [of 6 n] by (simp add: take_bit_eq_mod mask_eq_exp_minus_1)

lemma nat_or_shift: "(b::nat) < 2 ^ k \<Longrightarrow> push_bit k a OR b = a * 2 ^ k + b"
proof -
  assume b: "b < 2 ^ k"
  have "push_bit k a OR b = push_bit k a + b"
  proof (rule disjunctive_add [symmetric])
    fix n
    from b have "take_bit k b = b" by (simp add: take_bit_nat_eq_self)
    then show "\<not> bit (push_bit k a) n \<or> \<not> bit b n"
      by (metis bit_push_bit_iff bit_take_bit_iff not_le)
  qed
  then show ?thesis by (simp add: push_bit_eq_mult)
qed

section \<open>Decimal numbers\<close>

text \<open>The decimal digits of a number, as a template literal prints a non-negative integer.\<close>

function decimal :: "nat \<Rightarrow> string" where
  "decimal n = (if n < 10 then [char_of (48 + n)] else decimal (n div 10) @ [char_of (48 + n mod 10)])"
  by pat_completeness auto
termination by (relation "measure id") auto

declare decimal.simps [simp del]

lemma char_of_inj: "m < 256 \<Longrightarrow> n < 256 \<Longrightarrow> char_of (m::nat) = char_of n \<longleftrightarrow> m = n"
  by (metis (no_types) mod_less of_char_of)

lemma decimal_inj: "decimal m = decimal n \<Longrightarrow> m = n"
proof (induction m arbitrary: n rule: decimal.induct)
  case (1 m)
  have ne: "decimal k \<noteq> []" for k by (subst decimal.simps) simp
  show ?case
  proof (cases "m < 10"; cases "n < 10")
    assume "\<not> m < 10" "\<not> n < 10"
    moreover from this have "decimal (m div 10) = decimal (n div 10)"
      "char_of (48 + m mod 10) = (char_of (48 + n mod 10) :: char)"
      using "1.prems" by (simp_all add: decimal.simps [of m] decimal.simps [of n])
    ultimately have "m div 10 = n div 10" "m mod 10 = n mod 10"
      using "1.IH" by (simp_all add: char_of_inj)
    then show ?thesis by (metis div_mult_mod_eq)
  qed (use "1.prems" ne in \<open>auto simp: decimal.simps [of m] decimal.simps [of n] char_of_inj
        Cons_eq_append_conv append_eq_Cons_conv\<close>)
qed

section \<open>Lists\<close>

lemma remove1_subset: "x \<in> set (remove1 y xs) \<Longrightarrow> x \<in> set xs"
  by (meson set_remove1_subset subsetD)

lemma dropWhile_append_stop:
  "\<forall>x \<in> set xs. P x \<Longrightarrow> (ys = [] \<or> \<not> P (hd ys)) \<Longrightarrow> dropWhile P (xs @ ys) = ys"
  by (induction xs) (auto simp: dropWhile_eq_self_iff)

lemma length_filter_mono: "(\<And>x. P x \<Longrightarrow> Q x) \<Longrightarrow> length (filter P xs) \<le> length (filter Q xs)"
  by (induction xs) auto

section \<open>Numbered parties and their states\<close>

text \<open>The keys that a map sends to a given state; queues and slots are counted by it.\<close>

definition in_state :: "'s \<Rightarrow> ('k \<rightharpoonup> 's) \<Rightarrow> 'k set" where
  "in_state s m = {r. m r = Some s}"

lemma in_state_iff [simp]: "r \<in> in_state s m \<longleftrightarrow> m r = Some s"
  by (simp add: in_state_def)

lemma in_state_empty [simp]: "in_state s Map.empty = {}"
  by (simp add: in_state_def)

lemma in_state_upd [simp]:
  "in_state t (m(r \<mapsto> s)) = (if s = t then insert r (in_state t m) else in_state t m - {r})"
  by (auto simp: in_state_def)

lemma in_state_minus [simp]: "s \<noteq> t \<Longrightarrow> in_state s m - in_state t m = in_state s m"
  by (auto simp: in_state_def)

lemma finite_in_state: "finite (dom m) \<Longrightarrow> finite (in_state t m)"
  by (rule finite_subset [of _ "dom m"]) (auto simp: in_state_def)

lemma card_in_state_pos: "finite (dom m) \<Longrightarrow> m r = Some t \<Longrightarrow> 0 < card (in_state t m)"
  by (auto simp: card_gt_0_iff finite_in_state simp del: in_state_iff intro: in_state_iff [THEN iffD2])

lemmas in_state_cards = finite_in_state card_insert_if card_Diff_singleton_if

text \<open>Settling a list of parties at once.\<close>

definition settle_all :: "'k list \<Rightarrow> 's \<Rightarrow> ('k \<rightharpoonup> 's) \<Rightarrow> ('k \<rightharpoonup> 's)" where
  "settle_all rs s m = fold (\<lambda>r m. m(r \<mapsto> s)) rs m"

lemma settle_all_apply: "settle_all rs s m x = (if x \<in> set rs then Some s else m x)"
  unfolding settle_all_def by (induction rs arbitrary: m) auto

lemma in_state_settle_all [simp]:
  "in_state t (settle_all rs s m) = (if s = t then set rs \<union> in_state t m else in_state t m - set rs)"
  by (auto simp: in_state_def settle_all_apply)

lemma dom_settle_all [simp]: "dom (settle_all rs s m) = set rs \<union> dom m"
  by (auto simp: settle_all_apply split: if_splits)

section \<open>Systems of steps and their invariants\<close>

text \<open>
  Every concurrent component is a step relation from an initial state. What its operations keep
  holds in every state a run reaches.
\<close>

locale step_invariant =
  fixes start :: 's
    and step :: "'s \<Rightarrow> 's \<Rightarrow> bool"
    and inv :: "'s \<Rightarrow> bool"
  assumes inv_start: "inv start"
    and inv_step: "inv s \<Longrightarrow> step s t \<Longrightarrow> inv t"
begin

lemma inv_run: "inv s \<Longrightarrow> step\<^sup>*\<^sup>* s t \<Longrightarrow> inv t"
  by (erule rtranclp_induct) (auto intro: inv_step)

lemma inv_reachable: "step\<^sup>*\<^sup>* start t \<Longrightarrow> inv t"
  by (rule inv_run [OF inv_start])

end

lemma run_Cons: "step s t \<Longrightarrow> step\<^sup>*\<^sup>* t u \<Longrightarrow> step\<^sup>*\<^sup>* s u"
  by (rule converse_rtranclp_into_rtranclp)

text \<open>Runs given by the list of their events.\<close>

fun run_all :: "('e \<Rightarrow> 's \<Rightarrow> 's) \<Rightarrow> 'e list \<Rightarrow> 's \<Rightarrow> 's" where
  "run_all f [] s = s"
| "run_all f (e # es) s = run_all f es (f e s)"

fun runs_ok :: "('e \<Rightarrow> 's \<Rightarrow> bool) \<Rightarrow> ('e \<Rightarrow> 's \<Rightarrow> 's) \<Rightarrow> 'e list \<Rightarrow> 's \<Rightarrow> bool" where
  "runs_ok p f [] s = True"
| "runs_ok p f (e # es) s = (p e s \<and> runs_ok p f es (f e s))"

lemma run_all_steps:
  assumes "\<And>e s. p e s \<Longrightarrow> step s (f e s)"
  shows "runs_ok p f es s \<Longrightarrow> step\<^sup>*\<^sup>* s (run_all f es s)"
proof (induction es arbitrary: s)
  case (Cons e es)
  then have "step s (f e s)" using assms by simp
  with Cons show ?case by (simp add: run_Cons)
qed simp

lemma run_all_append: "run_all f (es @ fs) s = run_all f fs (run_all f es s)"
  by (induction es arbitrary: s) simp_all

end
