(* ===== verification/Wire_Json.thy ===== *)
theory Wire_Json
  imports Gateway_Prelude
begin

text \<open>
  The model of \<open>src/src/serialization/wire_json.ts\<close>: the order-preserving JSON values the gateway
  exchanges with its clients and upstreams, the byte parser and the byte writer. The parser's
  position is the rest of the input; every \<open>throw\<close> is a left value. The parser's only unbounded
  recursion takes fuel, and \<open>parse_document\<close> supplies twice the input length plus one, which is
  always enough (see theory Wire_Json_Roundtrip).
\<close>

section \<open>Values\<close>

datatype wire_json =
    WNull
  | WBool bool
  | WString jsstr
  | WNumber jsstr
  | WArray "wire_json list"
  | WObject "(jsstr \<times> wire_json) list"

datatype wire_error =
    Byte_limit
  | Depth_limit
  | Invalid_utf8
  | Malformed_json
  | Serialization_failure

text \<open>A recursive parse stops with an error of the source, or for lack of fuel.\<close>

datatype parse_stop = Stopped wire_error | Out_of_fuel

record parse_limits =
  max_bytes :: nat
  max_depth :: nat

fun is_wire_number :: "wire_json \<Rightarrow> bool" where
  "is_wire_number (WNumber _) = True"
| "is_wire_number _ = False"

fun is_wire_array :: "wire_json \<Rightarrow> bool" where
  "is_wire_array (WArray _) = True"
| "is_wire_array _ = False"

fun is_wire_object :: "wire_json \<Rightarrow> bool" where
  "is_wire_object (WObject _) = True"
| "is_wire_object _ = False"

definition member_values :: "(jsstr \<times> wire_json) list \<Rightarrow> jsstr \<Rightarrow> wire_json list" where
  "member_values ms key = map snd (filter (\<lambda>m. fst m = key) ms)"

fun duplicate_names_loop ::
  "jsstr list \<Rightarrow> jsstr list \<Rightarrow> jsstr list \<Rightarrow> (jsstr \<times> wire_json) list \<Rightarrow> jsstr list" where
  "duplicate_names_loop seen reported duplicates [] = duplicates"
| "duplicate_names_loop seen reported duplicates (m # ms) =
     (if fst m \<in> set seen then
        (if fst m \<in> set reported then duplicate_names_loop seen reported duplicates ms
         else duplicate_names_loop seen (fst m # reported) (duplicates @ [fst m]) ms)
      else duplicate_names_loop (fst m # seen) reported duplicates ms)"

definition duplicate_member_names :: "(jsstr \<times> wire_json) list \<Rightarrow> jsstr list" where
  "duplicate_member_names ms = duplicate_names_loop [] [] [] ms"

section \<open>The scanner: bytes, UTF-8, literals\<close>

definition peek_byte :: "bytes \<Rightarrow> byte option" where
  "peek_byte bs = (case bs of [] \<Rightarrow> None | b # _ \<Rightarrow> Some b)"

definition need_byte :: "wire_error \<Rightarrow> bytes \<Rightarrow> wire_error + byte \<times> bytes" where
  "need_byte eof bs = (case bs of [] \<Rightarrow> Inl eof | b # r \<Rightarrow> Inr (b, r))"

definition need_continuation :: "bytes \<Rightarrow> wire_error + byte \<times> bytes" where
  "need_continuation bs = ebind (need_byte Invalid_utf8 bs) (\<lambda>(b, r).
     if b AND 0xc0 \<noteq> 0x80 then Inl Invalid_utf8 else Inr (b, r))"

definition consume_utf8_code_point :: "bytes \<Rightarrow> wire_error + nat \<times> bytes" where
  "consume_utf8_code_point bs = ebind (need_byte Invalid_utf8 bs) (\<lambda>(b0, r0).
     if b0 < 0x80 then Inr (unat b0, r0)
     else if b0 < 0xc2 \<or> b0 > 0xf4 then Inl Invalid_utf8
     else if b0 < 0xe0 then
       ebind (need_continuation r0) (\<lambda>(b1, r1).
         let cp = push_bit 6 (unat (b0 AND 0x1f)) OR unat (b1 AND 0x3f)
         in if cp < 0x80 then Inl Invalid_utf8 else Inr (cp, r1))
     else if b0 < 0xf0 then
       ebind (need_continuation r0) (\<lambda>(b1, r1).
       ebind (need_continuation r1) (\<lambda>(b2, r2).
         let cp = push_bit 12 (unat (b0 AND 0x0f)) OR push_bit 6 (unat (b1 AND 0x3f))
                  OR unat (b2 AND 0x3f)
         in if cp < 0x800 \<or> (0xd800 \<le> cp \<and> cp \<le> 0xdfff) then Inl Invalid_utf8 else Inr (cp, r2)))
     else
       ebind (need_continuation r0) (\<lambda>(b1, r1).
       ebind (need_continuation r1) (\<lambda>(b2, r2).
       ebind (need_continuation r2) (\<lambda>(b3, r3).
         let cp = push_bit 18 (unat (b0 AND 0x07)) OR push_bit 12 (unat (b1 AND 0x3f))
                  OR push_bit 6 (unat (b2 AND 0x3f)) OR unat (b3 AND 0x3f)
         in if cp < 0x10000 \<or> cp > 0x10ffff then Inl Invalid_utf8 else Inr (cp, r3)))))"

text \<open>\<open>unexpected\<close> reports broken UTF-8 at the offending byte before it reports the bad token.\<close>

definition unexpected :: "bytes \<Rightarrow> wire_error" where
  "unexpected bs = (case peek_byte bs of
       None \<Rightarrow> Malformed_json
     | Some b \<Rightarrow> if 0x80 \<le> b
         then (case consume_utf8_code_point bs of Inl e \<Rightarrow> e | Inr _ \<Rightarrow> Malformed_json)
         else Malformed_json)"

fun expect_ascii :: "bytes \<Rightarrow> bytes \<Rightarrow> wire_error + bytes" where
  "expect_ascii [] bs = Inr bs"
| "expect_ascii (c # cs) bs = (case bs of
       [] \<Rightarrow> Inl Malformed_json
     | b # r \<Rightarrow> if b \<noteq> c then Inl (unexpected bs) else expect_ascii cs r)"

definition is_whitespace :: "byte \<Rightarrow> bool" where
  "is_whitespace b \<longleftrightarrow> b = 0x20 \<or> b = 0x09 \<or> b = 0x0a \<or> b = 0x0d"

fun skip_whitespace :: "bytes \<Rightarrow> bytes" where
  "skip_whitespace [] = []"
| "skip_whitespace (b # r) = (if is_whitespace b then skip_whitespace r else b # r)"

definition is_digit :: "byte \<Rightarrow> bool" where
  "is_digit b \<longleftrightarrow> 0x30 \<le> b \<and> b \<le> 0x39"

text \<open>\<open>consumeDigits\<close>: the rest of the input, and whether a digit was consumed.\<close>

fun consume_digits :: "bytes \<Rightarrow> bytes \<times> bool" where
  "consume_digits [] = ([], False)"
| "consume_digits (b # r) = (if is_digit b then (fst (consume_digits r), True) else (b # r, False))"

definition hex_nibble :: "byte \<Rightarrow> nat option" where
  "hex_nibble b =
     (if 0x30 \<le> b \<and> b \<le> 0x39 then Some (unat b - 0x30)
      else if 0x41 \<le> b \<and> b \<le> 0x46 then Some (unat b - 0x41 + 10)
      else if 0x61 \<le> b \<and> b \<le> 0x66 then Some (unat b - 0x61 + 10)
      else None)"

section \<open>Strings and numbers\<close>

fun parse_hex_loop :: "nat \<Rightarrow> nat \<Rightarrow> bytes \<Rightarrow> wire_error + nat \<times> bytes" where
  "parse_hex_loop 0 v bs = Inr (v, bs)"
| "parse_hex_loop (Suc k) v bs = ebind (need_byte Malformed_json bs) (\<lambda>(b, r).
     case hex_nibble b of
       None \<Rightarrow> Inl Malformed_json
     | Some nibble \<Rightarrow> parse_hex_loop k (push_bit 4 v OR nibble) r)"

definition parse_hex_code_unit :: "bytes \<Rightarrow> wire_error + nat \<times> bytes" where
  "parse_hex_code_unit bs = parse_hex_loop 4 0 bs"

text \<open>\<open>parseEscape\<close> starts at the backslash.\<close>

definition parse_escape :: "bytes \<Rightarrow> wire_error + jsstr \<times> bytes" where
  "parse_escape bs = ebind (need_byte Malformed_json bs) (\<lambda>(_, r0).
     ebind (need_byte Malformed_json r0) (\<lambda>(marker, r).
       if marker = 0x22 then Inr ([0x22], r)
       else if marker = 0x5c then Inr ([0x5c], r)
       else if marker = 0x2f then Inr ([0x2f], r)
       else if marker = 0x62 then Inr ([0x08], r)
       else if marker = 0x66 then Inr ([0x0c], r)
       else if marker = 0x6e then Inr ([0x0a], r)
       else if marker = 0x72 then Inr ([0x0d], r)
       else if marker = 0x74 then Inr ([0x09], r)
       else if marker = 0x75 then
         ebind (parse_hex_code_unit r) (\<lambda>(unit_value, r'). Inr ([word_of_nat unit_value], r'))
       else Inl Malformed_json))"

lemma need_byte_shorter: "need_byte e bs = Inr (b, r) \<Longrightarrow> length r < length bs"
  by (auto simp: need_byte_def split: list.splits)

lemma need_continuation_shorter: "need_continuation bs = Inr (b, r) \<Longrightarrow> length r < length bs"
  by (auto simp: need_continuation_def ebind_eq_Inr dest!: need_byte_shorter split: if_splits)

lemma parse_hex_loop_shorter: "parse_hex_loop k v bs = Inr (u, r) \<Longrightarrow> length r \<le> length bs"
  by (induction k v bs rule: parse_hex_loop.induct)
    (fastforce simp: ebind_eq_Inr dest: need_byte_shorter split: option.splits)+

lemma parse_escape_shorter: "parse_escape bs = Inr (s, r) \<Longrightarrow> length r < length bs"
  unfolding parse_escape_def parse_hex_code_unit_def
  by (fastforce simp: ebind_eq_Inr dest: need_byte_shorter parse_hex_loop_shorter split: if_splits)

lemma consume_utf8_shorter: "consume_utf8_code_point bs = Inr (cp, r) \<Longrightarrow> length r < length bs"
  unfolding consume_utf8_code_point_def
  by (fastforce simp: ebind_eq_Inr Let_def dest: need_byte_shorter need_continuation_shorter
      split: if_splits)

text \<open>The loop of \<open>parseString\<close>, after the opening quote; \<open>acc\<close> is \<open>result\<close>.\<close>

function parse_string_loop :: "jsstr \<Rightarrow> bytes \<Rightarrow> wire_error + jsstr \<times> bytes" where
  "parse_string_loop acc bs = (case bs of
       [] \<Rightarrow> Inl Malformed_json
     | b # r \<Rightarrow>
         if b = 0x22 then Inr (acc, r)
         else if b = 0x5c then
           (case parse_escape bs of
              Inl e \<Rightarrow> Inl e
            | Inr (s, r') \<Rightarrow> parse_string_loop (acc @ s) r')
         else if b < 0x20 then Inl Malformed_json
         else if b < 0x80 then parse_string_loop (acc @ [ucast b]) r
         else
           (case consume_utf8_code_point bs of
              Inl e \<Rightarrow> Inl e
            | Inr (cp, r') \<Rightarrow> parse_string_loop (acc @ from_code_point cp) r'))"
  by pat_completeness auto
termination
  by (relation "measure (\<lambda>(acc, bs). length bs)")
    (auto dest: parse_escape_shorter consume_utf8_shorter)

declare parse_string_loop.simps [simp del]

definition parse_string :: "bytes \<Rightarrow> wire_error + jsstr \<times> bytes" where
  "parse_string bs = ebind (need_byte Malformed_json bs) (\<lambda>(_, r). parse_string_loop [] r)"

text \<open>The three stages of \<open>parseNumber\<close>: integer part, fraction, exponent.\<close>

definition number_integer :: "bytes \<Rightarrow> wire_error + bytes" where
  "number_integer bs = (case bs of
       [] \<Rightarrow> Inl Malformed_json
     | b # r \<Rightarrow>
         if b = 0x30 then Inr r
         else if 0x31 \<le> b \<and> b \<le> 0x39 then Inr (fst (consume_digits r))
         else Inl Malformed_json)"

definition number_fraction :: "bytes \<Rightarrow> wire_error + bytes" where
  "number_fraction bs = (case bs of
       [] \<Rightarrow> Inr bs
     | b # r \<Rightarrow>
         if b = 0x2e then
           (if snd (consume_digits r) then Inr (fst (consume_digits r)) else Inl Malformed_json)
         else Inr bs)"

definition number_exponent :: "bytes \<Rightarrow> wire_error + bytes" where
  "number_exponent bs = (case bs of
       [] \<Rightarrow> Inr bs
     | b # r \<Rightarrow>
         if b = 0x65 \<or> b = 0x45 then
           (let r' = (case r of [] \<Rightarrow> r | s # t \<Rightarrow> if s = 0x2b \<or> s = 0x2d then t else r)
            in if snd (consume_digits r') then Inr (fst (consume_digits r')) else Inl Malformed_json)
         else Inr bs)"

definition ascii_slice :: "bytes \<Rightarrow> bytes \<Rightarrow> jsstr" where
  "ascii_slice bs rest = map ucast (take (length bs - length rest) bs)"

definition parse_number :: "bytes \<Rightarrow> wire_error + wire_json \<times> bytes" where
  "parse_number bs =
     (let r0 = (case bs of [] \<Rightarrow> bs | b # r \<Rightarrow> if b = 0x2d then r else bs)
      in ebind (number_integer r0) (\<lambda>r1.
         ebind (number_fraction r1) (\<lambda>r2.
         ebind (number_exponent r2) (\<lambda>r3.
           Inr (WNumber (ascii_slice bs r3), r3)))))"

section \<open>Values, arrays and objects\<close>

definition scan :: "wire_error + 'a \<Rightarrow> parse_stop + 'a" where
  "scan m = (case m of Inl e \<Rightarrow> Inl (Stopped e) | Inr x \<Rightarrow> Inr x)"

lemma scan_simps [simp]: "scan (Inl e) = Inl (Stopped e)" "scan (Inr x) = Inr x"
  by (simp_all add: scan_def)

lemma scan_eq_Inr [simp]: "scan m = Inr x \<longleftrightarrow> m = Inr x"
  by (cases m) auto

lemma scan_not_fuel [simp]: "scan m \<noteq> Inl Out_of_fuel"
  by (cases m) auto

text \<open>
  \<open>parse_members\<close> and \<open>parse_items\<close> are the loops of \<open>parseObject\<close> and \<open>parseArray\<close>, entered after
  the opening bracket when the container is not empty; their result is what the loop pushes from
  here on.
\<close>

fun parse_value :: "nat \<Rightarrow> nat \<Rightarrow> nat \<Rightarrow> bytes \<Rightarrow> parse_stop + wire_json \<times> bytes"
  and parse_members ::
    "nat \<Rightarrow> nat \<Rightarrow> nat \<Rightarrow> bytes \<Rightarrow> parse_stop + (jsstr \<times> wire_json) list \<times> bytes"
  and parse_items :: "nat \<Rightarrow> nat \<Rightarrow> nat \<Rightarrow> bytes \<Rightarrow> parse_stop + wire_json list \<times> bytes"
where
  "parse_value 0 maxd depth bs0 = Inl Out_of_fuel"
| "parse_value (Suc fuel) maxd depth bs0 =
     (let bs = skip_whitespace bs0 in
      case bs of
        [] \<Rightarrow> Inl (Stopped Malformed_json)
      | b # r \<Rightarrow>
          if b = 0x7b \<or> b = 0x5b then
            (if depth > maxd then Inl (Stopped Depth_limit)
             else if b = 0x7b then
               (let r1 = skip_whitespace r in
                if peek_byte r1 = Some 0x7d then Inr (WObject [], tl r1)
                else ebind (parse_members fuel maxd depth r1) (\<lambda>(ms, r2). Inr (WObject ms, r2)))
             else
               (let r1 = skip_whitespace r in
                if peek_byte r1 = Some 0x5d then Inr (WArray [], tl r1)
                else ebind (parse_items fuel maxd depth r1) (\<lambda>(xs, r2). Inr (WArray xs, r2))))
          else if b = 0x22 then ebind (scan (parse_string bs)) (\<lambda>(s, r1). Inr (WString s, r1))
          else if b = 0x74 then
            ebind (scan (expect_ascii [0x74, 0x72, 0x75, 0x65] bs)) (\<lambda>r1. Inr (WBool True, r1))
          else if b = 0x66 then
            ebind (scan (expect_ascii [0x66, 0x61, 0x6c, 0x73, 0x65] bs)) (\<lambda>r1. Inr (WBool False, r1))
          else if b = 0x6e then
            ebind (scan (expect_ascii [0x6e, 0x75, 0x6c, 0x6c] bs)) (\<lambda>r1. Inr (WNull, r1))
          else if b = 0x2d \<or> (0x30 \<le> b \<and> b \<le> 0x39) then scan (parse_number bs)
          else Inl (Stopped (unexpected bs)))"
| "parse_members 0 maxd depth bs0 = Inl Out_of_fuel"
| "parse_members (Suc fuel) maxd depth bs0 =
     (let bs = skip_whitespace bs0 in
      if peek_byte bs \<noteq> Some 0x22 then Inl (Stopped (unexpected bs))
      else ebind (scan (parse_string bs)) (\<lambda>(key, r1).
        let r2 = skip_whitespace r1 in
        if peek_byte r2 \<noteq> Some 0x3a then Inl (Stopped (unexpected r2))
        else ebind (parse_value fuel maxd (depth + 1) (tl r2)) (\<lambda>(v, r3).
          let r4 = skip_whitespace r3 in
          if peek_byte r4 = Some 0x2c then
            ebind (parse_members fuel maxd depth (tl r4)) (\<lambda>(ms, r5). Inr ((key, v) # ms, r5))
          else if peek_byte r4 = Some 0x7d then Inr ([(key, v)], tl r4)
          else Inl (Stopped (unexpected r4)))))"
| "parse_items 0 maxd depth bs0 = Inl Out_of_fuel"
| "parse_items (Suc fuel) maxd depth bs0 =
     ebind (parse_value fuel maxd (depth + 1) bs0) (\<lambda>(v, r3).
       let r4 = skip_whitespace r3 in
       if peek_byte r4 = Some 0x2c then
         ebind (parse_items fuel maxd depth (tl r4)) (\<lambda>(xs, r5). Inr (v # xs, r5))
       else if peek_byte r4 = Some 0x5d then Inr ([v], tl r4)
       else Inl (Stopped (unexpected r4)))"

definition parse_document :: "nat \<Rightarrow> bytes \<Rightarrow> parse_stop + wire_json" where
  "parse_document maxd bs =
     (let bs1 = skip_whitespace bs in
      ebind (parse_value (2 * length bs + 1) maxd 1 bs1) (\<lambda>(v, r).
        let r1 = skip_whitespace r in
        if r1 \<noteq> [] then Inl (Stopped (unexpected r1)) else Inr v))"

definition parse_wire_json :: "bytes \<Rightarrow> parse_limits \<Rightarrow> parse_stop + wire_json" where
  "parse_wire_json bs limits =
     (if length bs > max_bytes limits then Inl (Stopped Byte_limit)
      else parse_document (max_depth limits) bs)"

end
