(* ===== verification/Wire_Writer.thy ===== *)
theory Wire_Writer
  imports Wire_Json
begin

text \<open>
  The writing half of \<open>src/src/serialization/wire_json.ts\<close>: the growing \<open>ByteWriter\<close>, the value
  writer over it, and the pure text \<open>json_text\<close> of a value that the writer is shown to produce.
  The locale \<open>byte_sink\<close> states what the value writer needs of the buffer: one byte appended per
  \<open>writeByte\<close>, whatever the capacity was.
\<close>

section \<open>The buffer\<close>

record byte_writer =
  buffer :: bytes
  written_length :: nat

definition new_writer :: byte_writer where
  "new_writer = \<lparr>buffer = replicate 256 0, written_length = 0\<rparr>"

text \<open>
  The capacity is at least 256 in every reachable writer (\<open>writer_ok\<close>); a capacity of zero, for
  which the doubling loop of the source would not end, is returned as it is.
\<close>

function grow_capacity :: "nat \<Rightarrow> nat \<Rightarrow> nat" where
  "grow_capacity capacity needed =
     (if 0 < capacity \<and> capacity < needed then grow_capacity (capacity * 2) needed else capacity)"
  by pat_completeness auto
termination
  by (relation "measure (\<lambda>(capacity, needed). needed - capacity)") auto

declare grow_capacity.simps [simp del]

definition ensure_room :: "nat \<Rightarrow> byte_writer \<Rightarrow> byte_writer" where
  "ensure_room count w =
     (let needed = written_length w + count in
      if needed \<le> length (buffer w) then w
      else w\<lparr>buffer := buffer w @
               replicate (grow_capacity (length (buffer w)) needed - length (buffer w)) 0\<rparr>)"

definition store_byte :: "nat \<Rightarrow> byte_writer \<Rightarrow> byte_writer" where
  "store_byte n w = w\<lparr>buffer := (buffer w)[written_length w := word_of_nat n],
                      written_length := written_length w + 1\<rparr>"

definition write_byte :: "nat \<Rightarrow> byte_writer \<Rightarrow> byte_writer" where
  "write_byte n w = store_byte n (ensure_room 1 w)"

definition write_ascii :: "jsstr \<Rightarrow> byte_writer \<Rightarrow> byte_writer" where
  "write_ascii text w = fold (\<lambda>u. store_byte (unat u)) text (ensure_room (length text) w)"

definition write_utf8_code_point :: "nat \<Rightarrow> byte_writer \<Rightarrow> byte_writer" where
  "write_utf8_code_point cp w =
     (if cp < 0x80 then write_byte cp w
      else if cp < 0x800 then
        write_byte (0x80 OR (cp AND 0x3f)) (write_byte (0xc0 OR drop_bit 6 cp) w)
      else if cp < 0x10000 then
        write_byte (0x80 OR (cp AND 0x3f))
          (write_byte (0x80 OR (drop_bit 6 cp AND 0x3f))
            (write_byte (0xe0 OR drop_bit 12 cp) w))
      else
        write_byte (0x80 OR (cp AND 0x3f))
          (write_byte (0x80 OR (drop_bit 6 cp AND 0x3f))
            (write_byte (0x80 OR (drop_bit 12 cp AND 0x3f))
              (write_byte (0xf0 OR drop_bit 18 cp) w))))"

definition finish_writer :: "byte_writer \<Rightarrow> bytes" where
  "finish_writer w = take (written_length w) (buffer w)"

section \<open>The value writer\<close>

text \<open>\<open>codePoint.toString(16).padStart(4, "0")\<close>.\<close>

definition hex_digit :: "nat \<Rightarrow> jschar" where
  "hex_digit d = (if d < 10 then word_of_nat (0x30 + d) else word_of_nat (0x57 + d))"

function to_hex :: "nat \<Rightarrow> jsstr" where
  "to_hex n = (if n < 16 then [hex_digit n] else to_hex (n div 16) @ [hex_digit (n mod 16)])"
  by pat_completeness auto
termination
  by (relation "measure id") auto

declare to_hex.simps [simp del]

definition pad_start :: "nat \<Rightarrow> jschar \<Rightarrow> jsstr \<Rightarrow> jsstr" where
  "pad_start k c s = replicate (k - length s) c @ s"

definition write_string_char :: "nat \<Rightarrow> byte_writer \<Rightarrow> byte_writer" where
  "write_string_char cp w =
     (if cp = 0x22 then write_ascii [0x5c, 0x22] w
      else if cp = 0x5c then write_ascii [0x5c, 0x5c] w
      else if cp = 0x08 then write_ascii [0x5c, 0x62] w
      else if cp = 0x09 then write_ascii [0x5c, 0x74] w
      else if cp = 0x0a then write_ascii [0x5c, 0x6e] w
      else if cp = 0x0c then write_ascii [0x5c, 0x66] w
      else if cp = 0x0d then write_ascii [0x5c, 0x72] w
      else if cp < 0x20 \<or> (0xd800 \<le> cp \<and> cp \<le> 0xdfff) then
        write_ascii ([0x5c, 0x75] @ pad_start 4 0x30 (to_hex cp)) w
      else write_utf8_code_point cp w)"

definition write_json_string :: "jsstr \<Rightarrow> byte_writer \<Rightarrow> byte_writer" where
  "write_json_string s w =
     write_byte 0x22 (fold write_string_char (code_points s) (write_byte 0x22 w))"

text \<open>
  \<open>JSON_NUMBER_LEXEME\<close>, an anchored regular expression whose choices are decided by the next
  code unit: sign, integer part, fraction, exponent, end.
\<close>

definition js_digit :: "jschar \<Rightarrow> bool" where
  "js_digit u \<longleftrightarrow> 0x30 \<le> u \<and> u \<le> 0x39"

definition lexeme_digits1 :: "jsstr \<Rightarrow> jsstr option" where
  "lexeme_digits1 s = (case s of
       [] \<Rightarrow> None
     | u # r \<Rightarrow> if js_digit u then Some (dropWhile js_digit r) else None)"

definition lexeme_integer :: "jsstr \<Rightarrow> jsstr option" where
  "lexeme_integer s = (case s of
       [] \<Rightarrow> None
     | u # r \<Rightarrow> if u = 0x30 then Some r
                else if 0x31 \<le> u \<and> u \<le> 0x39 then Some (dropWhile js_digit r) else None)"

definition lexeme_fraction :: "jsstr \<Rightarrow> jsstr option" where
  "lexeme_fraction s = (case s of
       [] \<Rightarrow> Some s
     | u # r \<Rightarrow> if u = 0x2e then lexeme_digits1 r else Some s)"

definition lexeme_exponent :: "jsstr \<Rightarrow> jsstr option" where
  "lexeme_exponent s = (case s of
       [] \<Rightarrow> Some s
     | u # r \<Rightarrow>
         if u = 0x65 \<or> u = 0x45 then
           lexeme_digits1 (case r of [] \<Rightarrow> r | v # t \<Rightarrow> if v = 0x2b \<or> v = 0x2d then t else r)
         else Some s)"

definition valid_lexeme :: "jsstr \<Rightarrow> bool" where
  "valid_lexeme s =
     (let s0 = (case s of [] \<Rightarrow> s | u # r \<Rightarrow> if u = 0x2d then r else s)
      in Option.bind (lexeme_integer s0) (\<lambda>s1.
         Option.bind (lexeme_fraction s1) lexeme_exponent) = Some [])"

definition write_number_lexeme :: "jsstr \<Rightarrow> byte_writer \<Rightarrow> wire_error + byte_writer" where
  "write_number_lexeme lexeme w =
     (if \<not> valid_lexeme lexeme then Inl Serialization_failure else Inr (write_ascii lexeme w))"

text \<open>
  \<open>write_items\<close> and \<open>write_members\<close> are the two \<open>for\<close> loops of \<open>writeValue\<close>; their flag says
  whether the index is still zero.
\<close>

fun write_value :: "wire_json \<Rightarrow> byte_writer \<Rightarrow> wire_error + byte_writer"
  and write_items :: "bool \<Rightarrow> wire_json list \<Rightarrow> byte_writer \<Rightarrow> wire_error + byte_writer"
  and write_members ::
    "bool \<Rightarrow> (jsstr \<times> wire_json) list \<Rightarrow> byte_writer \<Rightarrow> wire_error + byte_writer"
where
  "write_value WNull w = Inr (write_ascii [0x6e, 0x75, 0x6c, 0x6c] w)"
| "write_value (WBool b) w =
     (if b then Inr (write_ascii [0x74, 0x72, 0x75, 0x65] w)
      else Inr (write_ascii [0x66, 0x61, 0x6c, 0x73, 0x65] w))"
| "write_value (WString s) w = Inr (write_json_string s w)"
| "write_value (WNumber lexeme) w = write_number_lexeme lexeme w"
| "write_value (WArray xs) w =
     ebind (write_items True xs (write_byte 0x5b w)) (\<lambda>w1. Inr (write_byte 0x5d w1))"
| "write_value (WObject ms) w =
     ebind (write_members True ms (write_byte 0x7b w)) (\<lambda>w1. Inr (write_byte 0x7d w1))"
| "write_items first [] w = Inr w"
| "write_items first (x # xs) w =
     ebind (write_value x (if first then w else write_byte 0x2c w)) (write_items False xs)"
| "write_members first [] w = Inr w"
| "write_members first ((key, v) # ms) w =
     ebind (write_value v (write_byte 0x3a
              (write_json_string key (if first then w else write_byte 0x2c w))))
       (write_members False ms)"

definition serialize_wire_json :: "wire_json \<Rightarrow> wire_error + bytes" where
  "serialize_wire_json v = ebind (write_value v new_writer) (\<lambda>w. Inr (finish_writer w))"

section \<open>The buffer as a sink of bytes\<close>

locale byte_sink =
  fixes put :: "nat \<Rightarrow> 'w \<Rightarrow> 'w"
    and content :: "'w \<Rightarrow> bytes"
    and ok :: "'w \<Rightarrow> bool"
  assumes content_put: "ok w \<Longrightarrow> content (put n w) = content w @ [word_of_nat n]"
    and ok_put: "ok w \<Longrightarrow> ok (put n w)"
begin

lemma fold_put:
  "ok w \<Longrightarrow> ok (fold put ns w) \<and> content (fold put ns w) = content w @ map word_of_nat ns"
  by (induction ns arbitrary: w) (simp_all add: content_put ok_put)

text \<open>An operation that stands for a fold of \<open>put\<close> appends, and such operations compose.\<close>

definition appends :: "('w \<Rightarrow> 'w) \<Rightarrow> bytes \<Rightarrow> bool" where
  "appends f bs \<longleftrightarrow> (\<forall>w. ok w \<longrightarrow> ok (f w) \<and> content (f w) = content w @ bs)"

lemma appends_put: "appends (put n) [word_of_nat n]"
  by (simp add: appends_def content_put ok_put)

lemma appends_comp: "appends f bs \<Longrightarrow> appends g cs \<Longrightarrow> appends (\<lambda>w. g (f w)) (bs @ cs)"
  by (simp add: appends_def)

lemma appends_fold: "(\<And>x. x \<in> set xs \<Longrightarrow> appends (f x) (g x)) \<Longrightarrow>
    appends (fold f xs) (concat (map g xs))"
proof (induction xs)
  case Nil
  then show ?case by (simp add: appends_def)
next
  case (Cons x xs)
  then have "appends (f x) (g x)" and "appends (fold f xs) (concat (map g xs))" by simp_all
  then show ?case by (simp add: appends_def)
qed

lemma appendsD: "appends f bs \<Longrightarrow> ok w \<Longrightarrow> ok (f w)"
  "appends f bs \<Longrightarrow> ok w \<Longrightarrow> content (f w) = content w @ bs"
  by (simp_all add: appends_def)

end

definition writer_ok :: "byte_writer \<Rightarrow> bool" where
  "writer_ok w \<longleftrightarrow> written_length w \<le> length (buffer w) \<and> 256 \<le> length (buffer w)"

lemma grow_capacity_ge: "0 < c \<Longrightarrow> n \<le> grow_capacity c n \<and> c \<le> grow_capacity c n"
proof (induction c n rule: grow_capacity.induct)
  case (1 c n)
  show ?case
  proof (cases "c < n")
    case True
    with 1 have "n \<le> grow_capacity (c * 2) n \<and> c * 2 \<le> grow_capacity (c * 2) n" by simp
    with True 1 show ?thesis by (simp add: grow_capacity.simps [of c n])
  qed (simp add: grow_capacity.simps [of c n])
qed

lemma ensure_room_props:
  assumes "writer_ok w"
  shows "writer_ok (ensure_room k w)"
    and "written_length (ensure_room k w) = written_length w"
    and "finish_writer (ensure_room k w) = finish_writer w"
    and "written_length w + k \<le> length (buffer (ensure_room k w))"
proof -
  have "0 < length (buffer w)"
    using assms unfolding writer_ok_def by linarith
  from grow_capacity_ge [OF this, of "written_length w + k"] assms
  show "writer_ok (ensure_room k w)"
    and "written_length (ensure_room k w) = written_length w"
    and "finish_writer (ensure_room k w) = finish_writer w"
    and "written_length w + k \<le> length (buffer (ensure_room k w))"
    by (auto simp: ensure_room_def finish_writer_def writer_ok_def Let_def)
qed

lemma store_byte_props:
  assumes "writer_ok w" and "written_length w < length (buffer w)"
  shows "writer_ok (store_byte n w)"
    and "finish_writer (store_byte n w) = finish_writer w @ [word_of_nat n]"
    and "length (buffer (store_byte n w)) = length (buffer w)"
    and "written_length (store_byte n w) = written_length w + 1"
  using assms
  by (simp_all add: writer_ok_def store_byte_def finish_writer_def take_Suc_conv_app_nth)

interpretation writer: byte_sink write_byte finish_writer writer_ok
proof
  fix w n
  assume w: "writer_ok w"
  let ?e = "ensure_room 1 w"
  have e: "writer_ok ?e" "written_length ?e < length (buffer ?e)"
    using ensure_room_props [OF w, of 1] by simp_all
  show "finish_writer (write_byte n w) = finish_writer w @ [word_of_nat n]"
    using store_byte_props(2) [OF e] ensure_room_props(3) [OF w] by (simp add: write_byte_def)
  show "writer_ok (write_byte n w)"
    using store_byte_props(1) [OF e] by (simp add: write_byte_def)
qed

lemma store_fold:
  "writer_ok w \<Longrightarrow> written_length w + length us \<le> length (buffer w) \<Longrightarrow>
   writer_ok (fold (\<lambda>u. store_byte (unat u)) us w) \<and>
   finish_writer (fold (\<lambda>u. store_byte (unat u)) us w) = finish_writer w @ map ucast us"
proof (induction us arbitrary: w)
  case (Cons u us)
  have "written_length w < length (buffer w)" using Cons.prems by simp
  note p = store_byte_props [OF Cons.prems(1) this, of "unat u"]
  have "word_of_nat (unat u) = (ucast u :: byte)" by simp
  with Cons.IH [OF p(1)] Cons.prems(2) p show ?case by simp
qed simp

lemma appends_write_ascii: "writer.appends (write_ascii text) (map ucast text)"
  unfolding writer.appends_def write_ascii_def
  using store_fold ensure_room_props by metis

lemma writer_ok_new: "writer_ok new_writer" "finish_writer new_writer = []"
  by (simp_all add: writer_ok_def new_writer_def finish_writer_def)

section \<open>The text of a value\<close>

definition utf8_bytes :: "nat \<Rightarrow> bytes" where
  "utf8_bytes cp = map word_of_nat
     (if cp < 0x80 then [cp]
      else if cp < 0x800 then [0xc0 OR drop_bit 6 cp, 0x80 OR (cp AND 0x3f)]
      else if cp < 0x10000 then
        [0xe0 OR drop_bit 12 cp, 0x80 OR (drop_bit 6 cp AND 0x3f), 0x80 OR (cp AND 0x3f)]
      else [0xf0 OR drop_bit 18 cp, 0x80 OR (drop_bit 12 cp AND 0x3f),
            0x80 OR (drop_bit 6 cp AND 0x3f), 0x80 OR (cp AND 0x3f)])"

definition string_char_text :: "nat \<Rightarrow> bytes" where
  "string_char_text cp =
     (if cp = 0x22 then [0x5c, 0x22]
      else if cp = 0x5c then [0x5c, 0x5c]
      else if cp = 0x08 then [0x5c, 0x62]
      else if cp = 0x09 then [0x5c, 0x74]
      else if cp = 0x0a then [0x5c, 0x6e]
      else if cp = 0x0c then [0x5c, 0x66]
      else if cp = 0x0d then [0x5c, 0x72]
      else if cp < 0x20 \<or> (0xd800 \<le> cp \<and> cp \<le> 0xdfff) then
        [0x5c, 0x75] @ map ucast (pad_start 4 0x30 (to_hex cp))
      else utf8_bytes cp)"

definition string_text :: "jsstr \<Rightarrow> bytes" where
  "string_text s = [0x22] @ concat (map string_char_text (code_points s)) @ [0x22]"

fun json_text :: "wire_json \<Rightarrow> bytes"
  and items_text :: "bool \<Rightarrow> wire_json list \<Rightarrow> bytes"
  and members_text :: "bool \<Rightarrow> (jsstr \<times> wire_json) list \<Rightarrow> bytes"
where
  "json_text WNull = [0x6e, 0x75, 0x6c, 0x6c]"
| "json_text (WBool b) =
     (if b then [0x74, 0x72, 0x75, 0x65] else [0x66, 0x61, 0x6c, 0x73, 0x65])"
| "json_text (WString s) = string_text s"
| "json_text (WNumber lexeme) = map ucast lexeme"
| "json_text (WArray xs) = [0x5b] @ items_text True xs @ [0x5d]"
| "json_text (WObject ms) = [0x7b] @ members_text True ms @ [0x7d]"
| "items_text first [] = []"
| "items_text first (x # xs) = (if first then [] else [0x2c]) @ json_text x @ items_text False xs"
| "members_text first [] = []"
| "members_text first ((key, v) # ms) =
     (if first then [] else [0x2c]) @ string_text key @ [0x3a] @ json_text v @ members_text False ms"

fun lexemes_ok :: "wire_json \<Rightarrow> bool" where
  "lexemes_ok (WNumber lexeme) = valid_lexeme lexeme"
| "lexemes_ok (WArray xs) = (\<forall>x \<in> set xs. lexemes_ok x)"
| "lexemes_ok (WObject ms) = (\<forall>m \<in> set ms. lexemes_ok (snd m))"
| "lexemes_ok _ = True"

lemma appends_write_utf8: "writer.appends (write_utf8_code_point cp) (utf8_bytes cp)"
  using writer.appends_put unfolding writer.appends_def
  by (auto simp: write_utf8_code_point_def utf8_bytes_def)

lemma appends_string_char: "writer.appends (write_string_char cp) (string_char_text cp)"
  using appends_write_ascii appends_write_utf8 unfolding writer.appends_def
  by (auto simp: write_string_char_def string_char_text_def)

lemma appends_write_json_string: "writer.appends (write_json_string s) (string_text s)"
proof -
  have "writer.appends (fold write_string_char (code_points s))
      (concat (map string_char_text (code_points s)))"
    by (rule writer.appends_fold) (rule appends_string_char)
  then show ?thesis
    using writer.appends_put [of "0x22"]
    by (auto simp: writer.appends_def write_json_string_def string_text_def)
qed

lemma write_json_string_props:
  "writer_ok w \<Longrightarrow> writer_ok (write_json_string s w)"
  "writer_ok w \<Longrightarrow> finish_writer (write_json_string s w) = finish_writer w @ string_text s"
  using writer.appendsD [OF appends_write_json_string] by blast+

lemma write_ascii_props:
  "writer_ok w \<Longrightarrow> writer_ok (write_ascii s w)"
  "writer_ok w \<Longrightarrow> finish_writer (write_ascii s w) = finish_writer w @ map ucast s"
  using writer.appendsD [OF appends_write_ascii] by blast+

lemmas writer_props = write_json_string_props write_ascii_props writer.ok_put writer.content_put

lemma write_value_text:
  "writer_ok w \<Longrightarrow> lexemes_ok v \<Longrightarrow>
     \<exists>w'. write_value v w = Inr w' \<and> writer_ok w' \<and> finish_writer w' = finish_writer w @ json_text v"
  "writer_ok w \<Longrightarrow> \<forall>x \<in> set xs. lexemes_ok x \<Longrightarrow>
     \<exists>w'. write_items first xs w = Inr w' \<and> writer_ok w' \<and>
          finish_writer w' = finish_writer w @ items_text first xs"
  "writer_ok w \<Longrightarrow> \<forall>m \<in> set ms. lexemes_ok (snd m) \<Longrightarrow>
     \<exists>w'. write_members first ms w = Inr w' \<and> writer_ok w' \<and>
          finish_writer w' = finish_writer w @ members_text first ms"
proof (induction v and first xs and first ms arbitrary: w and w and w
    rule: json_text_items_text_members_text.induct)
  case (4 lexeme)
  then show ?case by (simp add: write_number_lexeme_def writer_props)
next
  case (5 xs)
  from 5(1) [of "write_byte 0x5b w"] 5(2,3) show ?case by (auto simp: writer_props)
next
  case (6 ms)
  from 6(1) [of "write_byte 0x7b w"] 6(2,3) show ?case by (auto simp: writer_props)
next
  case (8 first x xs)
  let ?w = "if first then w else write_byte 0x2c w"
  have w: "writer_ok ?w" "finish_writer ?w = finish_writer w @ (if first then [] else [0x2c])"
    using 8(3) by (simp_all add: writer_props)
  obtain w1 where w1: "write_value x ?w = Inr w1" "writer_ok w1"
      "finish_writer w1 = finish_writer ?w @ json_text x"
    using 8(1) [OF w(1)] 8(4) by auto
  from 8(2) [OF w1(2)] 8(4) w1 w show ?case by auto
next
  case (10 first key v ms)
  let ?w0 = "if first then w else write_byte 0x2c w"
  let ?w = "write_byte 0x3a (write_json_string key ?w0)"
  have w: "writer_ok ?w"
      "finish_writer ?w = finish_writer w @ (if first then [] else [0x2c]) @ string_text key @ [0x3a]"
    using 10(3) by (simp_all add: writer_props)
  obtain w1 where w1: "write_value v ?w = Inr w1" "writer_ok w1"
      "finish_writer w1 = finish_writer ?w @ json_text v"
    using 10(1) [OF w(1)] 10(4) by auto
  from 10(2) [OF w1(2)] 10(4) w1 w show ?case by auto
qed (simp_all add: writer_props)

lemma serialize_text: "lexemes_ok v \<Longrightarrow> serialize_wire_json v = Inr (json_text v)"
  using write_value_text(1) [OF writer_ok_new(1), of v] writer_ok_new(2)
  by (auto simp: serialize_wire_json_def)

end
