(* ===== verification/Wire_Json_Roundtrip.thy ===== *)
theory Wire_Json_Roundtrip
  imports Wire_Writer
begin

text \<open>
  Correctness of the JSON parser and writer of \<open>src/src/serialization/wire_json.ts\<close>: the parser reads
  back every text the writer produces, UTF-8 by code point, strings by code unit, numbers by lexeme
  and containers by depth; the parser always has enough fuel; and the limits decide exactly when it
  refuses.
\<close>

section \<open>UTF-8\<close>

lemma unat_byte: "n < 256 \<Longrightarrow> unat (word_of_nat n :: byte) = n"
  by (simp add: unsigned_of_nat take_bit_nat_eq_self)

lemma byte_less: "n < 256 \<Longrightarrow> (word_of_nat n :: byte) < numeral k \<longleftrightarrow> n < unat (numeral k :: byte)"
  "n < 256 \<Longrightarrow> numeral k < (word_of_nat n :: byte) \<longleftrightarrow> unat (numeral k :: byte) < n"
  by (simp_all add: word_less_nat_alt unat_byte)

lemma lead_or:
  "a < 32 \<Longrightarrow> 0xc0 OR a = 0xc0 + (a::nat)"
  "a < 16 \<Longrightarrow> 0xe0 OR a = 0xe0 + a"
  "a < 8 \<Longrightarrow> 0xf0 OR a = 0xf0 + a"
  "a < 64 \<Longrightarrow> 0x80 OR a = 0x80 + a"
  using nat_or_shift [of a 5 6] nat_or_shift [of a 4 14] nat_or_shift [of a 3 30] nat_or_shift [of a 6 2]
  by (simp_all add: push_bit_eq_mult)

lemma lead_and:
  "a < 32 \<Longrightarrow> unat ((word_of_nat (0xc0 + a) :: byte) AND 0x1f) = a"
  "a < 16 \<Longrightarrow> unat ((word_of_nat (0xe0 + a) :: byte) AND 0x0f) = a"
  "a < 8 \<Longrightarrow> unat ((word_of_nat (0xf0 + a) :: byte) AND 0x07) = a"
  "a < 64 \<Longrightarrow> unat ((word_of_nat (0x80 + a) :: byte) AND 0x3f) = a"
  "a < 64 \<Longrightarrow> (word_of_nat (0x80 + a) :: byte) AND 0xc0 = 0x80"
proof -
  have *: "\<forall>a \<in> set [0..<32]. unat ((word_of_nat (0xc0 + a) :: byte) AND 0x1f) = a"
    "\<forall>a \<in> set [0..<16]. unat ((word_of_nat (0xe0 + a) :: byte) AND 0x0f) = a"
    "\<forall>a \<in> set [0..<8]. unat ((word_of_nat (0xf0 + a) :: byte) AND 0x07) = a"
    "\<forall>a \<in> set [0..<64]. unat ((word_of_nat (0x80 + a) :: byte) AND 0x3f) = a"
    "\<forall>a \<in> set [0..<64]. (word_of_nat (0x80 + a) :: byte) AND 0xc0 = 0x80"
    by code_simp+
  then show 
  "a < 32 \<Longrightarrow> unat ((word_of_nat (0xc0 + a) :: byte) AND 0x1f) = a"
  "a < 16 \<Longrightarrow> unat ((word_of_nat (0xe0 + a) :: byte) AND 0x0f) = a"
  "a < 8 \<Longrightarrow> unat ((word_of_nat (0xf0 + a) :: byte) AND 0x07) = a"
  "a < 64 \<Longrightarrow> unat ((word_of_nat (0x80 + a) :: byte) AND 0x3f) = a"
  "a < 64 \<Longrightarrow> (word_of_nat (0x80 + a) :: byte) AND 0xc0 = 0x80" 
    by auto
qed

lemma need_continuation_ok:
  "a < 64 \<Longrightarrow> need_continuation (word_of_nat (0x80 + a) # r) = Inr (word_of_nat (0x80 + a), r)"
  by (simp add: need_continuation_def need_byte_def lead_and del: of_nat_add)

lemma base64_digits:
  "(n::nat) = n div 4096 * 4096 + (n div 64 mod 64 * 64 + n mod 64)"
  "n = n div 262144 * 262144 + (n div 4096 mod 64 * 4096 + (n div 64 mod 64 * 64 + n mod 64))"
proof -
  have 1: "n = n div 64 * 64 + n mod 64" and 2: "n div 64 = n div 4096 * 64 + n div 64 mod 64"
    and 3: "n div 4096 = n div 262144 * 64 + n div 4096 mod 64"
    using div_mult_mod_eq [of n 64] div_mult_mod_eq [of "n div 64" 64]
      div_mult_mod_eq [of "n div 4096" 64] div_mult2_eq [of n 64 64] div_mult2_eq [of n 4096 64]
    by simp_all
  show "n = n div 4096 * 4096 + (n div 64 mod 64 * 64 + n mod 64)"
    using 1 2 by linarith
  then show "n = n div 262144 * 262144 + (n div 4096 mod 64 * 4096 + (n div 64 mod 64 * 64 + n mod 64))"
    using 3 by linarith
qed

lemma base16_digits:
  "(n::nat) = ((n div 4096 * 16 + n div 256 mod 16) * 16 + n div 16 mod 16) * 16 + n mod 16"
proof -
  have "n = n div 16 * 16 + n mod 16" and "n div 16 = n div 256 * 16 + n div 16 mod 16"
    and "n div 256 = n div 4096 * 16 + n div 256 mod 16"
    using div_mult_mod_eq [of n 16] div_mult_mod_eq [of "n div 16" 16]
      div_mult_mod_eq [of "n div 256" 16] div_mult2_eq [of n 16 16] div_mult2_eq [of n 256 16]
    by simp_all
  moreover have "m = ((t * 16 + u) * 16 + v) * 16 + w"
    if "m = q * 16 + w" "q = p * 16 + v" "p = t * 16 + u" for m q p t u v w :: nat
    using that by simp
  ultimately show ?thesis by blast
qed

lemma utf8_roundtrip_2:
  assumes "0x80 \<le> cp" "cp < 0x800"
  shows "consume_utf8_code_point (utf8_bytes cp @ rest) = Inr (cp, rest)"
proof -
  define a b where "a = cp div 64" and "b = cp mod 64"
  have cp: "cp = a * 64 + b" and a: "a < 32" "2 \<le> a" and b: "b < 64"
    using assms unfolding a_def b_def by auto
  have u: "utf8_bytes cp = [word_of_nat (0xc0 + a), word_of_nat (0x80 + b)]"
    using assms a(1) b
    by (simp add: utf8_bytes_def nat_and_mask6 drop_bit_eq_div lead_or a_def [symmetric] b_def [symmetric] del: of_nat_add)
  have "push_bit 6 a OR b = cp" using nat_or_shift [of b 6 a] b cp by simp
  then show ?thesis
    using a b assms
    by (simp add: u consume_utf8_code_point_def need_byte_def byte_less need_continuation_ok lead_and Let_def del: of_nat_add)
qed

lemma utf8_roundtrip_3:
  assumes "0x800 \<le> cp" "cp < 0x10000" "\<not> (0xd800 \<le> cp \<and> cp \<le> 0xdfff)"
  shows "consume_utf8_code_point (utf8_bytes cp @ rest) = Inr (cp, rest)"
proof -
  define a b c where "a = cp div 4096" and "b = cp div 64 mod 64" and "c = cp mod 64"
  have cp: "cp = a * 4096 + (b * 64 + c)"
    using base64_digits(1) [of cp] by (simp add: a_def b_def c_def)
  have a: "a < 16" and b: "b < 64" and c: "c < 64"
    using assms unfolding a_def b_def c_def by auto
  have u: "utf8_bytes cp = [word_of_nat (0xe0 + a), word_of_nat (0x80 + b), word_of_nat (0x80 + c)]"
    using assms a b c
    by (simp add: utf8_bytes_def nat_and_mask6 drop_bit_eq_div lead_or a_def [symmetric]
        b_def [symmetric] c_def [symmetric] del: of_nat_add)
  have "push_bit 12 a OR (push_bit 6 b OR c) = cp"
    using nat_or_shift [of c 6 b] nat_or_shift [of "b * 64 + c" 12 a] b c cp by simp
  then have "push_bit 12 a OR push_bit 6 b OR c = cp" by (simp add: or.assoc)
  then show ?thesis
    using a b c assms
    by (simp add: u consume_utf8_code_point_def need_byte_def byte_less need_continuation_ok
        lead_and Let_def del: of_nat_add)
qed

lemma utf8_roundtrip_4:
  assumes "0x10000 \<le> cp" "cp \<le> 0x10ffff"
  shows "consume_utf8_code_point (utf8_bytes cp @ rest) = Inr (cp, rest)"
proof -
  define a b c d where "a = cp div 262144" and "b = cp div 4096 mod 64"
    and "c = cp div 64 mod 64" and "d = cp mod 64"
  have cp: "cp = a * 262144 + (b * 4096 + (c * 64 + d))"
    using base64_digits(2) [of cp] by (simp add: a_def b_def c_def d_def)
  have a: "a < 8" "a \<le> 4" and b: "b < 64" and c: "c < 64" and d: "d < 64"
    using assms unfolding a_def b_def c_def d_def by auto
  have u: "utf8_bytes cp = [word_of_nat (0xf0 + a), word_of_nat (0x80 + b), word_of_nat (0x80 + c),
      word_of_nat (0x80 + d)]"
    using assms a b c d
    by (simp add: utf8_bytes_def nat_and_mask6 drop_bit_eq_div lead_or a_def [symmetric]
        b_def [symmetric] c_def [symmetric] d_def [symmetric] del: of_nat_add)
  have "push_bit 18 a OR (push_bit 12 b OR (push_bit 6 c OR d)) = cp"
    using nat_or_shift [of d 6 c] nat_or_shift [of "c * 64 + d" 12 b]
      nat_or_shift [of "b * 4096 + (c * 64 + d)" 18 a] b c d cp by simp
  then have "push_bit 18 a OR push_bit 12 b OR push_bit 6 c OR d = cp" by (simp add: or.assoc)
  then show ?thesis
    using a b c d assms
    by (simp add: u consume_utf8_code_point_def need_byte_def byte_less need_continuation_ok
        lead_and Let_def del: of_nat_add)
qed

lemma utf8_bytes_ascii: "cp < 0x80 \<Longrightarrow> utf8_bytes cp = [word_of_nat cp]"
  by (simp add: utf8_bytes_def)

lemma consume_utf8_bytes:
  assumes "cp \<le> 0x10ffff" and "\<not> (0xd800 \<le> cp \<and> cp \<le> 0xdfff)"
  shows "consume_utf8_code_point (utf8_bytes cp @ rest) = Inr (cp, rest)"
proof (cases "cp < 0x80")
  case True
  then show ?thesis
    by (simp add: utf8_bytes_ascii consume_utf8_code_point_def need_byte_def byte_less unat_byte)
next
  case False
  with assms utf8_roundtrip_2 utf8_roundtrip_3 utf8_roundtrip_4 show ?thesis
    by (metis not_less)
qed

lemma utf8_bytes_lead:
  assumes "0x80 \<le> cp" "cp \<le> 0x10ffff"
  obtains b r where "utf8_bytes cp = b # r" "0x80 \<le> b"
proof -
  have "0x80 \<le> (word_of_nat (0xc0 OR drop_bit 6 cp) :: byte)" if "cp < 0x800"
    using that assms by (simp add: drop_bit_eq_div lead_or word_le_nat_alt unat_byte del: of_nat_add)
  moreover have "0x80 \<le> (word_of_nat (0xe0 OR drop_bit 12 cp) :: byte)" if "cp < 0x10000"
    using that assms by (simp add: drop_bit_eq_div lead_or word_le_nat_alt unat_byte del: of_nat_add)
  moreover have "0x80 \<le> (word_of_nat (0xf0 OR drop_bit 18 cp) :: byte)"
    using assms by (simp add: drop_bit_eq_div lead_or word_le_nat_alt unat_byte del: of_nat_add)
  ultimately show thesis
    using that assms by (cases "cp < 0x800"; cases "cp < 0x10000") (simp_all add: utf8_bytes_def)
qed

section \<open>Strings\<close>

lemma hex_nibble_digit: "d < 16 \<Longrightarrow> hex_nibble (ucast (hex_digit d)) = Some d"
proof -
  have "\<forall>d \<in> set [0..<16]. hex_nibble (ucast (hex_digit d)) = Some d" by code_simp
  then show "d < 16 \<Longrightarrow> ?thesis" by simp
qed

lemma to_hex_padded:
  assumes "n < 65536"
  shows "pad_start 4 0x30 (to_hex n) =
    [hex_digit (n div 4096), hex_digit (n div 256 mod 16), hex_digit (n div 16 mod 16), hex_digit (n mod 16)]"
proof -
  have z: "hex_digit 0 = 0x30" by (simp add: hex_digit_def)
  have d1: "n div 16 div 16 = n div 256" and d2: "n div 256 div 16 = n div 4096"
    by (simp_all flip: div_mult2_eq)
  have h: "to_hex m = to_hex (m div 16) @ [hex_digit (m mod 16)]" if "16 \<le> m" for m
    using that by (subst to_hex.simps) simp
  have h1: "to_hex m = [hex_digit m]" if "m < 16" for m
    using that by (subst to_hex.simps) simp
  consider "n < 16" | "16 \<le> n" "n < 256" | "256 \<le> n" "n < 4096" | "4096 \<le> n" by linarith
  then show ?thesis
  proof cases
    case 1
    then show ?thesis by (simp add: h1 pad_start_def z numeral_3_eq_3)
  next
    case 2
    then have "to_hex n = [hex_digit (n div 16), hex_digit (n mod 16)]" by (simp add: h h1)
    with 2 show ?thesis by (simp add: pad_start_def z numeral_2_eq_2)
  next
    case 3
    then have "to_hex n = [hex_digit (n div 256), hex_digit (n div 16 mod 16), hex_digit (n mod 16)]"
      by (simp add: h h1 d1)
    with 3 show ?thesis by (simp add: pad_start_def z)
  next
    case 4
    with assms show ?thesis by (simp add: h h1 d1 d2 pad_start_def)
  qed
qed

lemma parse_hex_code_unit_unfold:
  "parse_hex_code_unit bs = parse_hex_loop (Suc (Suc (Suc (Suc 0)))) 0 bs"
  by (simp add: parse_hex_code_unit_def eval_nat_numeral)

lemma parse_hex_text:
  assumes "n < 65536"
  shows "parse_hex_code_unit (map ucast (pad_start 4 0x30 (to_hex n)) @ rest) = Inr (n, rest)"
proof -
  have step: "parse_hex_loop (Suc k) v (ucast (hex_digit d) # r) = parse_hex_loop k (v * 16 + d) r"
    if "d < 16" for k v d r
    using nat_or_shift [of d 4 v] that by (simp add: need_byte_def hex_nibble_digit)
  have "n div 4096 < 16" using assms by auto
  then have "parse_hex_code_unit (map ucast (pad_start 4 0x30 (to_hex n)) @ rest) =
    Inr (((n div 4096 * 16 + n div 256 mod 16) * 16 + n div 16 mod 16) * 16 + n mod 16, rest)"
    by (simp add: to_hex_padded [OF assms] parse_hex_code_unit_unfold step del: parse_hex_loop.simps(2))
  then show ?thesis by (simp only: base16_digits [symmetric])
qed

section \<open>String bodies\<close>

lemma parse_string_loop_Nil: "parse_string_loop acc [] = Inl Malformed_json"
  by (subst parse_string_loop.simps) simp

lemma parse_string_loop_quote: "parse_string_loop acc (0x22 # r) = Inr (acc, r)"
  by (subst parse_string_loop.simps) simp

lemma parse_string_loop_escape:
  "parse_escape (0x5c # r) = Inr (s, r') \<Longrightarrow>
   parse_string_loop acc (0x5c # r) = parse_string_loop (acc @ s) r'"
  by (subst parse_string_loop.simps) simp

lemma parse_string_loop_ascii:
  "\<not> b < 0x20 \<Longrightarrow> b < 0x80 \<Longrightarrow> b \<noteq> 0x22 \<Longrightarrow> b \<noteq> 0x5c \<Longrightarrow>
   parse_string_loop acc (b # r) = parse_string_loop (acc @ [ucast b]) r"
  by (subst parse_string_loop.simps) simp

lemma parse_string_loop_utf8:
  assumes "0x80 \<le> b" and "consume_utf8_code_point (b # r) = Inr (cp, r')"
  shows "parse_string_loop acc (b # r) = parse_string_loop (acc @ from_code_point cp) r'"
proof -
  have "b \<noteq> 0x22" "b \<noteq> 0x5c" "\<not> b < 0x20" "\<not> b < 0x80"
    using assms(1) by (auto simp: word_le_nat_alt word_less_nat_alt)
  with assms(2) show ?thesis by (subst parse_string_loop.simps) simp
qed

lemma parse_escape_hex:
  assumes "n < 65536"
  shows "parse_escape (0x5c # 0x75 # map ucast (pad_start 4 0x30 (to_hex n)) @ rest)
    = Inr ([word_of_nat n], rest)"
  using parse_hex_text [OF assms, of rest] by (simp add: parse_escape_def need_byte_def)

lemma parse_string_char:
  assumes "cp \<le> 0x10ffff"
  shows "parse_string_loop acc (string_char_text cp @ rest)
    = parse_string_loop (acc @ from_code_point cp) rest"
proof -
  note esc = parse_string_loop_escape parse_escape_def need_byte_def from_code_point_def
  consider (special) "cp \<in> {0x22, 0x5c, 0x08, 0x09, 0x0a, 0x0c, 0x0d}"
    | (hex) "cp \<notin> {0x22, 0x5c, 0x08, 0x09, 0x0a, 0x0c, 0x0d}"
        "cp < 0x20 \<or> (0xd800 \<le> cp \<and> cp \<le> 0xdfff)"
    | (ascii) "cp \<notin> {0x22, 0x5c}" "0x20 \<le> cp" "cp < 0x80"
    | (utf8) "0x80 \<le> cp" "\<not> (0xd800 \<le> cp \<and> cp \<le> 0xdfff)"
    by force
  then show ?thesis
  proof cases
    case special
    then show ?thesis by (auto simp: string_char_text_def esc)
  next
    case hex
    then have n: "cp < 65536" by auto
    from hex have "string_char_text cp = 0x5c # 0x75 # map ucast (pad_start 4 0x30 (to_hex cp))"
      by (auto simp: string_char_text_def)
    with parse_string_loop_escape [OF parse_escape_hex [OF n]] n show ?thesis
      by (simp add: from_code_point_def)
  next
    case ascii
    then have t: "string_char_text cp = [word_of_nat cp]"
      by (auto simp: string_char_text_def utf8_bytes_ascii)
    have "(word_of_nat cp :: byte) \<noteq> 0x22" "(word_of_nat cp :: byte) \<noteq> 0x5c"
      "\<not> (word_of_nat cp :: byte) < 0x20" "(word_of_nat cp :: byte) < 0x80"
      using ascii by (auto simp: word_less_nat_alt word_unat_eq_iff unat_byte)
    moreover have "(ucast (word_of_nat cp :: byte) :: jschar) = word_of_nat cp"
      using ascii by (simp add: word_unat_eq_iff unsigned_of_nat take_bit_nat_eq_self unsigned_ucast_eq)
    ultimately show ?thesis
      using ascii by (simp add: t parse_string_loop_ascii from_code_point_def)
  next
    case utf8
    then have t: "string_char_text cp = utf8_bytes cp"
      by (auto simp: string_char_text_def)
    obtain b r where br: "utf8_bytes cp = b # r" "0x80 \<le> b"
      using utf8_bytes_lead [OF utf8(1) assms] by blast
    have "consume_utf8_code_point (b # (r @ rest)) = Inr (cp, rest)"
      using consume_utf8_bytes [OF assms utf8(2), of rest] by (simp add: br)
    with parse_string_loop_utf8 [OF br(2) this] show ?thesis by (simp add: t br)
  qed
qed

lemma parse_string_chars:
  "\<forall>cp \<in> set cps. cp \<le> 0x10ffff \<Longrightarrow>
   parse_string_loop acc (concat (map string_char_text cps) @ rest)
     = parse_string_loop (acc @ concat (map from_code_point cps)) rest"
  by (induction cps arbitrary: acc) (simp_all add: parse_string_char)

lemma parse_string_text: "parse_string (string_text s @ rest) = Inr (s, rest)"
proof -
  have "parse_string_loop [] (concat (map string_char_text (code_points s)) @ 0x22 # rest) = Inr (s, rest)"
    using parse_string_chars [of "code_points s" "[]" "0x22 # rest"] code_points_bound
    by (simp add: concat_from_code_points parse_string_loop_quote)
  then show ?thesis by (simp add: string_text_def parse_string_def need_byte_def)
qed

section \<open>Numbers\<close>

abbreviation ascii :: "jsstr \<Rightarrow> bool" where
  "ascii s \<equiv> \<forall>u \<in> set s. u < 0x80"

lemma unat_ucast_ascii: "(u::jschar) < 0x80 \<Longrightarrow> unat (ucast u :: byte) = unat u"
  by (simp add: unsigned_ucast_eq word_less_nat_alt take_bit_nat_eq_self)

lemma unat_ucast_byte: "unat (ucast (b::byte) :: jschar) = unat b"
proof -
  have "unat b < 2 ^ 16" using unsigned_less [of b, where ?'a = nat] by simp
  then show ?thesis by (simp add: unsigned_ucast_eq take_bit_nat_eq_self)
qed

lemma ucast_ascii_iff:
  "(u::jschar) < 0x80 \<Longrightarrow> (ucast u :: byte) = numeral k \<longleftrightarrow> u = ucast (numeral k :: byte)"
  by (simp add: word_unat_eq_iff unat_ucast_ascii unat_ucast_byte del: ucast_bintr unsigned_numeral)

lemma ucast_ascii_back: "(u::jschar) < 0x80 \<Longrightarrow> ucast (ucast u :: byte) = u"
  by (simp add: word_unat_eq_iff unat_ucast_ascii unat_ucast_byte)

lemma ucast_ascii_le:
  assumes "(u::jschar) < 0x80"
  shows "numeral k \<le> (ucast u :: byte) \<longleftrightarrow> unat (numeral k :: byte) \<le> unat u"
    and "(ucast u :: byte) \<le> numeral k \<longleftrightarrow> unat u \<le> unat (numeral k :: byte)"
  using assms by (simp_all add: word_le_nat_alt unat_ucast_ascii)

lemma js_digit_ascii: "js_digit u \<Longrightarrow> u < 0x80"
  by (auto simp: js_digit_def word_le_nat_alt word_less_nat_alt)

lemma is_digit_ucast: "(u::jschar) < 0x80 \<Longrightarrow> is_digit (ucast u) \<longleftrightarrow> js_digit u"
  by (simp add: is_digit_def js_digit_def ucast_ascii_le) (simp add: word_le_nat_alt)

lemma consume_digits_eq:
  "consume_digits bs = (dropWhile is_digit bs, bs \<noteq> [] \<and> is_digit (hd bs))"
  by (induction bs) auto

definition number_stop :: "bytes \<Rightarrow> bool" where
  "number_stop bs \<longleftrightarrow> (case bs of [] \<Rightarrow> True
     | b # _ \<Rightarrow> \<not> is_digit b \<and> b \<noteq> 0x2e \<and> b \<noteq> 0x65 \<and> b \<noteq> 0x45)"

lemma ascii_dropWhile_digit: "ascii (dropWhile js_digit s) \<Longrightarrow> ascii s"
  by (induction s) (auto simp: js_digit_ascii split: if_splits)

lemma dropWhile_digit_ucast:
  "ascii s \<Longrightarrow> number_stop rest \<Longrightarrow>
   dropWhile is_digit (map ucast s @ rest) = map ucast (dropWhile js_digit s) @ rest"
  by (induction s) (auto simp: is_digit_ucast number_stop_def split: list.splits)

lemma lexeme_digits1_ascii: "lexeme_digits1 s = Some s' \<Longrightarrow> ascii s' \<Longrightarrow> ascii s"
  by (auto simp: lexeme_digits1_def js_digit_ascii dest: ascii_dropWhile_digit
      split: list.splits if_splits)

lemma lexeme_digits1_bytes:
  assumes "lexeme_digits1 s = Some s'" "ascii s" "number_stop rest"
  shows "consume_digits (map ucast s @ rest) = (map ucast s' @ rest, True)"
  using assms
  by (auto simp: lexeme_digits1_def consume_digits_eq is_digit_ucast dropWhile_digit_ucast
      split: list.splits if_splits)

lemma lexeme_integer_ascii: "lexeme_integer s = Some s' \<Longrightarrow> ascii s' \<Longrightarrow> ascii s"
  by (auto simp: lexeme_integer_def dest: ascii_dropWhile_digit
      intro: order.strict_trans1 [of _ "0x39 :: jschar"] split: list.splits if_splits)

lemma lexeme_integer_bytes:
  assumes "lexeme_integer s = Some s'" "ascii s" "number_stop rest"
  shows "number_integer (map ucast s @ rest) = Inr (map ucast s' @ rest)"
proof (cases s)
  case (Cons u r)
  with assms show ?thesis
    by (auto simp: lexeme_integer_def number_integer_def ucast_ascii_iff unat_ucast_ascii
        consume_digits_eq dropWhile_digit_ucast word_le_nat_alt split: if_splits)
qed (use assms in \<open>simp add: lexeme_integer_def\<close>)

lemma lexeme_fraction_ascii: "lexeme_fraction s = Some s' \<Longrightarrow> ascii s' \<Longrightarrow> ascii s"
  by (auto simp: lexeme_fraction_def dest: lexeme_digits1_ascii split: list.splits if_splits)

lemma lexeme_fraction_bytes:
  assumes "lexeme_fraction s = Some s'" "ascii s" "number_stop rest"
  shows "number_fraction (map ucast s @ rest) = Inr (map ucast s' @ rest)"
proof (cases s)
  case Nil
  with assms show ?thesis
    by (auto simp: lexeme_fraction_def number_fraction_def number_stop_def split: list.splits)
next
  case (Cons u r)
  with assms lexeme_digits1_bytes [of r s' rest] show ?thesis
    by (auto simp: lexeme_fraction_def number_fraction_def ucast_ascii_iff split: if_splits)
qed

lemma lexeme_exponent_ascii: "lexeme_exponent s = Some s' \<Longrightarrow> ascii s' \<Longrightarrow> ascii s"
  by (auto simp: lexeme_exponent_def dest!: lexeme_digits1_ascii split: list.splits if_splits)

lemma lexeme_exponent_bytes:
  assumes "lexeme_exponent s = Some s'" "ascii s" "number_stop rest"
  shows "number_exponent (map ucast s @ rest) = Inr (map ucast s' @ rest)"
proof (cases s)
  case Nil
  with assms show ?thesis
    by (auto simp: lexeme_exponent_def number_exponent_def number_stop_def split: list.splits)
next
  case (Cons u r)
  show ?thesis
  proof (cases "u = 0x65 \<or> u = 0x45")
    case True
    let ?t = "case r of [] \<Rightarrow> r | v # t \<Rightarrow> if v = 0x2b \<or> v = 0x2d then t else r"
    have d: "lexeme_digits1 ?t = Some s'" using assms(1) Cons True by (simp add: lexeme_exponent_def)
    then have ne: "r \<noteq> []" by (auto simp: lexeme_digits1_def)
    have a: "ascii ?t" using assms(2) Cons by (auto split: list.splits)
    have "(case map ucast r @ rest of [] \<Rightarrow> map ucast r @ rest
        | v # t \<Rightarrow> if v = 0x2b \<or> v = 0x2d then t else map ucast r @ rest) = map ucast ?t @ rest"
      using ne assms(2) Cons by (cases r) (auto simp: ucast_ascii_iff)
    moreover have "(ucast u :: byte) = 0x65 \<or> (ucast u :: byte) = 0x45" using True by auto
    ultimately show ?thesis
      using lexeme_digits1_bytes [OF d a assms(3)] Cons by (simp add: number_exponent_def Let_def)
  next
    case False
    with assms Cons show ?thesis
      by (auto simp: lexeme_exponent_def number_exponent_def ucast_ascii_iff)
  qed
qed

lemma parse_number_lexeme:
  assumes "valid_lexeme s" and stop: "number_stop rest"
  shows "ascii s" and "parse_number (map ucast s @ rest) = Inr (WNumber s, rest)"
proof -
  let ?s0 = "case s of [] \<Rightarrow> s | u # r \<Rightarrow> if u = 0x2d then r else s"
  obtain s1 s2 where s1: "lexeme_integer ?s0 = Some s1" and s2: "lexeme_fraction s1 = Some s2"
    and s3: "lexeme_exponent s2 = Some []"
    using assms(1) by (auto simp: valid_lexeme_def Let_def bind_eq_Some_conv)
  have a2: "ascii s2" using lexeme_exponent_ascii [OF s3] by simp
  have a1: "ascii s1" using lexeme_fraction_ascii [OF s2 a2] .
  have a0: "ascii ?s0" using lexeme_integer_ascii [OF s1 a1] .
  then show a: "ascii s" by (cases s) (auto split: if_splits)
  have ne: "s \<noteq> []" using s1 by (auto simp: lexeme_integer_def)
  have "(case map ucast s @ rest of [] \<Rightarrow> map ucast s @ rest
      | b # r \<Rightarrow> if b = 0x2d then r else map ucast s @ rest) = map ucast ?s0 @ rest"
    using ne a by (cases s) (auto simp: ucast_ascii_iff)
  moreover have "ascii_slice (map ucast s @ rest) rest = s"
    using a by (induction s) (auto simp: ascii_slice_def ucast_ascii_back)
  ultimately show "parse_number (map ucast s @ rest) = Inr (WNumber s, rest)"
    using lexeme_integer_bytes [OF s1 a0 stop] lexeme_fraction_bytes [OF s2 a1 stop]
      lexeme_exponent_bytes [OF s3 a2 stop]
    by (simp add: parse_number_def Let_def)
qed

lemma valid_lexeme_start:
  assumes "valid_lexeme s"
  obtains u r where "s = u # r" and "ucast u = (0x2d :: byte) \<or> (0x30 \<le> (ucast u :: byte) \<and> (ucast u :: byte) \<le> 0x39)"
    and "u < 0x80"
proof -
  have a: "ascii s" using parse_number_lexeme(1) [OF assms, of "[]"] by (simp add: number_stop_def)
  obtain u r where s: "s = u # r"
    using assms by (cases s) (auto simp: valid_lexeme_def lexeme_integer_def)
  with a have u: "u < 0x80" by simp
  have "u = 0x2d \<or> (0x30 \<le> u \<and> u \<le> 0x39)"
    using assms s
    by (auto simp: valid_lexeme_def lexeme_integer_def word_le_nat_alt split: if_splits)
  with u have "ucast u = (0x2d :: byte) \<or> (0x30 \<le> (ucast u :: byte) \<and> (ucast u :: byte) \<le> 0x39)"
    by (auto simp: ucast_ascii_iff unat_ucast_ascii word_le_nat_alt)
  with that s u show thesis by blast
qed

section \<open>Values\<close>

fun nesting :: "wire_json \<Rightarrow> nat" where
  "nesting (WArray xs) = Suc (foldr (\<lambda>x n. max (nesting x) n) xs 0)"
| "nesting (WObject ms) = Suc (foldr (\<lambda>m n. max (nesting (snd m)) n) ms 0)"
| "nesting _ = 0"

lemma less_foldr_max: "(a::nat) < d + foldr (\<lambda>x n. max (f x) n) xs 0 \<longleftrightarrow> a < d \<or> (\<exists>x \<in> set xs. a < d + f x)"
  by (induction xs) (auto simp: max_def)

lemma skip_whitespace_stop: "\<not> is_whitespace b \<Longrightarrow> skip_whitespace (b # r) = b # r"
  by simp

lemma not_whitespace:
  "b \<in> {0x22, 0x2c, 0x3a, 0x5b, 0x5d, 0x66, 0x6e, 0x74, 0x7b, 0x7d, 0x2d} \<Longrightarrow> \<not> is_whitespace b"
  "0x30 \<le> b \<Longrightarrow> b \<le> 0x39 \<Longrightarrow> \<not> is_whitespace b"
  by (auto simp: is_whitespace_def)

lemma json_text_start:
  assumes "lexemes_ok v"
  obtains b r where "json_text v = b # r" and "\<not> is_whitespace b" and "b \<noteq> 0x5d"
proof (cases v)
  case (WBool x)
  with that show thesis by (cases x) (auto simp: not_whitespace)
next
  case (WNumber s)
  with assms have "valid_lexeme s" by simp
  then obtain u r where u: "s = u # r"
      "ucast u = (0x2d :: byte) \<or> (0x30 \<le> (ucast u :: byte) \<and> (ucast u :: byte) \<le> 0x39)"
    by (rule valid_lexeme_start)
  show thesis
  proof (rule that)
    show "json_text v = ucast u # map ucast r" by (simp add: WNumber u)
    show "\<not> is_whitespace (ucast u)" using u(2) not_whitespace by blast
    show "(ucast u :: byte) \<noteq> 0x5d" using u(2) by (auto simp: word_le_nat_alt)
  qed
qed (use that in \<open>auto simp: string_text_def not_whitespace split: if_splits\<close>)

text \<open>
  What the parser makes of the text of a value in front of \<open>rest\<close>, at depth \<open>d\<close>: the value itself,
  or the depth error when a container of it lies too deep.
\<close>

definition reads_back :: "nat \<Rightarrow> wire_json \<Rightarrow> bool" where
  "reads_back maxd v \<longleftrightarrow> (\<forall>fuel d rest. lexemes_ok v \<longrightarrow> d \<le> maxd + 1 \<longrightarrow>
     2 * length (json_text v) + 1 \<le> fuel \<longrightarrow> number_stop rest \<longrightarrow>
     parse_value fuel maxd d (json_text v @ rest) =
       (if maxd + 1 < d + nesting v then Inl (Stopped Depth_limit) else Inr (v, rest)))"

lemma reads_backD:
  "reads_back maxd v \<Longrightarrow> lexemes_ok v \<Longrightarrow> d \<le> maxd + 1 \<Longrightarrow>
   2 * length (json_text v) + 1 \<le> fuel \<Longrightarrow> number_stop rest \<Longrightarrow>
   parse_value fuel maxd d (json_text v @ rest) =
     (if maxd + 1 < d + nesting v then Inl (Stopped Depth_limit) else Inr (v, rest))"
  by (simp add: reads_back_def)

lemma number_stop_separators:
  "number_stop (0x2c # r)" "number_stop (0x5d # r)" "number_stop (0x7d # r)" "number_stop []"
  by (simp_all add: number_stop_def is_digit_def)

lemma items_text_False: "items_text False (y # ys) = 0x2c # items_text True (y # ys)"
  by simp

lemma members_text_False: "members_text False (m # ms) = 0x2c # members_text True (m # ms)"
  by (cases m) simp

lemma parse_items_text:
  "xs \<noteq> [] \<Longrightarrow> \<forall>x \<in> set xs. reads_back maxd x \<and> lexemes_ok x \<Longrightarrow> d \<le> maxd \<Longrightarrow>
   2 * length (items_text True xs) + 2 \<le> fuel \<Longrightarrow>
   parse_items fuel maxd d (items_text True xs @ 0x5d # rest) =
     (if \<exists>x \<in> set xs. maxd < d + nesting x then Inl (Stopped Depth_limit) else Inr (xs, rest))"
proof (induction xs arbitrary: fuel)
  case Nil
  then show ?case by simp
next
  case (Cons x xs)
  obtain f where f: "fuel = Suc f" using Cons.prems(4) by (cases fuel) auto
  let ?after = "items_text False xs @ 0x5d # rest"
  have stop: "number_stop ?after"
    using number_stop_separators by (cases xs) (auto simp: items_text_False simp del: items_text.simps(2))
  have v: "parse_value f maxd (d + 1) (json_text x @ ?after) =
      (if maxd < d + nesting x then Inl (Stopped Depth_limit) else Inr (x, ?after))"
    using reads_backD [of maxd x "d + 1" f ?after] stop Cons.prems f by simp
  show ?case
  proof (cases xs)
    case Nil
    then show ?thesis using v f by (simp add: not_whitespace peek_byte_def)
  next
    case (Cons y ys)
    have "2 * length (items_text True xs) + 2 \<le> f"
      using Cons.prems(4) f Cons items_text_False [of y ys] by simp
    with Cons.IH [of f] Cons.prems Cons
    have t: "parse_items f maxd d (items_text True xs @ 0x5d # rest) =
        (if \<exists>x \<in> set xs. maxd < d + nesting x then Inl (Stopped Depth_limit) else Inr (xs, rest))"
      by simp
    have a: "?after = 0x2c # (items_text True xs @ 0x5d # rest)"
      by (simp add: Cons items_text_False del: items_text.simps(2))
    show ?thesis using v t f
      by (auto simp: a not_whitespace peek_byte_def)
  qed
qed


lemma peek_byte_Cons: "peek_byte (b # r) = Some b"
  by (simp add: peek_byte_def)

lemma string_text_start:
  "skip_whitespace (string_text k @ r) = string_text k @ r"
  "peek_byte (string_text k @ r) = Some 0x22"
  by (simp_all add: string_text_def not_whitespace peek_byte_def)

lemma parse_members_text:
  "ms \<noteq> [] \<Longrightarrow> \<forall>m \<in> set ms. reads_back maxd (snd m) \<and> lexemes_ok (snd m) \<Longrightarrow> d \<le> maxd \<Longrightarrow>
   2 * length (members_text True ms) + 2 \<le> fuel \<Longrightarrow>
   parse_members fuel maxd d (members_text True ms @ 0x7d # rest) =
     (if \<exists>m \<in> set ms. maxd < d + nesting (snd m) then Inl (Stopped Depth_limit) else Inr (ms, rest))"
proof (induction ms arbitrary: fuel)
  case Nil
  then show ?case by simp
next
  case (Cons m ms)
  obtain k x where m: "m = (k, x)" by (cases m)
  obtain f where f: "fuel = Suc f" using Cons.prems(4) by (cases fuel) auto
  define after where "after = members_text False ms @ 0x7d # rest"
  have whole: "members_text True (m # ms) @ 0x7d # rest = string_text k @ 0x3a # json_text x @ after"
    by (simp add: m after_def)
  have stop: "number_stop after"
    using number_stop_separators
    by (cases ms) (auto simp: after_def members_text_False simp del: members_text.simps(2))
  have v: "parse_value f maxd (d + 1) (json_text x @ after) =
      (if maxd < d + nesting x then Inl (Stopped Depth_limit) else Inr (x, after))"
    using reads_backD [of maxd x "d + 1" f after] stop Cons.prems f m by simp
  note open_simps = f whole string_text_start parse_string_text v [simplified] not_whitespace peek_byte_Cons
  show ?case
  proof (cases ms)
    case Nil
    then have a: "after = 0x7d # rest" by (simp add: after_def)
    have p: "parse_members (Suc f) maxd d (string_text k @ 0x3a # json_text x @ after) =
        (if maxd < d + nesting x then Inl (Stopped Depth_limit) else Inr ([(k, x)], rest))"
      by (simp add: open_simps) (simp add: a not_whitespace peek_byte_Cons)
    show ?thesis unfolding whole f p by (simp add: m Nil)
  next
    case (Cons y ys)
    have "2 * length (members_text True ms) + 2 \<le> f"
      using Cons.prems(4) f Cons m members_text_False [of y ys] by simp
    with Cons.IH [of f] Cons.prems Cons
    have t: "parse_members f maxd d (members_text True ms @ 0x7d # rest) =
        (if \<exists>m \<in> set ms. maxd < d + nesting (snd m) then Inl (Stopped Depth_limit)
         else Inr (ms, rest))"
      by simp
    have a: "after = 0x2c # (members_text True ms @ 0x7d # rest)"
      by (simp add: after_def Cons members_text_False del: members_text.simps(2))
    have p: "parse_members (Suc f) maxd d (string_text k @ 0x3a # json_text x @ after) =
        (if maxd < d + nesting x then Inl (Stopped Depth_limit)
         else ebind (parse_members f maxd d (members_text True ms @ 0x7d # rest))
                (\<lambda>(ms, r). Inr ((k, x) # ms, r)))"
      by (simp add: open_simps) (simp add: a not_whitespace peek_byte_Cons)
    show ?thesis unfolding whole f p t by (simp add: m)
  qed
qed

lemma items_text_start:
  assumes "xs \<noteq> []" "\<forall>x \<in> set xs. lexemes_ok x"
  shows "skip_whitespace (items_text True xs @ r) = items_text True xs @ r"
    and "peek_byte (items_text True xs @ r) \<noteq> Some 0x5d"
proof -
  obtain x xs' where xs: "xs = x # xs'" using assms(1) by (cases xs) auto
  with assms(2) have "lexemes_ok x" by simp
  then obtain b t where "json_text x = b # t" "\<not> is_whitespace b" "b \<noteq> 0x5d"
    by (rule json_text_start)
  then show "skip_whitespace (items_text True xs @ r) = items_text True xs @ r"
    and "peek_byte (items_text True xs @ r) \<noteq> Some 0x5d"
    by (simp_all add: xs peek_byte_def)
qed

lemma reads_back_array:
  assumes IH: "\<forall>x \<in> set xs. reads_back maxd x"
  shows "reads_back maxd (WArray xs)"
  unfolding reads_back_def
proof (intro allI impI)
  fix fuel d rest
  assume ok: "lexemes_ok (WArray xs)" and d: "d \<le> maxd + 1"
    and fuel: "2 * length (json_text (WArray xs)) + 1 \<le> fuel" and stop: "number_stop rest"
  obtain f where f: "fuel = Suc f" using fuel by (cases fuel) auto
  have items: "parse_items f maxd d (items_text True xs @ 0x5d # rest) =
      (if \<exists>x \<in> set xs. maxd < d + nesting x then Inl (Stopped Depth_limit) else Inr (xs, rest))"
    if "xs \<noteq> []" "d \<le> maxd"
    using parse_items_text [OF that(1) _ that(2), of f rest] IH ok fuel f by simp
  show "parse_value fuel maxd d (json_text (WArray xs) @ rest) =
     (if maxd + 1 < d + nesting (WArray xs) then Inl (Stopped Depth_limit)
      else Inr (WArray xs, rest))"
  proof (cases "xs = []")
    case True
    then show ?thesis by (simp add: f not_whitespace peek_byte_def)
  next
    case False
    with items items_text_start [OF False, of "0x5d # rest"] ok d show ?thesis
      by (auto simp: f not_whitespace less_foldr_max)
  qed
qed

lemma reads_back_object:
  assumes IH: "\<forall>m \<in> set ms. reads_back maxd (snd m)"
  shows "reads_back maxd (WObject ms)"
  unfolding reads_back_def
proof (intro allI impI)
  fix fuel d rest
  assume ok: "lexemes_ok (WObject ms)" and d: "d \<le> maxd + 1"
    and fuel: "2 * length (json_text (WObject ms)) + 1 \<le> fuel" and stop: "number_stop rest"
  obtain f where f: "fuel = Suc f" using fuel by (cases fuel) auto
  have members: "parse_members f maxd d (members_text True ms @ 0x7d # rest) =
      (if \<exists>m \<in> set ms. maxd < d + nesting (snd m) then Inl (Stopped Depth_limit) else Inr (ms, rest))"
    if "ms \<noteq> []" "d \<le> maxd"
    using parse_members_text [OF that(1) _ that(2), of f rest] IH ok fuel f by simp
  show "parse_value fuel maxd d (json_text (WObject ms) @ rest) =
     (if maxd + 1 < d + nesting (WObject ms) then Inl (Stopped Depth_limit)
      else Inr (WObject ms, rest))"
  proof (cases ms)
    case Nil
    then show ?thesis by (simp add: f not_whitespace peek_byte_def)
  next
    case (Cons m ms')
    obtain k x where m: "m = (k, x)" by (cases m)
    have start: "skip_whitespace (members_text True ms @ r) = members_text True ms @ r"
        "peek_byte (members_text True ms @ r) = Some 0x22" for r
      by (simp_all add: Cons m string_text_def not_whitespace peek_byte_def)
    have "ms \<noteq> []" using Cons by simp
    with members start d show ?thesis
      by (auto simp: f not_whitespace less_foldr_max)
  qed
qed

lemma reads_back_scalar:
  assumes "\<And>f d rest. lexemes_ok v \<Longrightarrow> number_stop rest \<Longrightarrow>
    parse_value (Suc f) maxd d (json_text v @ rest) = Inr (v, rest)"
    and "nesting v = 0"
  shows "reads_back maxd v"
  unfolding reads_back_def
proof (intro allI impI)
  fix fuel d rest
  assume "lexemes_ok v" "d \<le> maxd + 1" "2 * length (json_text v) + 1 \<le> fuel" "number_stop rest"
  with assms show "parse_value fuel maxd d (json_text v @ rest) =
      (if maxd + 1 < d + nesting v then Inl (Stopped Depth_limit) else Inr (v, rest))"
    by (cases fuel) auto
qed

lemma reads_back_all: "reads_back maxd v"
proof (induction v)
  case (WString s)
  show ?case
    by (rule reads_back_scalar)
      (use parse_string_text [of s] string_text_start [of s] in \<open>auto simp: string_text_def not_whitespace\<close>)
next
  case (WNumber s)
  show ?case
  proof (rule reads_back_scalar)
    fix f d rest
    assume ok: "lexemes_ok (WNumber s)" and stop: "number_stop rest"
    then have "valid_lexeme s" by simp
    from valid_lexeme_start [OF this] obtain u r where u: "s = u # r" and
      c: "ucast u = (0x2d :: byte) \<or> (0x30 \<le> (ucast u :: byte) \<and> (ucast u :: byte) \<le> 0x39)"
      by blast
    have ne: "ucast u \<notin> {0x7b, 0x5b, 0x22, 0x74, 0x66, 0x6e :: byte}"
      using c by (auto simp: word_le_nat_alt)
    have "\<not> is_whitespace (ucast u)" using c not_whitespace by blast
    with ne c parse_number_lexeme(2) [OF \<open>valid_lexeme s\<close> stop]
    show "parse_value (Suc f) maxd d (json_text (WNumber s) @ rest) = Inr (WNumber s, rest)"
      by (simp add: u)
  qed simp
next
  case (WArray xs)
  then show ?case by (intro reads_back_array) simp
next
  case (WObject ms)
  then show ?case by (intro reads_back_object) (auto simp: snds.simps)
qed (rule reads_back_scalar; auto simp: not_whitespace)+

theorem parse_json_text:
  assumes "lexemes_ok v"
  shows "parse_wire_json (json_text v) limits =
    (if max_bytes limits < length (json_text v) then Inl (Stopped Byte_limit)
     else if max_depth limits < nesting v then Inl (Stopped Depth_limit)
     else Inr v)"
proof -
  obtain b r where br: "json_text v = b # r" "\<not> is_whitespace b"
    using json_text_start [OF assms] by blast
  then have skip: "skip_whitespace (json_text v) = json_text v" by simp
  have "parse_value (2 * length (json_text v) + 1) (max_depth limits) 1 (json_text v @ []) =
      (if max_depth limits + 1 < 1 + nesting v then Inl (Stopped Depth_limit) else Inr (v, []))"
    by (rule reads_backD [OF reads_back_all]) (simp_all add: assms number_stop_separators)
  then show ?thesis
    by (simp add: parse_wire_json_def parse_document_def skip Let_def del: parse_value.simps)
qed

end
