(* ===== verification/Wire_Json_Safety.thy ===== *)
theory Wire_Json_Safety
  imports Wire_Json_Roundtrip
begin

text \<open>
  Facts about every input of the parser of \<open>src/src/serialization/wire_json.ts\<close>, well formed or
  not: each scanner consumes input, so the supplied fuel is enough; and a value the parser returns
  respects the depth limit and has number lexemes the writer accepts.
\<close>

section \<open>Progress of the scanners\<close>

lemma skip_whitespace_shorter: "length (skip_whitespace bs) \<le> length bs"
  by (induction bs) auto

lemma consume_digits_shorter: "length (fst (consume_digits bs)) \<le> length bs"
  by (simp add: consume_digits_eq length_dropWhile_le)

lemma expect_ascii_shorter: "expect_ascii cs bs = Inr r \<Longrightarrow> length r + length cs = length bs"
  by (induction cs bs rule: expect_ascii.induct) (auto split: list.splits if_splits)

lemma parse_string_loop_shorter: "parse_string_loop acc bs = Inr (s, r) \<Longrightarrow> length r < length bs"
proof (induction acc bs rule: parse_string_loop.induct)
  case (1 acc bs)
  show ?case
  proof (cases bs)
    case Nil
    with "1.prems" show ?thesis by (simp add: parse_string_loop_Nil)
  next
    case (Cons b bs')
    consider "b = 0x22" | s' r' where "b \<noteq> 0x22" "b = 0x5c" "parse_escape bs = Inr (s', r')"
        "parse_string_loop (acc @ s') r' = Inr (s, r)"
      | "b \<noteq> 0x22" "b \<noteq> 0x5c" "\<not> b < 0x20" "b < 0x80"
        "parse_string_loop (acc @ [ucast b]) bs' = Inr (s, r)"
      | cp r' where "b \<noteq> 0x22" "b \<noteq> 0x5c" "\<not> b < 0x20" "\<not> b < 0x80"
        "consume_utf8_code_point bs = Inr (cp, r')"
        "parse_string_loop (acc @ from_code_point cp) r' = Inr (s, r)"
      using "1.prems" parse_string_loop.simps [of acc bs] Cons
      by (auto split: if_splits sum.splits)
    then show ?thesis
    proof cases
      case 1
      with "1.prems" show ?thesis by (simp add: Cons parse_string_loop_quote)
    next
      case (2 s' r')
      with "1.IH"(1) [OF Cons _ _ 2(3) refl] parse_escape_shorter [OF 2(3)] show ?thesis by simp
    next
      case 3
      with "1.IH"(2) [OF Cons] show ?thesis by (simp add: Cons)
    next
      case (4 cp r')
      with "1.IH"(3) [OF Cons _ _ _ _ 4(5) refl] consume_utf8_shorter [OF 4(5)] show ?thesis by simp
    qed
  qed
qed

lemma parse_string_shorter: "parse_string bs = Inr (s, r) \<Longrightarrow> length r < length bs"
  by (auto simp: parse_string_def ebind_eq_Inr dest!: need_byte_shorter parse_string_loop_shorter)

lemma number_stages_shorter:
  "number_integer bs = Inr r \<Longrightarrow> length r < length bs"
  "number_fraction bs = Inr r \<Longrightarrow> length r \<le> length bs"
  "number_exponent bs = Inr r \<Longrightarrow> length r \<le> length bs"
proof -
  note c = consume_digits_shorter
  show "number_integer bs = Inr r \<Longrightarrow> length r < length bs"
    using c by (force simp: number_integer_def less_Suc_eq_le split: list.splits if_splits)
  show "number_fraction bs = Inr r \<Longrightarrow> length r \<le> length bs"
    using c by (force simp: number_fraction_def le_SucI split: list.splits if_splits)
  show "number_exponent bs = Inr r \<Longrightarrow> length r \<le> length bs"
  proof (cases bs)
    case (Cons b bs')
    moreover assume "number_exponent bs = Inr r"
    moreover have "length (fst (consume_digits bs')) \<le> Suc (length bs')"
      using c [of bs'] by simp
    moreover have "length (fst (consume_digits t)) \<le> Suc (Suc (length t))" for t
      using c [of t] by simp
    ultimately show ?thesis
      by (auto simp: number_exponent_def Let_def split: if_splits list.splits)
  qed (simp add: number_exponent_def)
qed

lemma parse_number_shorter: "parse_number bs = Inr (v, r) \<Longrightarrow> length r < length bs"
  by (auto simp: parse_number_def Let_def ebind_eq_Inr dest!: number_stages_shorter
      split: list.splits if_splits)

lemma peek_byte_Some: "peek_byte bs = Some b \<longleftrightarrow> (\<exists>r. bs = b # r)"
  by (auto simp: peek_byte_def split: list.splits)

section \<open>Inversion of a successful parse\<close>

lemma parse_value_SucE:
  assumes "parse_value (Suc fuel) maxd d bs0 = Inr (v, r)"
  obtains
    (empty_object) t where "skip_whitespace bs0 = 0x7b # t" "d \<le> maxd" "skip_whitespace t = 0x7d # r"
      "v = WObject []"
  | (object) t ms where "skip_whitespace bs0 = 0x7b # t" "d \<le> maxd"
      "parse_members fuel maxd d (skip_whitespace t) = Inr (ms, r)" "v = WObject ms"
  | (empty_array) t where "skip_whitespace bs0 = 0x5b # t" "d \<le> maxd" "skip_whitespace t = 0x5d # r"
      "v = WArray []"
  | (array) t xs where "skip_whitespace bs0 = 0x5b # t" "d \<le> maxd"
      "parse_items fuel maxd d (skip_whitespace t) = Inr (xs, r)" "v = WArray xs"
  | (string) s where "parse_string (skip_whitespace bs0) = Inr (s, r)" "v = WString s"
  | (literal) cs where "expect_ascii cs (skip_whitespace bs0) = Inr r" "cs \<noteq> []"
      "v = WNull \<or> v = WBool True \<or> v = WBool False"
  | (number) "parse_number (skip_whitespace bs0) = Inr (v, r)"
proof (cases "skip_whitespace bs0")
  case Nil
  with assms show thesis by simp
next
  case (Cons b t)
  consider "b = 0x7b" | "b = 0x5b" | "b = 0x22" | "b \<in> {0x74, 0x66, 0x6e}"
    | "b \<notin> {0x7b, 0x5b, 0x22, 0x74, 0x66, 0x6e}" by blast
  then show thesis
  proof cases
    case 1
    with assms Cons empty_object object show thesis
      by (fastforce simp: Let_def ebind_eq_Inr peek_byte_Some split: if_splits)
  next
    case 2
    with assms Cons empty_array array show thesis
      by (fastforce simp: Let_def ebind_eq_Inr peek_byte_Some split: if_splits)
  next
    case 3
    with assms Cons string show thesis
      by (auto simp: Let_def ebind_eq_Inr)
  next
    case 4
    with assms Cons literal [of "[0x74, 0x72, 0x75, 0x65]"]
      literal [of "[0x66, 0x61, 0x6c, 0x73, 0x65]"] literal [of "[0x6e, 0x75, 0x6c, 0x6c]"]
    show thesis by (auto simp: Let_def ebind_eq_Inr simp del: expect_ascii.simps)
  next
    case 5
    with assms Cons number show thesis
      by (auto simp: Let_def split: if_splits)
  qed
qed

lemma parse_members_SucE:
  assumes "parse_members (Suc fuel) maxd d bs0 = Inr (ms, r)"
  obtains key r1 r2 v r3 where
    "parse_string (skip_whitespace bs0) = Inr (key, r1)" "skip_whitespace r1 = 0x3a # r2"
    "parse_value fuel maxd (d + 1) r2 = Inr (v, r3)"
    "(\<exists>r4 ms'. skip_whitespace r3 = 0x2c # r4 \<and> parse_members fuel maxd d r4 = Inr (ms', r) \<and>
        ms = (key, v) # ms') \<or> (skip_whitespace r3 = 0x7d # r \<and> ms = [(key, v)])"
  using assms
  by (fastforce simp: Let_def ebind_eq_Inr peek_byte_Some split: if_splits simp del: parse_value.simps)

lemma parse_items_SucE:
  assumes "parse_items (Suc fuel) maxd d bs0 = Inr (xs, r)"
  obtains v r3 where
    "parse_value fuel maxd (d + 1) bs0 = Inr (v, r3)"
    "(\<exists>r4 xs'. skip_whitespace r3 = 0x2c # r4 \<and> parse_items fuel maxd d r4 = Inr (xs', r) \<and>
        xs = v # xs') \<or> (skip_whitespace r3 = 0x5d # r \<and> xs = [v])"
  using assms
  by (fastforce simp: Let_def ebind_eq_Inr peek_byte_Some split: if_splits simp del: parse_value.simps)

lemma skip_whitespace_Cons_shorter: "skip_whitespace bs = b # r \<Longrightarrow> length r < length bs"
  using skip_whitespace_shorter [of bs] by simp

lemma parse_shorter:
  "parse_value fuel maxd d bs = Inr (v, r) \<Longrightarrow> length r < length bs"
  "parse_members fuel maxd d bs = Inr (ms, r) \<Longrightarrow> length r < length bs"
  "parse_items fuel maxd d bs = Inr (xs, r) \<Longrightarrow> length r < length bs"
proof (induction fuel arbitrary: d bs v ms xs r)
  case (Suc fuel)
  note ws = skip_whitespace_shorter skip_whitespace_Cons_shorter
  {
    case 1
    then show ?case
    proof (cases rule: parse_value_SucE)
      case (object t ms)
      with Suc.IH(2) [OF object(3)] ws [of bs] ws [of t] show ?thesis by simp
    next
      case (array t xs)
      with Suc.IH(3) [OF array(3)] ws [of bs] ws [of t] show ?thesis by simp
    next
      case (empty_object t)
      with ws(2) [of bs] ws(2) [of t] show ?thesis by force
    next
      case (empty_array t)
      with ws(2) [of bs] ws(2) [of t] show ?thesis by force
    next
      case (string s)
      with parse_string_shorter [OF string(1)] ws(1) [of bs] show ?thesis by simp
    next
      case (literal cs)
      with expect_ascii_shorter [OF literal(1)] ws(1) [of bs] show ?thesis by (cases cs) simp_all
    next
      case number
      with parse_number_shorter [OF number] ws(1) [of bs] show ?thesis by simp
    qed
  next
    case 2
    from 2 obtain key r1 r2 v r3 where p: "parse_string (skip_whitespace bs) = Inr (key, r1)"
      "skip_whitespace r1 = 0x3a # r2" "parse_value fuel maxd (d + 1) r2 = Inr (v, r3)"
      "(\<exists>r4 ms'. skip_whitespace r3 = 0x2c # r4 \<and> parse_members fuel maxd d r4 = Inr (ms', r) \<and>
          ms = (key, v) # ms') \<or> (skip_whitespace r3 = 0x7d # r \<and> ms = [(key, v)])"
      by (rule parse_members_SucE)
    have "length r < length r3"
      using p(4) Suc.IH(2) ws(2) by (metis order.strict_trans)
    with parse_string_shorter [OF p(1)] ws(1) [of bs] ws(2) [OF p(2)] Suc.IH(1) [OF p(3)]
    show ?case by simp
  next
    case 3
    from 3 obtain v r3 where p: "parse_value fuel maxd (d + 1) bs = Inr (v, r3)"
      "(\<exists>r4 xs'. skip_whitespace r3 = 0x2c # r4 \<and> parse_items fuel maxd d r4 = Inr (xs', r) \<and>
          xs = v # xs') \<or> (skip_whitespace r3 = 0x5d # r \<and> xs = [v])"
      by (rule parse_items_SucE)
    have "length r < length r3"
      using p(2) Suc.IH(3) ws(2) by (metis order.strict_trans)
    with Suc.IH(1) [OF p(1)] show ?case by simp
  }
qed simp_all

section \<open>The fuel is enough\<close>

lemma parse_enough_fuel:
  "2 * length bs + 1 \<le> fuel \<Longrightarrow> parse_value fuel maxd d bs \<noteq> Inl Out_of_fuel"
  "2 * length bs + 2 \<le> fuel \<Longrightarrow> parse_members fuel maxd d bs \<noteq> Inl Out_of_fuel"
  "2 * length bs + 2 \<le> fuel \<Longrightarrow> parse_items fuel maxd d bs \<noteq> Inl Out_of_fuel"
proof (induction fuel arbitrary: d bs)
  case (Suc fuel)
  {
    case 1
    show ?case
    proof (cases "skip_whitespace bs")
      case (Cons b t)
      have "2 * length (skip_whitespace t) + 2 \<le> fuel"
        using 1 skip_whitespace_Cons_shorter [OF Cons] skip_whitespace_shorter [of t] by simp
      with Suc.IH(2,3) Cons show ?thesis
        by (auto simp: Let_def ebind_eq_Inl simp del: expect_ascii.simps)
    qed simp
  next
    case 2
    show ?case
    proof
      assume out: "parse_members (Suc fuel) maxd d bs = Inl Out_of_fuel"
      then obtain key r1 where k: "parse_string (skip_whitespace bs) = Inr (key, r1)"
        and c: "peek_byte (skip_whitespace r1) = Some 0x3a"
        and rest: "parse_value fuel maxd (d + 1) (tl (skip_whitespace r1)) = Inl Out_of_fuel \<or>
          (\<exists>v r3. parse_value fuel maxd (d + 1) (tl (skip_whitespace r1)) = Inr (v, r3) \<and>
             peek_byte (skip_whitespace r3) = Some 0x2c \<and>
             parse_members fuel maxd d (tl (skip_whitespace r3)) = Inl Out_of_fuel)"
        by (fastforce simp: Let_def ebind_eq_Inl split: if_splits simp del: parse_value.simps)
      obtain r2 where r2: "skip_whitespace r1 = 0x3a # r2" using c by (auto simp: peek_byte_Some)
      have l2: "length r2 + 2 \<le> length bs"
        using parse_string_shorter [OF k] skip_whitespace_shorter [of bs]
          skip_whitespace_Cons_shorter [OF r2] by simp
      from rest show False
      proof (elim disjE exE conjE)
        assume "parse_value fuel maxd (d + 1) (tl (skip_whitespace r1)) = Inl Out_of_fuel"
        with Suc.IH(1) [of r2 "d + 1"] l2 2 r2 show False by simp
      next
        fix v r3
        assume a: "parse_value fuel maxd (d + 1) (tl (skip_whitespace r1)) = Inr (v, r3)"
          "peek_byte (skip_whitespace r3) = Some 0x2c"
          "parse_members fuel maxd d (tl (skip_whitespace r3)) = Inl Out_of_fuel"
        then obtain r4 where r4: "skip_whitespace r3 = 0x2c # r4" by (auto simp: peek_byte_Some)
        have "length r4 + 4 \<le> length bs"
          using parse_shorter(1) [OF a(1)] skip_whitespace_Cons_shorter [OF r4] l2 r2 by simp
        with Suc.IH(2) [of r4 d] 2 a(3) r4 show False by simp
      qed
    qed
  next
    case 3
    show ?case
    proof
      assume out: "parse_items (Suc fuel) maxd d bs = Inl Out_of_fuel"
      moreover have "parse_value fuel maxd (d + 1) bs \<noteq> Inl Out_of_fuel"
        using Suc.IH(1) 3 by simp
      ultimately obtain v r3 where a: "parse_value fuel maxd (d + 1) bs = Inr (v, r3)"
        "peek_byte (skip_whitespace r3) = Some 0x2c"
        "parse_items fuel maxd d (tl (skip_whitespace r3)) = Inl Out_of_fuel"
        by (fastforce simp: Let_def ebind_eq_Inl split: if_splits simp del: parse_value.simps)
      then obtain r4 where r4: "skip_whitespace r3 = 0x2c # r4" by (auto simp: peek_byte_Some)
      have "length r4 + 2 \<le> length bs"
        using parse_shorter(1) [OF a(1)] skip_whitespace_Cons_shorter [OF r4] by simp
      with Suc.IH(3) [of r4 d] 3 a(3) r4 show False by simp
    qed
  }
qed simp_all

lemma parse_wire_json_total: "parse_wire_json bs limits \<noteq> Inl Out_of_fuel"
proof -
  have "parse_value (2 * length bs + 1) (max_depth limits) 1 (skip_whitespace bs) \<noteq> Inl Out_of_fuel"
    using parse_enough_fuel(1) [of "skip_whitespace bs" "2 * length bs + 1"] skip_whitespace_shorter [of bs]
    by simp
  then show ?thesis
    by (auto simp: parse_wire_json_def parse_document_def Let_def ebind_eq_Inl simp del: parse_value.simps
        split: if_splits)
qed
section \<open>Parsed values can be written\<close>

lemma is_digit_iff: "js_digit (ucast (b::byte)) \<longleftrightarrow> is_digit b"
  by (simp add: is_digit_def js_digit_def word_le_nat_alt unat_ucast_byte)

lemma consume_digits_prefix:
  assumes "consume_digits bs = (r, b)"
  obtains p where "map ucast bs = p @ map ucast r" "\<forall>u \<in> set p. js_digit u" "b \<longleftrightarrow> p \<noteq> []"
proof
  let ?p = "map ucast (takeWhile is_digit bs) :: jsstr"
  have r: "r = dropWhile is_digit bs" and b: "b = (bs \<noteq> [] \<and> is_digit (hd bs))"
    using assms by (simp_all add: consume_digits_eq)
  show "map ucast bs = ?p @ map ucast r"
    by (simp add: r flip: map_append)
  show "\<forall>u \<in> set ?p. js_digit u"
    by (auto simp: is_digit_iff dest: set_takeWhileD)
  show "b \<longleftrightarrow> ?p \<noteq> []"
    by (cases bs) (auto simp: b)
qed

abbreviation no_digit :: "jsstr \<Rightarrow> bool" where
  "no_digit q \<equiv> q = [] \<or> \<not> js_digit (hd q)"

lemma lexeme_digits1_append:
  "p \<noteq> [] \<Longrightarrow> \<forall>u \<in> set p. js_digit u \<Longrightarrow> no_digit q \<Longrightarrow> lexeme_digits1 (p @ q) = Some q"
  using dropWhile_append_stop [of "tl p" js_digit q] by (cases p) (simp_all add: lexeme_digits1_def)

lemma number_integer_prefix:
  assumes "number_integer bs = Inr r"
  obtains p where "map ucast bs = p @ map ucast r"
    "\<And>q. no_digit q \<Longrightarrow> lexeme_integer (p @ q) = Some q" "p \<noteq> []" "hd p \<noteq> 0x2d"
proof (cases bs)
  case Nil
  with assms show thesis by (simp add: number_integer_def)
next
  case (Cons b t)
  show thesis
  proof (cases "b = 0x30")
    case True
    with assms Cons have "t = r" by (simp add: number_integer_def)
    with that [of "[0x30]"] Cons True show thesis by (simp add: lexeme_integer_def)
  next
    case False
    with assms Cons have b: "0x31 \<le> b" "b \<le> 0x39" and r: "consume_digits t = (r, snd (consume_digits t))"
      by (auto simp: number_integer_def prod_eq_iff split: if_splits)
    obtain p where p: "map ucast t = p @ map ucast r" "\<forall>u \<in> set p. js_digit u"
      "snd (consume_digits t) \<longleftrightarrow> p \<noteq> []" by (rule consume_digits_prefix [OF r])
    have u: "ucast b \<noteq> (0x30 :: jschar)" "0x31 \<le> (ucast b :: jschar)" "(ucast b :: jschar) \<le> 0x39"
      "ucast b \<noteq> (0x2d :: jschar)"
      using b by (auto simp: word_le_nat_alt word_unat_eq_iff unat_ucast_byte)
    show thesis
    proof (rule that)
      show "map ucast bs = (ucast b # p) @ map ucast r" using p(1) Cons by simp
      show "lexeme_integer ((ucast b # p) @ q) = Some q" if "no_digit q" for q
        using dropWhile_append_stop [OF p(2) that] u by (simp add: lexeme_integer_def)
    qed (use u in simp_all)
  qed
qed

lemma number_fraction_prefix:
  assumes "number_fraction bs = Inr r"
  obtains p where "map ucast bs = p @ map ucast r" "p = [] \<or> hd p = 0x2e"
    "\<And>q. q = [] \<or> hd q = 0x65 \<or> hd q = 0x45 \<Longrightarrow> lexeme_fraction (p @ q) = Some q"
proof (cases "\<exists>t. bs = 0x2e # t")
  case True
  then obtain t where t: "bs = 0x2e # t" by blast
  with assms have r: "consume_digits t = (r, True)"
    by (auto simp: number_fraction_def prod_eq_iff split: if_splits)
  obtain p where p': "map ucast t = p @ map ucast r"
    "\<forall>u \<in> set p. js_digit u" "True \<longleftrightarrow> p \<noteq> []" by (rule consume_digits_prefix [OF r])
  then have p: "map ucast t = p @ map ucast r" "\<forall>u \<in> set p. js_digit u" "p \<noteq> []" by simp_all
  have "no_digit q" if "q = [] \<or> hd q = 0x65 \<or> hd q = 0x45" for q
    using that by (auto simp: js_digit_def)
  with that [of "0x2e # p"] p t show thesis
    by (simp add: lexeme_fraction_def lexeme_digits1_append)
next
  case False
  with assms have "r = bs" by (auto simp: number_fraction_def split: list.splits if_splits)
  moreover have "lexeme_fraction q = Some q" if "q = [] \<or> hd q = 0x65 \<or> hd q = 0x45" for q
    using that by (cases q) (auto simp: lexeme_fraction_def)
  ultimately show thesis using that [of "[]"] by simp
qed

lemma number_exponent_prefix:
  assumes "number_exponent bs = Inr r"
  obtains p where "map ucast bs = p @ map ucast r" "p = [] \<or> hd p = 0x65 \<or> hd p = 0x45"
    "lexeme_exponent p = Some []"
proof (cases "\<exists>e t. bs = e # t \<and> (e = 0x65 \<or> e = 0x45)")
  case True
  then obtain e t where t: "bs = e # t" "e = 0x65 \<or> e = 0x45" by blast
  let ?t = "case t of [] \<Rightarrow> t | s # t' \<Rightarrow> if s = 0x2b \<or> s = 0x2d then t' else t"
  have "number_exponent bs = (if snd (consume_digits ?t) then Inr (fst (consume_digits ?t))
      else Inl Malformed_json)"
    using t(2) unfolding t(1) number_exponent_def by (simp only: list.case if_True Let_def)
  then have r: "consume_digits ?t = (r, True)"
    using assms by (cases "consume_digits ?t") (simp split: if_splits)
  obtain p where p': "map ucast ?t = p @ map ucast r"
    "\<forall>u \<in> set p. js_digit u" "True \<longleftrightarrow> p \<noteq> []" by (rule consume_digits_prefix [OF r])
  then have p: "map ucast ?t = p @ map ucast r" "\<forall>u \<in> set p. js_digit u" "p \<noteq> []"
    by (simp_all only: simp_thms)
  have d: "lexeme_digits1 p = Some []" using lexeme_digits1_append [of p "[]"] p by simp
  have nosign: "\<exists>u p'. p = u # p' \<and> u \<noteq> 0x2b \<and> u \<noteq> 0x2d"
    using p(2,3) by (cases p) (auto simp: js_digit_def)
  have e: "ucast e = (0x65 :: jschar) \<or> ucast e = (0x45 :: jschar)" using t(2) by auto
  show thesis
  proof (cases "\<exists>s t'. t = s # t' \<and> (s = 0x2b \<or> s = 0x2d)")
    case True
    then obtain s t' where s: "t = s # t'" "s = 0x2b \<or> s = 0x2d" by blast
    then have "ucast s = (0x2b :: jschar) \<or> ucast s = (0x2d :: jschar)" by auto
    with that [of "ucast e # ucast s # p"] p(1) t e s d show thesis
      by (auto simp: lexeme_exponent_def)
  next
    case False
    then have "?t = t" by (auto split: list.splits)
    with that [of "ucast e # p"] p(1) t e d nosign show thesis
      by (auto simp: lexeme_exponent_def)
  qed
next
  case False
  with assms have "r = bs" by (auto simp: number_exponent_def split: list.splits if_splits)
  with that [of "[]"] show thesis by (simp add: lexeme_exponent_def)
qed

lemma parse_number_valid:
  assumes "parse_number bs = Inr (v, r)"
  obtains s where "v = WNumber s" and "valid_lexeme s"
proof -
  let ?r0 = "case bs of [] \<Rightarrow> bs | b # t \<Rightarrow> if b = 0x2d then t else bs"
  obtain r1 r2 where 1: "number_integer ?r0 = Inr r1" and 2: "number_fraction r1 = Inr r2"
    and 3: "number_exponent r2 = Inr r" and v: "v = WNumber (ascii_slice bs r)"
    using assms by (auto simp: parse_number_def Let_def ebind_eq_Inr)
  obtain pi where pi: "map ucast ?r0 = pi @ map ucast r1"
    "\<And>q. no_digit q \<Longrightarrow> lexeme_integer (pi @ q) = Some q" "pi \<noteq> []" "hd pi \<noteq> 0x2d"
    using number_integer_prefix [OF 1] by blast
  obtain pf where pf: "map ucast r1 = pf @ map ucast r2" "pf = [] \<or> hd pf = 0x2e"
    "\<And>q. q = [] \<or> hd q = 0x65 \<or> hd q = 0x45 \<Longrightarrow> lexeme_fraction (pf @ q) = Some q"
    using number_fraction_prefix [OF 2] by blast
  obtain pe where pe: "map ucast r2 = pe @ map ucast r" "pe = [] \<or> hd pe = 0x65 \<or> hd pe = 0x45"
    "lexeme_exponent pe = Some []"
    using number_exponent_prefix [OF 3] by blast
  let ?p = "pi @ pf @ pe"
  have p0: "map ucast ?r0 = ?p @ map ucast r" using pi(1) pf(1) pe(1) by simp
  have nd: "no_digit (pf @ pe)"
    using pf(2) pe(2) by (cases pf) (auto simp: js_digit_def)
  define s where "s = (if \<exists>t. bs = 0x2d # t then 0x2d # ?p else ?p)"
  have whole: "map ucast bs = s @ map ucast r"
    using p0 by (cases bs) (auto simp: s_def split: if_splits)
  have "ascii_slice bs r = take (length bs - length r) (map ucast bs)"
    by (simp add: ascii_slice_def take_map)
  also have "\<dots> = s"
    unfolding whole using arg_cong [OF whole, of length] by simp
  finally have slice: "ascii_slice bs r = s" .
  have "(case s of [] \<Rightarrow> s | u # t \<Rightarrow> if u = 0x2d then t else s) = ?p"
    using pi(3,4) by (cases pi) (auto simp: s_def)
  then have "valid_lexeme s"
    using pi(2) [OF nd] pf(3) [OF pe(2)] pe(3) by (simp add: valid_lexeme_def Let_def)
  with that v slice show thesis by blast
qed

lemma parse_result_ok:
  "parse_value fuel maxd d bs = Inr (v, r) \<Longrightarrow> d \<le> maxd + 1 \<Longrightarrow>
     lexemes_ok v \<and> d + nesting v \<le> maxd + 1"
  "parse_members fuel maxd d bs = Inr (ms, r) \<Longrightarrow> d \<le> maxd \<Longrightarrow>
     \<forall>m \<in> set ms. lexemes_ok (snd m) \<and> d + nesting (snd m) \<le> maxd"
  "parse_items fuel maxd d bs = Inr (xs, r) \<Longrightarrow> d \<le> maxd \<Longrightarrow>
     \<forall>x \<in> set xs. lexemes_ok x \<and> d + nesting x \<le> maxd"
proof (induction fuel arbitrary: d bs v ms xs r)
  case (Suc fuel)
  have bound: "d + foldr (\<lambda>x. max (f x)) ys 0 \<le> maxd"
    if "d \<le> maxd" "\<forall>y \<in> set ys. d + f y \<le> maxd" for d ys and f :: "'z \<Rightarrow> nat"
    using that less_foldr_max [of maxd d f ys] by force
  {
    case 1
    then show ?case
    proof (cases rule: parse_value_SucE)
      case (object t ms)
      with Suc.IH(2) [OF object(3)] bound [of d ms "nesting \<circ> snd"] show ?thesis by simp
    next
      case (array t xs)
      with Suc.IH(3) [OF array(3)] bound [of d xs nesting] show ?thesis by simp
    next
      case number
      with parse_number_valid 1 show ?thesis by fastforce
    qed (use 1 in auto)
  next
    case 2
    from 2(1) show ?case
    proof (cases rule: parse_members_SucE)
      case (1 key r1 r2 v r3)
      from 1(4) show ?thesis
        using Suc.IH(1) [OF 1(3)] Suc.IH(2) 2(2) by fastforce
    qed
  next
    case 3
    from 3(1) show ?case
    proof (cases rule: parse_items_SucE)
      case (1 v r3)
      from 1(2) show ?thesis
        using Suc.IH(1) [OF 1(1)] Suc.IH(3) 3(2) by fastforce
    qed
  }
qed simp_all

lemma parse_wire_json_ok:
  assumes "parse_wire_json bs limits = Inr v"
  shows "lexemes_ok v" and "nesting v \<le> max_depth limits" and "length bs \<le> max_bytes limits"
proof -
  show "length bs \<le> max_bytes limits" using assms by (simp add: parse_wire_json_def split: if_splits)
  obtain r where "parse_value (2 * length bs + 1) (max_depth limits) 1 (skip_whitespace bs) = Inr (v, r)"
    using assms by (auto simp: parse_wire_json_def parse_document_def Let_def ebind_eq_Inr
        simp del: parse_value.simps split: if_splits)
  from parse_result_ok(1) [OF this] show "lexemes_ok v" and "nesting v \<le> max_depth limits" by simp_all
qed

section \<open>The writer refuses bad lexemes, and nothing else\<close>

lemma write_value_errors:
  "write_value v w = Inl e \<Longrightarrow> e = Serialization_failure"
  "write_items first xs w = Inl e \<Longrightarrow> e = Serialization_failure"
  "write_members first ms w = Inl e \<Longrightarrow> e = Serialization_failure"
  by (induction v w and first xs w and first ms w rule: write_value_write_items_write_members.induct)
    (auto simp: ebind_eq_Inl write_number_lexeme_def split: if_splits)

lemma write_value_refuses:
  "\<not> lexemes_ok v \<Longrightarrow> write_value v w = Inl Serialization_failure"
  "\<not> (\<forall>x \<in> set xs. lexemes_ok x) \<Longrightarrow> write_items first xs w = Inl Serialization_failure"
  "\<not> (\<forall>m \<in> set ms. lexemes_ok (snd m)) \<Longrightarrow> write_members first ms w = Inl Serialization_failure"
proof (induction v w and first xs w and first ms w rule: write_value_write_items_write_members.induct)
  case (4 lexeme w)
  then show ?case by (simp add: write_number_lexeme_def)
next
  case (8 first x xs w)
  let ?w = "if first then w else write_byte 0x2c w"
  show ?case
  proof (cases "lexemes_ok x")
    case True
    with 8(2) 8(3) show ?thesis
      by (cases "write_value x ?w") (use write_value_errors in auto)
  qed (use 8(1) in simp)
next
  case (10 first key v ms w)
  let ?w = "write_byte 0x3a (write_json_string key (if first then w else write_byte 0x2c w))"
  show ?case
  proof (cases "lexemes_ok v")
    case True
    with 10(2) 10(3) show ?thesis
      by (cases "write_value v ?w") (use write_value_errors in auto)
  qed (use 10(1) in simp)
qed simp_all

end
