(* ===== verification/Canonical_Json.thy ===== *)
theory Canonical_Json
  imports Wire_Json_Safety "HOL-Library.Multiset"
begin

text \<open>
  The model of \<open>src/src/serialization/canonical_json.ts\<close>: members sorted by the code points of
  their keys, ties kept in order, recursively. \<open>Array.prototype.sort\<close> is a stable sort by the
  comparator, written as an insertion sort.
\<close>

section \<open>The comparator and the sort\<close>

text \<open>
  \<open>compareUnicodeCodePoints\<close>: the loop over the common length, then the difference of the lengths
  (of the parts still to be read, which is the same number).
\<close>

fun compare_codes :: "nat list \<Rightarrow> nat list \<Rightarrow> int" where
  "compare_codes (l # ls) (r # rs) =
     (if l \<noteq> r then (if l < r then -1 else 1) else compare_codes ls rs)"
| "compare_codes ls rs = int (length ls) - int (length rs)"

definition compare_unicode_code_points :: "jsstr \<Rightarrow> jsstr \<Rightarrow> int" where
  "compare_unicode_code_points left right = compare_codes (code_points left) (code_points right)"

definition compare_ranked ::
  "(jsstr \<times> wire_json) \<times> nat \<Rightarrow> (jsstr \<times> wire_json) \<times> nat \<Rightarrow> int" where
  "compare_ranked left right =
     (let compared = compare_unicode_code_points (fst (fst left)) (fst (fst right))
      in if compared = 0 then int (snd left) - int (snd right) else compared)"

fun js_insert :: "('a \<Rightarrow> 'a \<Rightarrow> int) \<Rightarrow> 'a \<Rightarrow> 'a list \<Rightarrow> 'a list" where
  "js_insert cmp x [] = [x]"
| "js_insert cmp x (y # ys) = (if cmp x y \<le> 0 then x # y # ys else y # js_insert cmp x ys)"

definition js_sort :: "('a \<Rightarrow> 'a \<Rightarrow> int) \<Rightarrow> 'a list \<Rightarrow> 'a list" where
  "js_sort cmp xs = foldr (js_insert cmp) xs []"

definition sorted_members :: "(jsstr \<times> wire_json) list \<Rightarrow> (jsstr \<times> wire_json) list" where
  "sorted_members ms = map fst (js_sort compare_ranked (zip ms [0..<length ms]))"

lemma compare_codes_sign:
  "compare_codes ls rs < 0 \<longleftrightarrow> ls < rs"
  "compare_codes ls rs = 0 \<longleftrightarrow> ls = rs"
  by (induction ls rs rule: list_induct2') auto

lemma compare_codes_le: "compare_codes ls rs \<le> 0 \<longleftrightarrow> ls \<le> rs"
  using compare_codes_sign [of ls rs] by (auto simp: order_le_less)

abbreviation key_codes :: "jsstr \<times> wire_json \<Rightarrow> nat list" where
  "key_codes m \<equiv> code_points (fst m)"

lemma compare_ranked_le:
  "i < j \<Longrightarrow> compare_ranked (m, i) (m', j) \<le> 0 \<longleftrightarrow> key_codes m \<le> key_codes m'"
  using compare_codes_le [of "key_codes m" "key_codes m'"] compare_codes_sign [of "key_codes m" "key_codes m'"]
  by (auto simp: compare_ranked_def compare_unicode_code_points_def Let_def)

lemma js_insert_ranked:
  "\<forall>y \<in> set ys. i < snd y \<Longrightarrow>
   map fst (js_insert compare_ranked (m, i) ys) = insort_key key_codes m (map fst ys)"
  by (induction ys) (auto simp: compare_ranked_le)

lemma set_js_insert: "set (js_insert cmp x ys) = insert x (set ys)"
  by (induction ys) auto

lemma set_js_sort: "set (js_sort cmp xs) = set xs"
  by (induction xs) (auto simp: js_sort_def set_js_insert)

lemma js_sort_ranked:
  "map fst (js_sort compare_ranked (zip ms [n..<n + length ms])) = sort_key key_codes ms"
proof (induction ms arbitrary: n)
  case (Cons m ms)
  have "[n..<n + length (m # ms)] = n # [Suc n..<Suc n + length ms]"
    by (simp add: upt_rec)
  moreover have "\<forall>y \<in> set (js_sort compare_ranked (zip ms [Suc n..<Suc n + length ms])). n < snd y"
    by (auto simp: set_js_sort simp del: upt_Suc dest!: set_zip_rightD)
  ultimately show ?case
    using js_insert_ranked [of _ n m] Cons.IH [of "Suc n"] by (simp add: js_sort_def del: upt_Suc)
qed (simp add: js_sort_def)

lemma sorted_members_eq: "sorted_members ms = sort_key key_codes ms"
  using js_sort_ranked [of ms 0] by (simp add: sorted_members_def)

lemma set_sorted_members [simp]: "set (sorted_members ms) = set ms"
  by (simp add: sorted_members_eq)

section \<open>Canonical values\<close>

function canonicalize_value :: "wire_json \<Rightarrow> wire_json" where
  "canonicalize_value (WArray xs) = WArray (map canonicalize_value xs)"
| "canonicalize_value (WObject ms) =
     WObject (map (\<lambda>m. (fst m, canonicalize_value (snd m))) (sorted_members ms))"
| "canonicalize_value WNull = WNull"
| "canonicalize_value (WBool b) = WBool b"
| "canonicalize_value (WString s) = WString s"
| "canonicalize_value (WNumber s) = WNumber s"
  by pat_completeness auto

lemma size_member: "m \<in> set ms \<Longrightarrow> size (snd m) < size (WObject ms)"
proof (induction ms)
  case (Cons n ms)
  then show ?case by (cases n) auto
qed simp

termination canonicalize_value
  by (relation "measure size") (auto simp: less_Suc_eq_le size_list_estimation' intro: size_member [simplified])

definition canonicalize_wire_json :: "wire_json \<Rightarrow> wire_error + bytes" where
  "canonicalize_wire_json v = serialize_wire_json (canonicalize_value v)"

lemma sort_key_map_same: "(\<And>m. m \<in> set ms \<Longrightarrow> f (g m) = f m) \<Longrightarrow>
    sort_key f (map g ms) = map g (sort_key f ms)"
proof (induction ms)
  case (Cons m ms)
  have "insort_key f (g m) (map g xs) = map g (insort_key f m xs)"
    if "\<forall>x \<in> set xs. f (g x) = f x" for xs
    using that Cons.prems by (induction xs) auto
  with Cons show ?case by simp
qed simp

lemma sorted_members_canonical:
  "sorted_members (map (\<lambda>m. (fst m, canonicalize_value (snd m))) ms) =
   map (\<lambda>m. (fst m, canonicalize_value (snd m))) (sorted_members ms)"
  unfolding sorted_members_eq by (rule sort_key_map_same) simp

lemma sort_key_sorted: "sorted (map f xs) \<Longrightarrow> sort_key f xs = xs"
  by (induction xs) (simp_all add: insort_is_Cons)

lemma sorted_members_idem: "sorted_members (sorted_members ms) = sorted_members ms"
  unfolding sorted_members_eq by (simp add: sort_key_sorted)

lemma canonicalize_idem: "canonicalize_value (canonicalize_value v) = canonicalize_value v"
proof (induction v rule: canonicalize_value.induct)
  case (2 ms)
  then show ?case
    by (simp add: sorted_members_canonical sorted_members_idem)
qed simp_all

fun keys_sorted :: "wire_json \<Rightarrow> bool" where
  "keys_sorted (WArray xs) = (\<forall>x \<in> set xs. keys_sorted x)"
| "keys_sorted (WObject ms) = (sorted (map key_codes ms) \<and> (\<forall>m \<in> set ms. keys_sorted (snd m)))"
| "keys_sorted _ = True"

lemma canonicalize_sorted: "keys_sorted (canonicalize_value v)"
proof (induction v rule: canonicalize_value.induct)
  case (2 ms)
  then show ?case by (auto simp: sorted_members_eq comp_def)
qed auto

lemma keys_sorted_fixed: "keys_sorted v \<Longrightarrow> canonicalize_value v = v"
proof (induction v rule: canonicalize_value.induct)
  case (1 xs)
  then show ?case by (simp add: map_idI)
next
  case (2 ms)
  then have "sorted_members ms = ms" by (simp add: sorted_members_eq sort_key_sorted)
  with 2 show ?case by (auto intro!: map_idI)
qed simp_all

lemma canonicalize_lexemes: "lexemes_ok (canonicalize_value v) \<longleftrightarrow> lexemes_ok v"
proof (induction v rule: canonicalize_value.induct)
  case (2 ms)
  then show ?case by auto
qed auto

lemma foldr_max_mset:
  "set xs = set ys \<Longrightarrow> foldr (\<lambda>x n. max (f x) n) xs (0::nat) = foldr (\<lambda>x n. max (f x) n) ys 0"
proof -
  assume "set xs = set ys"
  then have "a < foldr (\<lambda>x n. max (f x) n) xs 0 \<longleftrightarrow> a < foldr (\<lambda>x n. max (f x) n) ys 0" for a
    using less_foldr_max [of a 0 f xs] less_foldr_max [of a 0 f ys] by simp
  then show ?thesis by (metis less_irrefl linorder_neqE_nat)
qed

lemma canonicalize_nesting: "nesting (canonicalize_value v) = nesting v"
proof (induction v rule: canonicalize_value.induct)
  case (1 xs)
  have "foldr (\<lambda>x n. max (nesting (canonicalize_value x)) n) xs 0 = foldr (\<lambda>x n. max (nesting x) n) xs 0"
    by (rule foldr_cong) (simp_all add: 1)
  then show ?case by (simp add: foldr_map comp_def)
next
  case (2 ms)
  have "foldr (\<lambda>m n. max (nesting (canonicalize_value (snd m))) n) (sorted_members ms) 0
      = foldr (\<lambda>m n. max (nesting (snd m)) n) (sorted_members ms) 0"
    by (rule foldr_cong) (simp_all add: 2)
  also have "\<dots> = foldr (\<lambda>m n. max (nesting (snd m)) n) ms 0"
    by (rule foldr_max_mset) simp
  finally show ?case by (simp add: foldr_map comp_def)
qed simp_all

text \<open>
  Two values say the same thing when they differ in the order of members only, the keys of each
  object being distinct.
\<close>

inductive same_json :: "wire_json \<Rightarrow> wire_json \<Rightarrow> bool" where
  same_refl: "same_json v v"
| same_array: "list_all2 same_json xs ys \<Longrightarrow> same_json (WArray xs) (WArray ys)"
| same_object: "distinct (map fst ms) \<Longrightarrow> mset ms = mset ms' \<Longrightarrow>
    list_all2 (\<lambda>m n. fst m = fst n \<and> same_json (snd m) (snd n)) ms' ns \<Longrightarrow>
    same_json (WObject ms) (WObject ns)"
monos list_all2_mono

lemma sorted_members_unique:
  assumes "distinct (map fst ms)" and "mset ms = mset ms'"
  shows "sorted_members ms = sorted_members ms'"
proof -
  have "inj_on key_codes (set ms)"
    using assms(1) by (auto simp: inj_on_def code_points_inj distinct_map)
  then show ?thesis
    unfolding sorted_members_eq using assms(2)
    by (intro sort_key_inj_key_eq) auto
qed

lemma same_json_canonical: "same_json v w \<Longrightarrow> canonicalize_value v = canonicalize_value w"
proof (induction rule: same_json.induct)
  case (same_array xs ys)
  then show ?case by (simp add: list_all2_conv_all_nth list_eq_iff_nth_eq)
next
  case (same_object ms ms' ns)
  let ?c = "\<lambda>m. (fst m, canonicalize_value (snd m))"
  have "map ?c ms' = map ?c ns"
    using same_object(3) by (auto simp: list_all2_conv_all_nth list_eq_iff_nth_eq)
  moreover have "sorted_members ms = sorted_members ms'"
    using same_object(1,2) by (rule sorted_members_unique)
  ultimately show ?case
    by (simp flip: sorted_members_canonical)
qed simp

section \<open>Properties\<close>

text \<open>C5: round trip. Every value whose number lexemes are JSON numbers can be written, and reading what
  was written gives the value back, member order, duplicate keys and lexemes included, unless it is
  longer or nested deeper than the limits allow, and then exactly that is reported.\<close>

theorem wire_json_roundtrip:
  assumes "lexemes_ok v"
  shows "\<exists>bs. serialize_wire_json v = Inr bs \<and>
    parse_wire_json bs limits =
      (if max_bytes limits < length bs then Inl (Stopped Byte_limit)
       else if max_depth limits < nesting v then Inl (Stopped Depth_limit)
       else Inr v)"
  using serialize_text [OF assms] parse_json_text [OF assms] by blast

definition sample_json :: wire_json where
  "sample_json = WObject [(js ''a'', WArray [WNumber (js ''-1.50e2''), WNull]), (js ''a'', WString [0xD83D, 0x22])]"

lemma sample_json_ok: "lexemes_ok sample_json" "nesting sample_json = 2"
  by (simp_all add: sample_json_def js_def valid_lexeme_def lexeme_integer_def lexeme_digits1_def
      lexeme_fraction_def lexeme_exponent_def js_digit_def)

lemma wire_json_roundtrip_witness:
  "\<exists>bs. serialize_wire_json sample_json = Inr bs \<and>
     parse_wire_json bs \<lparr>max_bytes = 1000, max_depth = 1\<rparr> =
       (if 1000 < length bs then Inl (Stopped Byte_limit) else Inl (Stopped Depth_limit))"
  using wire_json_roundtrip [OF sample_json_ok(1), of "\<lparr>max_bytes = 1000, max_depth = 1\<rparr>"]
  by (simp add: sample_json_ok(2) cong: if_cong)



text \<open>C21: the parser always answers: the fuel of the model, twice the input and one more, is never used
  up, so on every input the parser returns a value or one of its errors.\<close>

theorem wire_json_parse_total: "\<exists>r. parse_wire_json bs limits = r \<and> r \<noteq> Inl Out_of_fuel"
  using parse_wire_json_total by blast

text \<open>C23: the writer fails on a bad number lexeme and on nothing else, always with
  \<open>serialization_failure\<close>.\<close>

theorem serialize_fails_iff:
  "serialize_wire_json v = Inl e \<longleftrightarrow> e = Serialization_failure \<and> \<not> lexemes_ok v"
proof (cases "lexemes_ok v")
  case True
  then show ?thesis by (simp add: serialize_text)
next
  case False
  then show ?thesis by (auto simp: serialize_wire_json_def write_value_refuses(1))
qed


text \<open>C20: canonical bytes identify values: values that differ in the order of members with distinct
  keys have the same canonical bytes, and two values have the same canonical bytes only if their
  canonical values are equal.\<close>

theorem canonical_bytes_identify:
  assumes "lexemes_ok v" and "lexemes_ok w"
  shows "(canonicalize_wire_json v = canonicalize_wire_json w \<longleftrightarrow>
      canonicalize_value v = canonicalize_value w) \<and>
    (same_json v w \<longrightarrow> canonicalize_wire_json v = canonicalize_wire_json w)"
proof -
  let ?v = "canonicalize_value v" and ?w = "canonicalize_value w"
  have ok: "lexemes_ok ?v" "lexemes_ok ?w" using assms by (simp_all add: canonicalize_lexemes)
  have "?v = ?w" if eq: "json_text ?v = json_text ?w"
  proof -
    let ?l = "\<lparr>max_bytes = length (json_text ?v), max_depth = max (nesting ?v) (nesting ?w)\<rparr>"
    have "parse_wire_json (json_text ?v) ?l = Inr ?v" by (simp add: parse_json_text [OF ok(1)])
    moreover have "parse_wire_json (json_text ?w) ?l = Inr ?w"
      by (simp add: parse_json_text [OF ok(2)] eq)
    ultimately have "(Inr ?v :: parse_stop + wire_json) = Inr ?w" by (simp only: eq)
    then show ?thesis by (simp only: sum.inject)
  qed
  moreover have "canonicalize_wire_json v = canonicalize_wire_json w \<longleftrightarrow> json_text ?v = json_text ?w"
    by (simp add: canonicalize_wire_json_def serialize_text ok)
  ultimately show ?thesis using same_json_canonical by metis
qed

lemma canonical_bytes_identify_witness:
  "canonicalize_wire_json (WObject [(js ''b'', WNull), (js ''a'', WBool True)]) =
   canonicalize_wire_json (WObject [(js ''a'', WBool True), (js ''b'', WNull)])"
proof -
  let ?v = "WObject [(js ''b'', WNull), (js ''a'', WBool True)]"
  let ?w = "WObject [(js ''a'', WBool True), (js ''b'', WNull)]"
  have "lexemes_ok ?v" "lexemes_ok ?w" by simp_all
  moreover have "same_json ?v ?w"
    by (rule same_object [where ms' = "[(js ''a'', WBool True), (js ''b'', WNull)]"])
      (simp_all add: js_def same_refl)
  ultimately show ?thesis using canonical_bytes_identify by blast
qed

end
