(* ===== verification/Sse_Records.thy ===== *)
theory Sse_Records
  imports Gateway_Prelude
begin

text \<open>
  The model of \<open>src/src/protocols/conversion/sse.ts\<close>: the decoder of server-sent events. Its input
  is the list of byte chunks the upstream sends, its output the records it yields and how it ends.
  The \<open>TextDecoder\<close> is modelled as the UTF-8 decoder of its standard (fatal, streaming, dropping a
  byte order mark at the start), so a text is a list of Unicode scalar values; the code compares
  characters with ASCII ones only, so its string indices and these positions agree.
  \<open>measureEvent\<close> only times its argument and is left out.
\<close>

type_synonym uni_text = "nat list"

section \<open>The UTF-8 decoder\<close>

text \<open>A lead byte: how many bytes follow, the range of the first of them, and the bits it carries.\<close>

definition utf8_lead :: "byte \<Rightarrow> (nat \<times> byte \<times> byte \<times> nat) option" where
  "utf8_lead b =
     (if b < 0x80 then Some (0, 0, 0, unat b)
      else if b < 0xc2 then None
      else if b < 0xe0 then Some (1, 0x80, 0xbf, unat b mod 32)
      else if b = 0xe0 then Some (2, 0xa0, 0xbf, 0)
      else if b = 0xed then Some (2, 0x80, 0x9f, 13)
      else if b < 0xf0 then Some (2, 0x80, 0xbf, unat b mod 16)
      else if b = 0xf0 then Some (3, 0x90, 0xbf, 0)
      else if b < 0xf4 then Some (3, 0x80, 0xbf, unat b mod 8)
      else if b = 0xf4 then Some (3, 0x80, 0x8f, 4)
      else None)"

datatype utf8_result = Whole nat bytes | Partial | Invalid

fun utf8_rest :: "nat \<Rightarrow> byte \<Rightarrow> byte \<Rightarrow> nat \<Rightarrow> bytes \<Rightarrow> utf8_result" where
  "utf8_rest 0 lo hi cp bs = Whole cp bs"
| "utf8_rest (Suc k) lo hi cp [] = Partial"
| "utf8_rest (Suc k) lo hi cp (b # bs) =
     (if lo \<le> b \<and> b \<le> hi then utf8_rest k 0x80 0xbf (cp * 64 + unat b mod 64) bs else Invalid)"

fun utf8_scan :: "bytes \<Rightarrow> utf8_result" where
  "utf8_scan [] = Partial"
| "utf8_scan (b # bs) =
     (case utf8_lead b of None \<Rightarrow> Invalid | Some (k, lo, hi, cp) \<Rightarrow> utf8_rest k lo hi cp bs)"

lemma utf8_rest_shorter: "utf8_rest k lo hi cp bs = Whole c r \<Longrightarrow> length r \<le> length bs"
  by (induction k lo hi cp bs rule: utf8_rest.induct) (auto split: if_splits)

lemma utf8_scan_shorter: "utf8_scan bs = Whole c r \<Longrightarrow> length r < length bs"
  by (cases bs) (auto split: option.splits dest: utf8_rest_shorter)

text \<open>The text of the complete sequences and the bytes of an incomplete one, or \<open>None\<close> for the
  \<open>TypeError\<close> of a fatal decoder.\<close>

function utf8_decode :: "bytes \<Rightarrow> (uni_text \<times> bytes) option" where
  "utf8_decode bs =
     (case utf8_scan bs of
        Partial \<Rightarrow> Some ([], bs)
      | Invalid \<Rightarrow> None
      | Whole c r \<Rightarrow> map_option (\<lambda>(t, p). (c # t, p)) (utf8_decode r))"
  by pat_completeness auto
termination by (relation "measure length") (auto dest: utf8_scan_shorter)

declare utf8_decode.simps [simp del]

record text_decoder =
  pending_bytes :: bytes
  bom_seen :: bool

definition new_decoder :: text_decoder where
  "new_decoder = \<lparr>pending_bytes = [], bom_seen = False\<rparr>"

text \<open>\<open>decoder.decode(chunk, { stream: true })\<close>; the mark is dropped if it comes first.\<close>

definition drop_bom :: "bool \<Rightarrow> uni_text \<Rightarrow> uni_text" where
  "drop_bom seen t = (if \<not> seen \<and> t \<noteq> [] \<and> hd t = 0xFEFF then tl t else t)"

definition decode_chunk :: "bytes \<Rightarrow> text_decoder \<Rightarrow> (uni_text \<times> text_decoder) option" where
  "decode_chunk chunk d =
     (case utf8_decode (pending_bytes d @ chunk) of
        None \<Rightarrow> None
      | Some (t, p) \<Rightarrow>
          Some (drop_bom (bom_seen d) t, \<lparr>pending_bytes = p, bom_seen = bom_seen d \<or> t \<noteq> []\<rparr>))"

text \<open>The last \<open>decoder.decode()\<close>: an incomplete sequence is an error.\<close>

definition decode_flush :: "text_decoder \<Rightarrow> uni_text option" where
  "decode_flush d = (if pending_bytes d = [] then Some [] else None)"

section \<open>Lines and records\<close>

record fragments =
  joined_chunks :: "uni_text list"
  loose :: "uni_text list"

definition no_fragments :: fragments where
  "no_fragments = \<lparr>joined_chunks = [], loose = []\<rparr>"

definition append_fragment :: "uni_text \<Rightarrow> fragments \<Rightarrow> fragments" where
  "append_fragment v f =
     (if v = [] then f
      else let f' = f\<lparr>loose := loose f @ [v]\<rparr>
      in if length (loose f') \<ge> 1024
         then f'\<lparr>joined_chunks := joined_chunks f' @ [concat (loose f')], loose := []\<rparr>
         else f')"

definition peek_fragments :: "fragments \<Rightarrow> uni_text" where
  "peek_fragments f = concat (joined_chunks f @ loose f)"

definition take_fragments :: "fragments \<Rightarrow> uni_text \<times> fragments" where
  "take_fragments f = (peek_fragments f, no_fragments)"

record sse_record =
  event_name :: "uni_text option"
  sse_data :: uni_text

abbreviation ascii_text :: "string \<Rightarrow> uni_text" where
  "ascii_text s \<equiv> map of_char s"

abbreviation LF :: nat where "LF \<equiv> 10"

abbreviation CR :: nat where "CR \<equiv> 13"

abbreviation colon :: nat where "colon \<equiv> 58"

definition strip_space :: "uni_text \<Rightarrow> uni_text" where
  "strip_space v = (case v of c # cs \<Rightarrow> if c = 32 then cs else v | [] \<Rightarrow> [])"

definition field_of :: "uni_text \<Rightarrow> uni_text \<times> uni_text" where
  "field_of l =
     (if colon \<notin> set l then (l, [])
      else (takeWhile (\<lambda>c. c \<noteq> colon) l, strip_space (tl (dropWhile (\<lambda>c. c \<noteq> colon) l))))"

fun join_lines :: "uni_text list \<Rightarrow> uni_text" where
  "join_lines [] = []"
| "join_lines [l] = l"
| "join_lines (l # ls) = l @ LF # join_lines ls"

fun read_fields :: "uni_text list \<Rightarrow> uni_text option \<Rightarrow> uni_text list \<Rightarrow> uni_text option \<times> uni_text list" where
  "read_fields [] name ds = (name, ds)"
| "read_fields (l # ls) name ds =
     (if l = [] \<or> hd l = colon then read_fields ls name ds
      else let (field, v) = field_of l
      in if field = ascii_text ''event'' then read_fields ls (Some v) ds
         else if field = ascii_text ''data'' then read_fields ls name (ds @ [v])
         else read_fields ls name ds)"

definition parse_record_lines :: "uni_text list \<Rightarrow> sse_record option" where
  "parse_record_lines ls =
     (let (name, ds) = read_fields ls None []
      in if ds = [] then None else Some \<lparr>event_name = name, sse_data = join_lines ds\<rparr>)"

section \<open>The decoder's state\<close>

record sse_state =
  sse_line :: fragments
  record_lines :: "uni_text list"
  record_bytes :: nat
  pending_cr :: bool
  ready_records :: "sse_record list"

definition new_sse :: sse_state where
  "new_sse = \<lparr>sse_line = no_fragments, record_lines = [], record_bytes = 0, pending_cr = False,
     ready_records = []\<rparr>"

datatype sse_error = Event_too_large | Invalid_utf8_sse | Stream_truncated

definition text_bytes :: "uni_text \<Rightarrow> nat" where
  "text_bytes v = sum_list (map utf8_width v)"

definition reserve :: "nat \<Rightarrow> uni_text \<Rightarrow> sse_state \<Rightarrow> sse_error + sse_state" where
  "reserve limit v s =
     (let s' = s\<lparr>record_bytes := record_bytes s + text_bytes v\<rparr>
      in if record_bytes s' > limit then Inl Event_too_large else Inr s')"

definition finish_line :: "sse_state \<Rightarrow> sse_state" where
  "finish_line s =
     (let (v, l) = take_fragments (sse_line s); s' = s\<lparr>sse_line := l\<rparr>
      in if v \<noteq> [] then s'\<lparr>record_lines := record_lines s' @ [v]\<rparr>
         else let parsed = parse_record_lines (record_lines s');
                  s'' = s'\<lparr>record_lines := [], record_bytes := 0\<rparr>
              in case parsed of
                   Some r \<Rightarrow> s''\<lparr>ready_records := ready_records s'' @ [r]\<rparr>
                 | None \<Rightarrow> s'')"

definition add_text :: "nat \<Rightarrow> uni_text \<Rightarrow> sse_state \<Rightarrow> sse_error + sse_state" where
  "add_text limit v s = reserve limit v (s\<lparr>sse_line := append_fragment v (sse_line s)\<rparr>)"

definition end_line :: "nat \<Rightarrow> uni_text \<Rightarrow> sse_state \<Rightarrow> sse_error + sse_state" where
  "end_line limit terminator s = ebind (reserve limit terminator s) (\<lambda>s. Inr (finish_line s))"

definition is_newline :: "nat \<Rightarrow> bool" where
  "is_newline c \<longleftrightarrow> c = LF \<or> c = CR"

text \<open>The loop of \<open>consume\<close> and the trailing text, on the part of the value still to be read.\<close>

lemma dropWhile_shorter: "dropWhile p v = c # r \<Longrightarrow> length r < length v"
  by (metis Suc_le_eq length_Cons length_dropWhile_le)

function consume_loop :: "nat \<Rightarrow> uni_text \<Rightarrow> sse_state \<Rightarrow> sse_error + sse_state" where
  "consume_loop limit v s =
     ebind (add_text limit (takeWhile (\<lambda>c. \<not> is_newline c) v) s) (\<lambda>s.
       case dropWhile (\<lambda>c. \<not> is_newline c) v of
         [] \<Rightarrow> Inr s
       | c # r \<Rightarrow>
           if c = CR \<and> r = [] then Inr (s\<lparr>pending_cr := True\<rparr>)
           else if c = CR \<and> hd r = LF then ebind (end_line limit [CR, LF] s) (consume_loop limit (tl r))
           else ebind (end_line limit [c] s) (consume_loop limit r))"
  by pat_completeness auto
termination
  by (relation "measure (\<lambda>(_, v, _). length v)") (auto dest!: dropWhile_shorter)

declare consume_loop.simps [simp del]

definition consume_text :: "nat \<Rightarrow> uni_text \<Rightarrow> sse_state \<Rightarrow> sse_error + sse_state" where
  "consume_text limit v s =
     (if pending_cr s then
        (let s = s\<lparr>pending_cr := False\<rparr>
         in if v \<noteq> [] \<and> hd v = LF
            then ebind (end_line limit [CR, LF] s) (consume_loop limit (tl v))
            else ebind (end_line limit [CR] s) (consume_loop limit v))
      else consume_loop limit v s)"

text \<open>The body of the \<open>for await\<close>: the records that became ready are yielded.\<close>

definition take_ready :: "sse_state \<Rightarrow> sse_record list \<times> sse_state" where
  "take_ready s = (ready_records s, s\<lparr>ready_records := []\<rparr>)"

text \<open>White space in the sense of \<open>String.prototype.trim\<close>.\<close>

definition js_space :: "nat \<Rightarrow> bool" where
  "js_space c \<longleftrightarrow> (9 \<le> c \<and> c \<le> 13) \<or> c = 32 \<or> c = 0xA0 \<or> c = 0x1680 \<or> (0x2000 \<le> c \<and> c \<le> 0x200A) \<or>
     c = 0x2028 \<or> c = 0x2029 \<or> c = 0x202F \<or> c = 0x205F \<or> c = 0x3000 \<or> c = 0xFEFF"

definition blank :: "uni_text \<Rightarrow> bool" where
  "blank t \<longleftrightarrow> (\<forall>c \<in> set t. js_space c)"

definition left_over :: "sse_state \<Rightarrow> bool" where
  "left_over s \<longleftrightarrow> (\<exists>l \<in> set (record_lines s). \<not> blank l) \<or> \<not> blank (peek_fragments (sse_line s))"

definition sse_finish :: "nat \<Rightarrow> text_decoder \<Rightarrow> sse_state \<Rightarrow> sse_record list \<times> sse_error option" where
  "sse_finish limit d s =
     (case decode_flush d of
        None \<Rightarrow> ([], Some Invalid_utf8_sse)
      | Some v \<Rightarrow>
          (case ebind (consume_text limit v s) (\<lambda>s.
                  if pending_cr s then end_line limit [CR] (s\<lparr>pending_cr := False\<rparr>) else Inr s) of
             Inl e \<Rightarrow> ([], Some e)
           | Inr s \<Rightarrow> (ready_records s, if left_over s then Some Stream_truncated else None)))"

fun sse_run :: "nat \<Rightarrow> text_decoder \<Rightarrow> sse_state \<Rightarrow> bytes list \<Rightarrow> sse_record list \<times> sse_error option" where
  "sse_run limit d s [] = sse_finish limit d s"
| "sse_run limit d s (chunk # chunks) =
     (case decode_chunk chunk d of
        None \<Rightarrow> ([], Some Invalid_utf8_sse)
      | Some (v, d') \<Rightarrow>
          (case consume_text limit v s of
             Inl e \<Rightarrow> ([], Some e)
           | Inr s' \<Rightarrow>
               let (rs, s'') = take_ready s'; (rest, e) = sse_run limit d' s'' chunks
               in (rs @ rest, e)))"

definition decode_sse_records :: "nat \<Rightarrow> bytes list \<Rightarrow> sse_record list \<times> sse_error option" where
  "decode_sse_records limit chunks = sse_run limit new_decoder new_sse chunks"

section \<open>One character at a time\<close>

text \<open>
  The reference: a machine that reads one character after another, holds a carriage return until it
  sees whether a line feed follows, and knows nothing of chunks and fragments.
\<close>

record sse_abs =
  abs_line :: uni_text
  abs_lines :: "uni_text list"
  abs_bytes :: nat
  abs_cr :: bool
  abs_ready :: "sse_record list"

definition abs_of :: "sse_state \<Rightarrow> sse_abs" where
  "abs_of s = \<lparr>abs_line = peek_fragments (sse_line s), abs_lines = record_lines s,
     abs_bytes = record_bytes s, abs_cr = pending_cr s, abs_ready = ready_records s\<rparr>"

definition abs_reserve :: "nat \<Rightarrow> nat \<Rightarrow> sse_abs \<Rightarrow> sse_error + sse_abs" where
  "abs_reserve limit n a =
     (if abs_bytes a + n > limit then Inl Event_too_large else Inr (a\<lparr>abs_bytes := abs_bytes a + n\<rparr>))"

definition abs_finish :: "sse_abs \<Rightarrow> sse_abs" where
  "abs_finish a =
     (if abs_line a \<noteq> [] then a\<lparr>abs_lines := abs_lines a @ [abs_line a], abs_line := []\<rparr>
      else a\<lparr>abs_lines := [], abs_bytes := 0,
             abs_ready := abs_ready a @ (case parse_record_lines (abs_lines a) of Some r \<Rightarrow> [r] | None \<Rightarrow> [])\<rparr>)"

definition abs_end :: "nat \<Rightarrow> nat \<Rightarrow> sse_abs \<Rightarrow> sse_error + sse_abs" where
  "abs_end limit n a = ebind (abs_reserve limit n (a\<lparr>abs_cr := False\<rparr>)) (\<lambda>a. Inr (abs_finish a))"

definition abs_plain :: "nat \<Rightarrow> nat \<Rightarrow> sse_abs \<Rightarrow> sse_error + sse_abs" where
  "abs_plain limit c a =
     (if c = LF then abs_end limit 1 a
      else if c = CR then Inr (a\<lparr>abs_cr := True\<rparr>)
      else abs_reserve limit (utf8_width c) (a\<lparr>abs_line := abs_line a @ [c]\<rparr>))"

definition abs_step :: "nat \<Rightarrow> nat \<Rightarrow> sse_abs \<Rightarrow> sse_error + sse_abs" where
  "abs_step limit c a =
     (if \<not> abs_cr a then abs_plain limit c a
      else if c = LF then abs_end limit 2 a
      else ebind (abs_end limit 1 a) (abs_plain limit c))"

fun abs_steps :: "nat \<Rightarrow> uni_text \<Rightarrow> sse_abs \<Rightarrow> sse_error + sse_abs" where
  "abs_steps limit [] a = Inr a"
| "abs_steps limit (c # cs) a = ebind (abs_step limit c a) (abs_steps limit cs)"

definition abs_close :: "nat \<Rightarrow> sse_abs \<Rightarrow> sse_error + sse_abs" where
  "abs_close limit a = (if abs_cr a then abs_end limit 1 a else Inr a)"

definition abs_left_over :: "sse_abs \<Rightarrow> bool" where
  "abs_left_over a \<longleftrightarrow> (\<exists>l \<in> set (abs_lines a). \<not> blank l) \<or> \<not> blank (abs_line a)"

text \<open>The whole stream at once, from a decoder state on: the records, or \<open>None\<close> for any error.\<close>

definition reference_from :: "nat \<Rightarrow> text_decoder \<Rightarrow> sse_abs \<Rightarrow> bytes \<Rightarrow> sse_record list option" where
  "reference_from limit d a bs =
     (case utf8_decode (pending_bytes d @ bs) of
        None \<Rightarrow> None
      | Some (t, p) \<Rightarrow>
          if p \<noteq> [] then None
          else (case ebind (abs_steps limit (drop_bom (bom_seen d) t) a) (abs_close limit) of
                  Inl _ \<Rightarrow> None
                | Inr b \<Rightarrow> if abs_left_over b then None else Some (abs_ready b)))"

definition sse_reference :: "nat \<Rightarrow> bytes \<Rightarrow> sse_record list option" where
  "sse_reference limit bs = reference_from limit new_decoder (abs_of new_sse) bs"

section \<open>The fragments are a text\<close>

lemma peek_append [simp]: "peek_fragments (append_fragment v f) = peek_fragments f @ v"
  by (simp add: peek_fragments_def append_fragment_def Let_def)

lemma take_fragments_simps [simp]:
  "fst (take_fragments f) = peek_fragments f" "peek_fragments (snd (take_fragments f)) = []"
  by (simp_all add: take_fragments_def peek_fragments_def no_fragments_def)

section \<open>The chunk loop refines the character machine\<close>

lemma abs_reserve_of:
  "map_sum id abs_of (reserve limit v s) = abs_reserve limit (text_bytes v) (abs_of s)"
  by (simp add: reserve_def abs_reserve_def abs_of_def Let_def)

lemma abs_finish_of: "abs_of (finish_line s) = abs_finish (abs_of s)"
  by (simp add: finish_line_def abs_finish_def abs_of_def Let_def take_fragments_def
      peek_fragments_def no_fragments_def split: option.split)

lemma refine_ebind:
  assumes "map_sum id f m = m'" and "\<And>x. m = Inr x \<Longrightarrow> map_sum id f (k x) = k' (f x)"
  shows "map_sum id f (ebind m k) = ebind m' k'"
  using assms by (cases m) auto

lemma end_line_of:
  assumes "\<not> pending_cr s"
  shows "map_sum id abs_of (end_line limit v s) = abs_end limit (text_bytes v) (abs_of s)"
proof -
  have "(abs_of s)\<lparr>abs_cr := False\<rparr> = abs_of s" using assms by (simp add: abs_of_def)
  then show ?thesis
    unfolding end_line_def abs_end_def
    by (intro refine_ebind) (simp_all add: abs_reserve_of abs_finish_of)
qed

lemma text_bytes_simps [simp]:
  "text_bytes [] = 0" "text_bytes (c # v) = utf8_width c + text_bytes v"
  "text_bytes (v @ w) = text_bytes v + text_bytes w"
  by (simp_all add: text_bytes_def)

lemma width_newline [simp]: "utf8_width LF = 1" "utf8_width CR = 1"
  by (simp_all add: utf8_width_def)

lemma abs_steps_append: "abs_steps limit (v @ w) a = ebind (abs_steps limit v a) (abs_steps limit w)"
proof (induction v arbitrary: a)
  case (Cons c v)
  have "abs_steps limit (v @ w) = (\<lambda>a. ebind (abs_steps limit v a) (abs_steps limit w))"
    using Cons.IH by blast
  then show ?case by (simp add: ebind_assoc)
qed simp

lemma abs_steps_plain:
  "\<forall>c \<in> set v. \<not> is_newline c \<Longrightarrow> \<not> abs_cr a \<Longrightarrow> abs_bytes a \<le> limit \<Longrightarrow>
    abs_steps limit v a = abs_reserve limit (text_bytes v) (a\<lparr>abs_line := abs_line a @ v\<rparr>)"
proof (induction v arbitrary: a)
  case (Cons c v)
  then show ?case
    by (auto simp: abs_step_def abs_plain_def is_newline_def abs_reserve_def ebind_simps)
qed (simp add: abs_reserve_def)

lemma add_text_of:
  assumes "\<forall>c \<in> set v. \<not> is_newline c" and "\<not> pending_cr s" and "record_bytes s \<le> limit"
  shows "map_sum id abs_of (add_text limit v s) = abs_steps limit v (abs_of s)"
  using abs_steps_plain [of v "abs_of s" limit] assms
  by (simp add: add_text_def abs_reserve_of) (simp add: abs_of_def)

text \<open>What the loop needs of its state, and keeps.\<close>

definition plain_state :: "nat \<Rightarrow> sse_state \<Rightarrow> bool" where
  "plain_state limit s \<longleftrightarrow> \<not> pending_cr s \<and> record_bytes s \<le> limit"

lemma add_text_plain: "add_text limit v s = Inr s' \<Longrightarrow> \<not> pending_cr s \<Longrightarrow> plain_state limit s'"
  by (auto simp: add_text_def reserve_def plain_state_def Let_def split: if_splits)

lemma end_line_plain: "end_line limit v s = Inr s' \<Longrightarrow> \<not> pending_cr s \<Longrightarrow> plain_state limit s'"
  by (auto simp: end_line_def reserve_def finish_line_def take_fragments_def plain_state_def Let_def
      ebind_eq_Inr split: if_splits option.splits)

lemma abs_of_cr [simp]: "abs_cr (abs_of s) = pending_cr s"
  by (simp add: abs_of_def)

lemma abs_end_cr: "abs_end limit n a = Inr b \<Longrightarrow> \<not> abs_cr b"
  by (auto simp: abs_end_def abs_reserve_def abs_finish_def ebind_eq_Inr split: if_splits)

lemma abs_end_forgets: "abs_end limit n (a\<lparr>abs_cr := c\<rparr>) = abs_end limit n a"
  by (simp add: abs_end_def)

lemma abs_steps_fun:
  "abs_steps limit (c # r) = (\<lambda>a. ebind (abs_step limit c a) (abs_steps limit r))"
  by (rule ext) simp

lemma abs_steps_cr:
  assumes "\<not> abs_cr a" and "c \<noteq> LF"
  shows "abs_steps limit (CR # c # r) a = ebind (abs_end limit 1 a) (abs_steps limit (c # r))"
proof -
  have "ebind (abs_end limit 1 a) (abs_plain limit c) = ebind (abs_end limit 1 a) (abs_step limit c)"
    by (rule ebind_cong) (auto simp: abs_step_def dest: abs_end_cr)
  then show ?thesis
    using assms by (simp add: abs_step_def [of limit CR] abs_step_def [of limit c "a\<lparr>abs_cr := True\<rparr>"]
        abs_plain_def [of limit CR] abs_end_forgets abs_steps_fun ebind_assoc [symmetric])
qed

lemma abs_steps_pending:
  assumes "abs_cr a" and "c \<noteq> LF"
  shows "abs_steps limit (c # r) a = ebind (abs_end limit 1 a) (abs_steps limit (c # r))"
proof -
  have "ebind (abs_end limit 1 a) (abs_plain limit c) = ebind (abs_end limit 1 a) (abs_step limit c)"
    by (rule ebind_cong) (auto simp: abs_step_def dest: abs_end_cr)
  then show ?thesis
    using assms by (simp add: abs_step_def [of limit c a] abs_steps_fun ebind_assoc [symmetric])
qed

lemma abs_steps_crlf:
  "\<not> abs_cr a \<Longrightarrow> abs_steps limit (CR # LF # r) a = ebind (abs_end limit 2 a) (abs_steps limit r)"
  by (simp add: abs_step_def abs_plain_def abs_end_forgets)

lemma abs_steps_lf: "\<not> abs_cr a \<Longrightarrow> abs_steps limit (LF # r) a = ebind (abs_end limit 1 a) (abs_steps limit r)"
  by (simp add: abs_step_def abs_plain_def)

lemma consume_loop_of:
  "plain_state limit s \<Longrightarrow> map_sum id abs_of (consume_loop limit v s) = abs_steps limit v (abs_of s)"
proof (induction limit v s rule: consume_loop.induct)
  case (1 limit v s)
  let ?t = "takeWhile (\<lambda>c. \<not> is_newline c) v" and ?d = "dropWhile (\<lambda>c. \<not> is_newline c) v"
  have plain: "\<not> pending_cr s" "record_bytes s \<le> limit" using "1.prems" by (simp_all add: plain_state_def)
  have split: "abs_steps limit v (abs_of s) = ebind (abs_steps limit ?t (abs_of s)) (abs_steps limit ?d)"
    using abs_steps_append [of limit ?t ?d] by simp
  have body: "map_sum id abs_of (add_text limit ?t s) = abs_steps limit ?t (abs_of s)"
    by (rule add_text_of) (use plain in \<open>auto dest: set_takeWhileD\<close>)
  show ?case
    unfolding split
  proof (subst consume_loop.simps, rule refine_ebind [OF body])
    fix s1
    assume s1: "add_text limit ?t s = Inr s1"
    then have p1: "plain_state limit s1" "\<not> pending_cr s1"
      using plain add_text_plain by (auto simp: plain_state_def)
    show "map_sum id abs_of (case ?d of [] \<Rightarrow> Inr s1
        | c # r \<Rightarrow>
            if c = CR \<and> r = [] then Inr (s1\<lparr>pending_cr := True\<rparr>)
            else if c = CR \<and> hd r = LF then ebind (end_line limit [CR, LF] s1) (consume_loop limit (tl r))
            else ebind (end_line limit [c] s1) (consume_loop limit r)) =
      abs_steps limit ?d (abs_of s1)"
    proof (cases ?d)
      case (Cons c r)
      then have c: "is_newline c" using hd_dropWhile [of "\<lambda>c. \<not> is_newline c" v] by auto
      have step: "map_sum id abs_of (ebind (end_line limit t s1) (consume_loop limit r')) =
          ebind (abs_end limit (text_bytes t) (abs_of s1)) (abs_steps limit r')"
        if "\<And>s2. end_line limit t s1 = Inr s2 \<Longrightarrow> plain_state limit s2 \<Longrightarrow>
            map_sum id abs_of (consume_loop limit r' s2) = abs_steps limit r' (abs_of s2)" for t r'
        by (rule refine_ebind [OF end_line_of [OF p1(2)]])
          (use that end_line_plain [OF _ p1(2)] in blast)
      show ?thesis
      proof (cases "c = CR")
        case cr: True
        show ?thesis
        proof (cases r)
          case Nil
          then show ?thesis
            using Cons cr p1(2) by (simp add: abs_step_def abs_plain_def) (simp add: abs_of_def)
        next
          case (Cons c' r')
          show ?thesis
          proof (cases "c' = LF")
            case True
            have "map_sum id abs_of (consume_loop limit r' s2) = abs_steps limit r' (abs_of s2)"
              if "end_line limit [CR, LF] s1 = Inr s2" "plain_state limit s2" for s2
              using "1.IH"(1) [OF s1 \<open>?d = c # r\<close>] cr Cons True that by (simp add: id_def)
            from step [OF this, of "[CR, LF]"] show ?thesis
              using \<open>?d = c # r\<close> cr Cons True p1(2)
              by (simp add: abs_steps_crlf numeral_2_eq_2 del: abs_steps.simps)
          next
            case False
            have "map_sum id abs_of (consume_loop limit r s2) = abs_steps limit r (abs_of s2)"
              if "end_line limit [CR] s1 = Inr s2" "plain_state limit s2" for s2
              using "1.IH"(2) [OF s1 \<open>?d = c # r\<close>] cr Cons False that by (simp add: id_def)
            from step [OF this, of "[CR]"] show ?thesis
              using \<open>?d = c # r\<close> cr Cons False p1(2)
              by (simp add: abs_steps_cr del: abs_steps.simps)
          qed
        qed
      next
        case False
        then have c: "c = LF" using c by (simp add: is_newline_def)
        have "map_sum id abs_of (consume_loop limit r s2) = abs_steps limit r (abs_of s2)"
          if "end_line limit [LF] s1 = Inr s2" "plain_state limit s2" for s2
          using "1.IH"(2) [OF s1 Cons] c that by (simp add: id_def)
        from step [OF this, of "[LF]"] show ?thesis
          using Cons c p1(2) by (simp add: abs_steps_lf del: abs_steps.simps)
      qed
    next
      case Nil
      show ?thesis unfolding Nil by simp
    qed
  qed
qed

text \<open>A text with a first character, and a carriage return that may be waiting.\<close>

lemma consume_text_of:
  assumes "record_bytes s \<le> limit" and "v \<noteq> [] \<or> \<not> pending_cr s"
  shows "map_sum id abs_of (consume_text limit v s) = abs_steps limit v (abs_of s)"
proof (cases "pending_cr s")
  case False
  then show ?thesis using assms(1) by (simp add: consume_text_def consume_loop_of plain_state_def)
next
  case True
  then obtain c w where v: "v = c # w" using assms(2) by (cases v) auto
  let ?s = "s\<lparr>pending_cr := False\<rparr>"
  have forget: "abs_end limit n (abs_of ?s) = abs_end limit n (abs_of s)" for n
    by (simp add: abs_end_def abs_of_def)
  have loop: "map_sum id abs_of (ebind (end_line limit t ?s) (consume_loop limit u)) =
      ebind (abs_end limit (text_bytes t) (abs_of s)) (abs_steps limit u)" for t u
    by (rule refine_ebind) (auto simp: end_line_of forget intro!: consume_loop_of dest: end_line_plain)
  show ?thesis
  proof (cases "c = LF")
    case lf: True
    then show ?thesis
      using loop [of "[CR, LF]" w] True v
      by (simp add: consume_text_def abs_step_def numeral_2_eq_2)
  next
    case False
    have "abs_steps limit v (abs_of s) = ebind (abs_end limit 1 (abs_of s)) (abs_steps limit v)"
      using abs_steps_pending [of "abs_of s" c] True False v by simp
    then show ?thesis
      using loop [of "[CR]" v] True False v by (simp add: consume_text_def del: abs_steps.simps)
  qed
qed

section \<open>Decoding in chunks\<close>

lemma utf8_rest_append:
  "utf8_rest k lo hi cp bs = Whole c r \<Longrightarrow> utf8_rest k lo hi cp (bs @ cs) = Whole c (r @ cs)"
  "utf8_rest k lo hi cp bs = Invalid \<Longrightarrow> utf8_rest k lo hi cp (bs @ cs) = Invalid"
  by (induction k lo hi cp bs rule: utf8_rest.induct) (auto split: if_splits)

lemma utf8_scan_append:
  "utf8_scan bs = Whole c r \<Longrightarrow> utf8_scan (bs @ cs) = Whole c (r @ cs)"
  "utf8_scan bs = Invalid \<Longrightarrow> utf8_scan (bs @ cs) = Invalid"
  by (cases bs; auto split: option.splits simp: utf8_rest_append)+

lemma utf8_decode_append:
  "utf8_decode (bs @ cs) =
    (case utf8_decode bs of
       None \<Rightarrow> None
     | Some (t, p) \<Rightarrow> map_option (\<lambda>(u, q). (t @ u, q)) (utf8_decode (p @ cs)))"
proof (induction bs rule: utf8_decode.induct)
  case (1 bs)
  show ?case
  proof (cases "utf8_scan bs")
    case (Whole c r)
    then have "utf8_decode (bs @ cs) = map_option (\<lambda>(t, p). (c # t, p)) (utf8_decode (r @ cs))"
      by (simp add: utf8_decode.simps [of "bs @ cs"] utf8_scan_append)
    moreover have "utf8_decode bs = map_option (\<lambda>(t, p). (c # t, p)) (utf8_decode r)"
      by (simp add: utf8_decode.simps [of bs] Whole)
    ultimately show ?thesis
      using 1 [OF Whole] by (cases "utf8_decode r") (auto simp: option.map_comp comp_def split_def)
  next
    case Partial
    then have "utf8_decode bs = Some ([], bs)" by (simp add: utf8_decode.simps [of bs])
    then show ?thesis by (cases "utf8_decode (bs @ cs)") auto
  next
    case Invalid
    then show ?thesis
      by (simp add: utf8_decode.simps [of bs] utf8_decode.simps [of "bs @ cs"] utf8_scan_append)
  qed
qed

lemma utf8_decode_pending: "utf8_decode bs = Some (t, p) \<Longrightarrow> utf8_scan p = Partial"
proof (induction bs arbitrary: t rule: utf8_decode.induct)
  case (1 bs)
  then show ?case
    by (cases "utf8_scan bs") (auto simp: utf8_decode.simps [of bs] split: option.splits)
qed

lemma utf8_decode_none: "utf8_scan bs = Partial \<Longrightarrow> utf8_decode bs = Some ([], bs)"
  by (simp add: utf8_decode.simps [of bs])

text \<open>An empty text leaves every byte pending.\<close>

lemma utf8_decode_empty: "utf8_decode bs = Some ([], p) \<Longrightarrow> p = bs"
  by (cases "utf8_scan bs") (auto simp: utf8_decode.simps [of bs] split: option.splits)

lemma utf8_rest_lower: "utf8_rest k lo hi cp bs = Whole c r \<Longrightarrow> cp * 64 ^ k \<le> c"
proof (induction k lo hi cp bs rule: utf8_rest.induct)
  case (3 k lo hi cp b bs)
  then have "(cp * 64 + unat b mod 64) * 64 ^ k \<le> c" by (auto split: if_splits)
  moreover have "cp * 64 ^ Suc k \<le> (cp * 64 + unat b mod 64) * 64 ^ k" by (simp add: algebra_simps)
  ultimately show ?case by linarith
qed auto

lemma utf8_lead_bits:
  assumes "utf8_lead b = Some (Suc k, lo, hi, cp)"
  shows "1 \<le> cp \<or> (1 \<le> k \<and> 0x90 \<le> lo \<and> hi = 0xbf)"
proof (rule ccontr)
  assume contra: "\<not> ?thesis"
  then have "cp = 0" by simp
  have less: "b < numeral w \<longleftrightarrow> unat b < unat (numeral w :: byte)" for w
    by (simp add: word_less_nat_alt)
  have eq: "b = numeral w \<longleftrightarrow> unat b = unat (numeral w :: byte)" for w
    by (rule word_unat_eq_iff)
  show False
    using assms contra \<open>cp = 0\<close>
    by (auto simp: utf8_lead_def less eq split: if_splits)
qed

lemma pending_lead:
  assumes "utf8_scan p = Partial" and "p \<noteq> []" and "utf8_decode (p @ cs) = Some (c # t, q)"
  shows "c \<noteq> LF"
proof -
  obtain b bs where p: "p = b # bs" using assms(2) by (cases p) auto
  obtain k lo hi cp where lead: "utf8_lead b = Some (k, lo, hi, cp)" and part: "utf8_rest k lo hi cp bs = Partial"
    using assms(1) p by (auto split: option.splits)
  obtain r where "utf8_scan (p @ cs) = Whole c r"
    using assms(3) by (cases "utf8_scan (p @ cs)") (auto simp: utf8_decode.simps [of "p @ cs"] split: option.splits)
  then have rest: "utf8_rest k lo hi cp (bs @ cs) = Whole c r" using p lead by simp
  obtain j where k: "k = Suc j" using part by (cases k) auto
  obtain x xs where x: "bs @ cs = x # xs" using rest k by (cases "bs @ cs") auto
  have range: "lo \<le> x" "x \<le> hi" and rest': "utf8_rest j 0x80 0xbf (cp * 64 + unat x mod 64) xs = Whole c r"
    using rest k x by (auto split: if_splits)
  have low: "(cp * 64 + unat x mod 64) * 64 ^ j \<le> c" by (rule utf8_rest_lower [OF rest'])
  have "1 \<le> cp \<or> (1 \<le> j \<and> 0x90 \<le> lo \<and> hi = 0xbf)" using utf8_lead_bits lead k by blast
  then have "64 \<le> (cp * 64 + unat x mod 64) * 64 ^ j"
  proof
    assume "1 \<le> cp"
    then have "64 * 1 \<le> (cp * 64 + unat x mod 64) * 64 ^ j" by (intro mult_le_mono) auto
    then show ?thesis by simp
  next
    assume l: "1 \<le> j \<and> 0x90 \<le> lo \<and> hi = 0xbf"
    then have "0x90 \<le> x" "x \<le> 0xbf" using range by auto
    then have "144 \<le> unat x" "unat x \<le> 191" by (simp_all add: word_le_nat_alt)
    then have "unat x mod 64 = unat x - 128" by (simp add: mod_if)
    then have "1 \<le> unat x mod 64" using \<open>144 \<le> unat x\<close> by simp
    moreover have "(64::nat) ^ 1 \<le> 64 ^ j" by (rule power_increasing) (use l in auto)
    ultimately have "1 * 64 \<le> (cp * 64 + unat x mod 64) * 64 ^ j" by (intro mult_le_mono) auto
    then show ?thesis by simp
  qed
  with low show ?thesis by linarith
qed

lemma drop_bom_append: "drop_bom seen (t @ u) = drop_bom seen t @ drop_bom (seen \<or> t \<noteq> []) u"
  by (cases t) (simp_all add: drop_bom_def)

lemma drop_bom_seen [simp]: "drop_bom True t = t"
  by (simp add: drop_bom_def)

section \<open>The stream and its reference\<close>

text \<open>Yielding the ready records leaves the rest of the run as it is.\<close>

definition with_ready :: "sse_record list \<Rightarrow> sse_abs \<Rightarrow> sse_abs" where
  "with_ready rs a = a\<lparr>abs_ready := rs @ abs_ready a\<rparr>"

lemma with_ready_fields [simp]:
  "abs_cr (with_ready rs a) = abs_cr a" "abs_left_over (with_ready rs a) = abs_left_over a"
  "abs_ready (with_ready rs a) = rs @ abs_ready a"
  by (simp_all add: with_ready_def abs_left_over_def)

lemma abs_reserve_ready:
  "abs_reserve limit n (with_ready rs a) = map_sum id (with_ready rs) (abs_reserve limit n a)"
  by (simp add: abs_reserve_def with_ready_def)

lemma abs_finish_ready: "abs_finish (with_ready rs a) = with_ready rs (abs_finish a)"
  by (simp add: abs_finish_def with_ready_def)

lemma ready_ebind:
  assumes "m' = map_sum id (with_ready rs) m" and "\<And>x. k (with_ready rs x) = map_sum id (with_ready rs) (k x)"
  shows "ebind m' k = map_sum id (with_ready rs) (ebind m k)"
  using assms by (cases m) auto

lemma abs_end_ready: "abs_end limit n (with_ready rs a) = map_sum id (with_ready rs) (abs_end limit n a)"
proof -
  have "(with_ready rs a)\<lparr>abs_cr := False\<rparr> = with_ready rs (a\<lparr>abs_cr := False\<rparr>)"
    by (simp add: with_ready_def)
  then show ?thesis
    unfolding abs_end_def by (intro ready_ebind) (simp_all add: abs_reserve_ready abs_finish_ready)
qed

lemma abs_plain_ready: "abs_plain limit c (with_ready rs a) = map_sum id (with_ready rs) (abs_plain limit c a)"
proof -
  have "(with_ready rs a)\<lparr>abs_line := l\<rparr> = with_ready rs (a\<lparr>abs_line := l\<rparr>)"
    "(with_ready rs a)\<lparr>abs_cr := True\<rparr> = with_ready rs (a\<lparr>abs_cr := True\<rparr>)"
    "abs_line (with_ready rs a) = abs_line a" for l
    by (simp_all add: with_ready_def)
  then show ?thesis by (simp add: abs_plain_def abs_end_ready abs_reserve_ready)
qed

lemma abs_step_ready: "abs_step limit c (with_ready rs a) = map_sum id (with_ready rs) (abs_step limit c a)"
proof -
  have "ebind (abs_end limit 1 (with_ready rs a)) (abs_plain limit c) =
      map_sum id (with_ready rs) (ebind (abs_end limit 1 a) (abs_plain limit c))"
    by (rule ready_ebind, rule abs_end_ready, rule abs_plain_ready)
  then show ?thesis by (simp add: abs_step_def abs_plain_ready abs_end_ready)
qed

lemma abs_steps_ready: "abs_steps limit v (with_ready rs a) = map_sum id (with_ready rs) (abs_steps limit v a)"
proof (induction v arbitrary: a)
  case (Cons c v)
  have "ebind (abs_step limit c (with_ready rs a)) (abs_steps limit v) =
      map_sum id (with_ready rs) (ebind (abs_step limit c a) (abs_steps limit v))"
    by (rule ready_ebind, rule abs_step_ready, rule Cons.IH)
  then show ?case by (simp add: id_def)
qed simp

lemma abs_close_ready: "abs_close limit (with_ready rs a) = map_sum id (with_ready rs) (abs_close limit a)"
  by (simp add: abs_close_def abs_end_ready)

lemma reference_ready:
  "reference_from limit d (with_ready rs a) bs = map_option (\<lambda>xs. rs @ xs) (reference_from limit d a bs)"
proof -
  have "ebind (abs_steps limit t (with_ready rs a)) (abs_close limit) =
      map_sum id (with_ready rs) (ebind (abs_steps limit t a) (abs_close limit))" for t
    by (rule ready_ebind, rule abs_steps_ready, rule abs_close_ready)
  then show ?thesis
    by (auto simp: reference_from_def split: option.split sum.split)
qed

text \<open>The whole stream after one chunk.\<close>

lemma reference_chunk:
  assumes "decode_chunk c d = Some (v, d')"
  shows "reference_from limit d a (c @ bs) =
    (case abs_steps limit v a of Inl _ \<Rightarrow> None | Inr b \<Rightarrow> reference_from limit d' b bs)"
proof -
  obtain t p where dec: "utf8_decode (pending_bytes d @ c) = Some (t, p)"
    and v: "v = drop_bom (bom_seen d) t" and d': "d' = \<lparr>pending_bytes = p, bom_seen = bom_seen d \<or> t \<noteq> []\<rparr>"
    using assms by (auto simp: decode_chunk_def split: option.splits)
  have whole: "utf8_decode (pending_bytes d @ c @ bs) =
      map_option (\<lambda>(u, q). (t @ u, q)) (utf8_decode (p @ bs))"
    using utf8_decode_append [of "pending_bytes d @ c" bs] dec by simp
  show ?thesis
  proof (cases "utf8_decode (p @ bs)")
    case None
    then show ?thesis using whole d' by (auto simp: reference_from_def split: sum.split)
  next
    case (Some uq)
    then obtain u q where uq: "utf8_decode (p @ bs) = Some (u, q)" by (cases uq) auto
    then show ?thesis
      using whole d' v
      by (cases "abs_steps limit v a")
        (auto simp: reference_from_def drop_bom_append abs_steps_append ebind_assoc)
  qed
qed

text \<open>
  While bytes are pending the next character is no line feed, so a waiting carriage return may be
  taken for a line end at once.
\<close>

lemma reference_early:
  assumes "abs_cr a" and "bom_seen d" and "pending_bytes d \<noteq> []" and "utf8_scan (pending_bytes d) = Partial"
  shows "reference_from limit d a bs =
    (case abs_end limit 1 a of Inl _ \<Rightarrow> None | Inr b \<Rightarrow> reference_from limit d b bs)"
proof (cases "utf8_decode (pending_bytes d @ bs)")
  case None
  then show ?thesis by (simp add: reference_from_def split: sum.split)
next
  case (Some tp)
  then obtain t p where dec: "utf8_decode (pending_bytes d @ bs) = Some (t, p)" by (cases tp) auto
  show ?thesis
  proof (cases "p = []")
    case False
    with dec show ?thesis by (simp add: reference_from_def split: sum.split)
  next
    case True
    then have "t \<noteq> []" using dec utf8_decode_empty assms(3) by fastforce
    then obtain c u where t: "t = c # u" by (cases t) auto
    have "c \<noteq> LF" using pending_lead [OF assms(4,3)] dec t by blast
    then have "abs_steps limit t a = ebind (abs_end limit 1 a) (abs_steps limit t)"
      using abs_steps_pending [OF assms(1)] t by simp
    then show ?thesis
      using dec True assms(2)
      by (cases "abs_end limit 1 a") (simp_all add: reference_from_def del: abs_steps.simps)
  qed
qed

lemma abs_end_bytes: "abs_end limit n a = Inr b \<Longrightarrow> abs_bytes b \<le> limit"
  by (auto simp: abs_end_def abs_finish_def abs_reserve_def ebind_eq_Inr split: if_splits)

lemma abs_step_bytes: "abs_step limit c a = Inr b \<Longrightarrow> abs_bytes a \<le> limit \<Longrightarrow> abs_bytes b \<le> limit"
  by (auto simp: abs_step_def abs_plain_def abs_end_def abs_finish_def abs_reserve_def ebind_eq_Inr
      split: if_splits)

lemma abs_steps_bytes: "abs_steps limit v a = Inr b \<Longrightarrow> abs_bytes a \<le> limit \<Longrightarrow> abs_bytes b \<le> limit"
  by (induction v arbitrary: a) (auto simp: ebind_eq_Inr dest: abs_step_bytes)

lemma map_sum_InrD: "map_sum id f m = Inr b \<Longrightarrow> \<exists>x. m = Inr x \<and> b = f x"
  by (cases m) auto

text \<open>One chunk: the code's state afterwards, seen through the abstraction.\<close>

lemma consume_chunk:
  assumes dec: "decode_chunk c d = Some (v, d')" and "c \<noteq> []" and "record_bytes s \<le> limit"
    and part: "utf8_scan (pending_bytes d) = Partial" and bom: "pending_cr s \<longrightarrow> bom_seen d"
  shows "reference_from limit d (abs_of s) (c @ bs) =
      (case consume_text limit v s of Inl _ \<Rightarrow> None | Inr s' \<Rightarrow> reference_from limit d' (abs_of s') bs) \<and>
    (\<forall>s'. consume_text limit v s = Inr s' \<longrightarrow> record_bytes s' \<le> limit \<and> (pending_cr s' \<longrightarrow> bom_seen d')) \<and>
    utf8_scan (pending_bytes d') = Partial"
proof -
  obtain t p where tp: "utf8_decode (pending_bytes d @ c) = Some (t, p)"
    and v: "v = drop_bom (bom_seen d) t" and d': "d' = \<lparr>pending_bytes = p, bom_seen = bom_seen d \<or> t \<noteq> []\<rparr>"
    using dec by (auto simp: decode_chunk_def split: option.splits)
  have part': "utf8_scan (pending_bytes d') = Partial" using utf8_decode_pending [OF tp] d' by simp
  have ref: "reference_from limit d (abs_of s) (c @ bs) =
      (case abs_steps limit v (abs_of s) of Inl _ \<Rightarrow> None | Inr b \<Rightarrow> reference_from limit d' b bs)"
    by (rule reference_chunk [OF dec])
  have bytes: "abs_bytes (abs_of s) \<le> limit" using assms(3) by (simp add: abs_of_def)
  show ?thesis
  proof (cases "v \<noteq> [] \<or> \<not> pending_cr s")
    case True
    note con = consume_text_of [OF assms(3) True]
    have "reference_from limit d (abs_of s) (c @ bs) =
        (case consume_text limit v s of Inl _ \<Rightarrow> None | Inr s' \<Rightarrow> reference_from limit d' (abs_of s') bs)"
      using ref con [symmetric] by (cases "consume_text limit v s") simp_all
    moreover have "record_bytes s' \<le> limit \<and> (pending_cr s' \<longrightarrow> bom_seen d')"
      if s': "consume_text limit v s = Inr s'" for s'
    proof -
      have "abs_steps limit v (abs_of s) = Inr (abs_of s')" using con s' by simp
      then have "record_bytes s' \<le> limit" "v = [] \<Longrightarrow> abs_of s' = abs_of s"
        using abs_steps_bytes bytes by (fastforce simp: abs_of_def)+
      moreover have "v = [] \<Longrightarrow> abs_of s' = abs_of s \<Longrightarrow> \<not> pending_cr s'"
        using True by (metis abs_of_cr)
      moreover have "v \<noteq> [] \<Longrightarrow> t \<noteq> []" using v by (auto simp: drop_bom_def)
      ultimately show ?thesis using d' by auto
    qed
    ultimately show ?thesis using part' by blast
  next
    case False
    then have cr: "pending_cr s" and "v = []" by simp_all
    then have "t = []" using v bom by simp
    then have p: "pending_bytes d' = pending_bytes d @ c" using utf8_decode_empty tp d' by simp
    have early: "reference_from limit d (abs_of s) (c @ bs) =
        (case abs_end limit 1 (abs_of s) of Inl _ \<Rightarrow> None | Inr b \<Rightarrow> reference_from limit d' b bs)"
      using ref reference_early [of "abs_of s" d' limit bs] cr bom d' p part' \<open>v = []\<close> \<open>c \<noteq> []\<close> by simp
    let ?s = "s\<lparr>pending_cr := False\<rparr>"
    have "abs_end limit 1 (abs_of ?s) = abs_end limit 1 (abs_of s)" by (simp add: abs_end_def abs_of_def)
    moreover have "map_sum id abs_of (ebind (end_line limit [CR] ?s) (consume_loop limit [])) =
        ebind (abs_end limit 1 (abs_of ?s)) (abs_steps limit [])"
      by (rule refine_ebind) (auto simp: end_line_of intro!: consume_loop_of [of _ _ "[]", simplified] dest: end_line_plain)
    ultimately have con: "map_sum id abs_of (consume_text limit v s) = abs_end limit 1 (abs_of s)"
      using cr \<open>v = []\<close> by (cases "abs_end limit 1 (abs_of s)") (simp_all add: consume_text_def)
    have "record_bytes s' \<le> limit \<and> \<not> pending_cr s'" if s': "consume_text limit v s = Inr s'" for s'
    proof -
      have e: "abs_end limit 1 (abs_of s) = Inr (abs_of s')" using con s' by simp
      then have "abs_bytes (abs_of s') \<le> limit" by (rule abs_end_bytes)
      with abs_end_cr [OF e] show ?thesis by (simp add: abs_of_def)
    qed
    then show ?thesis
      using early con [symmetric] part' by (cases "consume_text limit v s") auto
  qed
qed

text \<open>The records of a run without errors.\<close>

definition clean_records :: "sse_record list \<times> sse_error option \<Rightarrow> sse_record list option" where
  "clean_records r = (case snd r of None \<Rightarrow> Some (fst r) | Some _ \<Rightarrow> None)"

lemma abs_of_ready: "abs_of s = with_ready (ready_records s) (abs_of (s\<lparr>ready_records := []\<rparr>))"
  by (simp add: abs_of_def with_ready_def)

lemma left_over_of: "left_over s = abs_left_over (abs_of s)"
  by (simp add: left_over_def abs_left_over_def abs_of_def)

lemma close_of:
  assumes "record_bytes s \<le> limit"
  shows "map_sum id abs_of (ebind (consume_text limit [] s) (\<lambda>s.
      if pending_cr s then end_line limit [CR] (s\<lparr>pending_cr := False\<rparr>) else Inr s)) =
    abs_close limit (abs_of s)"
proof (cases "pending_cr s")
  case False
  have "consume_text limit [] s = Inr (s\<lparr>record_bytes := record_bytes s\<rparr>)"
    using False assms by (simp add: consume_text_def consume_loop.simps add_text_def reserve_def
        append_fragment_def)
  then show ?thesis using False by (simp add: abs_close_def)
next
  case True
  let ?s = "s\<lparr>pending_cr := False\<rparr>"
  have "abs_end limit 1 (abs_of ?s) = abs_end limit 1 (abs_of s)" by (simp add: abs_end_def abs_of_def)
  moreover have "ebind (end_line limit [CR] ?s) (\<lambda>s. ebind (consume_loop limit [] s) (\<lambda>s.
      if pending_cr s then end_line limit [CR] (s\<lparr>pending_cr := False\<rparr>) else Inr s)) =
    ebind (end_line limit [CR] ?s) Inr"
    by (rule ebind_cong [OF refl])
      (use end_line_plain in \<open>fastforce simp: consume_loop.simps add_text_def reserve_def
        append_fragment_def plain_state_def\<close>)
  moreover have "ebind m Inr = m" for m :: "sse_error + sse_state" by (cases m) simp_all
  ultimately show ?thesis
    using True end_line_of [of ?s limit "[CR]"]
    by (simp add: consume_text_def abs_close_def ebind_assoc)
qed

lemma sse_finish_reference:
  assumes "record_bytes s \<le> limit" and "utf8_scan (pending_bytes d) = Partial"
  shows "clean_records (sse_finish limit d s) = reference_from limit d (abs_of s) []"
proof (cases "pending_bytes d = []")
  case True
  let ?m = "ebind (consume_text limit [] s) (\<lambda>s.
      if pending_cr s then end_line limit [CR] (s\<lparr>pending_cr := False\<rparr>) else Inr s)"
  have "reference_from limit d (abs_of s) [] =
      (case map_sum id abs_of ?m of Inl _ \<Rightarrow> None | Inr b \<Rightarrow> if abs_left_over b then None else Some (abs_ready b))"
    unfolding close_of [OF assms(1)]
    using True by (simp add: reference_from_def utf8_decode_none drop_bom_def)
  then show ?thesis
    using True by (cases ?m)
      (auto simp: sse_finish_def decode_flush_def clean_records_def left_over_of abs_of_def)
next
  case False
  then show ?thesis
    using assms(2)
    by (simp add: reference_from_def utf8_decode_none sse_finish_def decode_flush_def clean_records_def)
qed

lemma sse_run_reference:
  assumes "[] \<notin> set chunks" and "record_bytes s \<le> limit" and "utf8_scan (pending_bytes d) = Partial"
    and "pending_cr s \<longrightarrow> bom_seen d" and "ready_records s = []"
  shows "clean_records (sse_run limit d s chunks) = reference_from limit d (abs_of s) (concat chunks)"
  using assms
proof (induction chunks arbitrary: d s)
  case Nil
  then show ?case by (simp add: sse_finish_reference)
next
  case (Cons c cs)
  show ?case
  proof (cases "decode_chunk c d")
    case None
    then have "utf8_decode (pending_bytes d @ c) = None" by (auto simp: decode_chunk_def split: option.splits)
    then have "utf8_decode (pending_bytes d @ c @ concat cs) = None"
      using utf8_decode_append [of "pending_bytes d @ c" "concat cs"] by simp
    with None show ?thesis by (simp add: reference_from_def clean_records_def)
  next
    case (Some vd)
    then obtain v d' where dec: "decode_chunk c d = Some (v, d')" by (cases vd) auto
    have "c \<noteq> []" using Cons.prems(1) by auto
    note step = consume_chunk [OF dec this Cons.prems(2-4), of "concat cs"]
    show ?thesis
    proof (cases "consume_text limit v s")
      case (Inl e)
      with dec step show ?thesis by (simp add: clean_records_def)
    next
      case (Inr s')
      let ?s = "s'\<lparr>ready_records := []\<rparr>"
      have IH: "clean_records (sse_run limit d' ?s cs) = reference_from limit d' (abs_of ?s) (concat cs)"
        by (rule Cons.IH) (use Cons.prems(1) step Inr in auto)
      have "reference_from limit d (abs_of s) (concat (c # cs)) =
          map_option (\<lambda>xs. ready_records s' @ xs) (clean_records (sse_run limit d' ?s cs))"
        using step Inr IH by (simp add: reference_ready abs_of_ready [of s'])
      then show ?thesis
        using dec Inr
        by (cases "sse_run limit d' ?s cs") (auto simp: clean_records_def take_ready_def split: option.split)
    qed
  qed
qed

section \<open>Properties\<close>

text \<open>C2: how the network cuts the stream into chunks does not matter: as long as no chunk is empty, the
  decoder ends without an error exactly when the reference machine accepts the whole stream, and it
  yields the same records.\<close>

theorem sse_chunking:
  assumes "[] \<notin> set chunks"
  shows "decode_sse_records limit chunks = (rs, None) \<longleftrightarrow> sse_reference limit (concat chunks) = Some rs"
proof -
  have ref: "clean_records (decode_sse_records limit chunks) = sse_reference limit (concat chunks)"
    unfolding decode_sse_records_def sse_reference_def
    by (rule sse_run_reference) (use assms in \<open>simp_all add: new_sse_def new_decoder_def\<close>)
  then show ?thesis
    by (cases "decode_sse_records limit chunks") (auto simp: clean_records_def split: option.splits)
qed

definition sse_bytes :: "string \<Rightarrow> bytes" where
  "sse_bytes s = map of_char s"

definition split_stream :: "bytes list" where
  "split_stream = [sse_bytes ''data:a'' @ [13], [10] @ sse_bytes ''data:b'' @ [10], [10]]"

text \<open>The equation of the loop in a form that the simplifier evaluates from the outside in.\<close>

lemma consume_loop_case:
  "consume_loop limit v s =
    (case add_text limit (takeWhile (\<lambda>c. \<not> is_newline c) v) s of
       Inl e \<Rightarrow> Inl e
     | Inr s \<Rightarrow>
         (case dropWhile (\<lambda>c. \<not> is_newline c) v of
            [] \<Rightarrow> Inr s
          | c # r \<Rightarrow>
              if c = CR \<and> r = [] then Inr (s\<lparr>pending_cr := True\<rparr>)
              else if c = CR \<and> hd r = LF then ebind (end_line limit [CR, LF] s) (consume_loop limit (tl r))
              else ebind (end_line limit [c] s) (consume_loop limit r)))"
  by (subst consume_loop.simps) (simp add: ebind_def)

lemmas sse_eval = decode_sse_records_def decode_chunk_def decode_flush_def new_decoder_def new_sse_def
  utf8_decode.simps utf8_lead_def drop_bom_def consume_text_def consume_loop_case add_text_def
  reserve_def end_line_def finish_line_def take_fragments_def peek_fragments_def append_fragment_def
  no_fragments_def parse_record_lines_def field_of_def strip_space_def take_ready_def sse_finish_def
  left_over_def blank_def is_newline_def utf8_width_def split_stream_def sse_bytes_def

lemma split_stream_run:
  "decode_sse_records 99 split_stream =
    ([\<lparr>event_name = None, sse_data = [97, 10, 98]\<rparr>], None)"
  by (simp add: sse_eval)

lemma sse_chunking_witness:
  "sse_reference 99 (concat split_stream) = Some [\<lparr>event_name = None, sse_data = [97, 10, 98]\<rparr>]"
proof -
  have "[] \<notin> set split_stream" by (simp add: split_stream_def sse_bytes_def)
  from sse_chunking [OF this, of 99] split_stream_run show ?thesis by blast
qed


end
