(* ===== verification/Gateway_Failures.thy ===== *)
theory Gateway_Failures
  imports Gateway_Prelude
begin

text \<open>
  The model of \<open>src/src/gateway/failures.ts\<close>: the closed set of gateway failures, where a failure
  came from, and the status, message and telemetry outcome the gateway presents for it. The
  \<open>cause\<close> of a failure is never read by this module and is not modelled.
\<close>

datatype failure_source =
    Src_request | Src_account | Src_credential | Src_catalog | Src_transport | Src_parser
  | Src_converter | Src_continuation | Src_gateway

datatype failure_phase =
    Ph_decode | Ph_bind | Ph_refresh | Ph_discover | Ph_connect | Ph_headers | Ph_body | Ph_stream
  | Ph_parse | Ph_convert | Ph_resume | Ph_admission | Ph_deadline | Ph_internal

text \<open>
  \<open>upstream_http\<close> carries the status the upstream sent and its \<open>retry-after\<close>; a number that is no
  integer is \<open>None\<close>.
\<close>

datatype failure_kind =
    Invalid_request | Body_too_large | Unsupported_media_type | Unsupported_semantics
  | Authentication | Permission | Model_not_found
  | Continuation_conflict | Continuation_unavailable | Continuation_persistence
  | Queue_full | Queue_timeout
  | Upstream_http "int option" "string option"
  | Upstream_timeout | Upstream_network | Upstream_stream_error | Upstream_stream_truncated
  | Invalid_upstream_response | Unsupported_upstream_output | Invalid_tool_arguments
  | Invalid_logprobs | Aborted | Internal

record gateway_failure =
  kind :: failure_kind
  source :: "failure_source option"
  phase :: "failure_phase option"

datatype failure_outcome =
    Client_error | Authentication_error | Overloaded | Upstream_error | Timeout_outcome
  | Aborted_outcome | Internal_error

record failure_policy =
  policy_status :: int
  policy_message :: string
  policy_outcome :: failure_outcome

definition policy :: "int \<Rightarrow> string \<Rightarrow> failure_outcome \<Rightarrow> failure_policy" where
  "policy status message result =
     \<lparr>policy_status = status, policy_message = message, policy_outcome = result\<rparr>"

text \<open>\<open>FAILURE_POLICY\<close>; \<open>upstream_http\<close> has no entry there and is decided by its callers.\<close>

fun failure_policy_of :: "failure_kind \<Rightarrow> failure_policy option" where
  "failure_policy_of Invalid_request = Some (policy 400 ''invalid request'' Client_error)"
| "failure_policy_of Body_too_large = Some (policy 413 ''request body too large'' Client_error)"
| "failure_policy_of Unsupported_media_type = Some (policy 415 ''unsupported media type'' Client_error)"
| "failure_policy_of Unsupported_semantics = Some (policy 422 ''unsupported semantics'' Client_error)"
| "failure_policy_of Authentication = Some (policy 401 ''authentication failed'' Authentication_error)"
| "failure_policy_of Permission = Some (policy 403 ''permission denied'' Authentication_error)"
| "failure_policy_of Model_not_found = Some (policy 404 ''model not found'' Client_error)"
| "failure_policy_of Continuation_conflict =
     Some (policy 409 ''response continuation is incompatible'' Client_error)"
| "failure_policy_of Continuation_unavailable =
     Some (policy 409 ''response continuation is unavailable'' Client_error)"
| "failure_policy_of Continuation_persistence =
     Some (policy 500 ''response continuation could not be saved'' Internal_error)"
| "failure_policy_of Queue_full = Some (policy 503 ''server overloaded'' Overloaded)"
| "failure_policy_of Queue_timeout = Some (policy 503 ''server overloaded'' Overloaded)"
| "failure_policy_of (Upstream_http _ _) = None"
| "failure_policy_of Upstream_timeout = Some (policy 504 ''upstream timeout'' Timeout_outcome)"
| "failure_policy_of Upstream_network = Some (policy 502 ''upstream request failed'' Upstream_error)"
| "failure_policy_of Upstream_stream_error = Some (policy 502 ''upstream request failed'' Upstream_error)"
| "failure_policy_of Upstream_stream_truncated =
     Some (policy 502 ''upstream request failed'' Upstream_error)"
| "failure_policy_of Invalid_upstream_response =
     Some (policy 502 ''invalid upstream response'' Upstream_error)"
| "failure_policy_of Unsupported_upstream_output =
     Some (policy 502 ''upstream response cannot be converted'' Upstream_error)"
| "failure_policy_of Invalid_tool_arguments =
     Some (policy 502 ''invalid upstream response'' Upstream_error)"
| "failure_policy_of Invalid_logprobs = Some (policy 502 ''invalid upstream response'' Upstream_error)"
| "failure_policy_of Aborted = Some (policy 500 ''internal error'' Aborted_outcome)"
| "failure_policy_of Internal = Some (policy 500 ''internal error'' Internal_error)"

text \<open>What a \<open>catch\<close> or an abort reason holds: a gateway failure, or any other value.\<close>

datatype thrown = Gateway_error gateway_failure | Other_error

definition failure_with_origin ::
  "gateway_failure \<Rightarrow> failure_source \<Rightarrow> failure_phase \<Rightarrow> gateway_failure" where
  "failure_with_origin f src ph =
     (if source f \<noteq> None \<and> phase f \<noteq> None then f
      else f\<lparr>source := Some (case source f of None \<Rightarrow> src | Some s \<Rightarrow> s),
             phase := Some (case phase f of None \<Rightarrow> ph | Some p \<Rightarrow> p)\<rparr>)"

text \<open>An abort signal: whether it is aborted, and its reason.\<close>

record abort_signal =
  aborted :: bool
  reason :: thrown

definition failure_from_signal ::
  "abort_signal \<Rightarrow> failure_source \<Rightarrow> failure_phase \<Rightarrow> gateway_failure" where
  "failure_from_signal signal src ph =
     (if \<not> aborted signal then \<lparr>kind = Internal, source = Some src, phase = Some ph\<rparr>
      else (case reason signal of
              Gateway_error f \<Rightarrow> failure_with_origin f src ph
            | Other_error \<Rightarrow> \<lparr>kind = Aborted, source = Some src, phase = Some ph\<rparr>))"

definition failure_from_unknown ::
  "thrown \<Rightarrow> failure_source \<Rightarrow> failure_phase \<Rightarrow> gateway_failure" where
  "failure_from_unknown e src ph = (case e of
       Gateway_error f \<Rightarrow> failure_with_origin f src ph
     | Other_error \<Rightarrow> \<lparr>kind = Internal, source = Some src, phase = Some ph\<rparr>)"

definition failure_outcome_of :: "gateway_failure \<Rightarrow> failure_outcome" where
  "failure_outcome_of f = (case failure_policy_of (kind f) of
       None \<Rightarrow> Upstream_error | Some p \<Rightarrow> policy_outcome p)"

definition default_failure_status :: "gateway_failure \<Rightarrow> int" where
  "default_failure_status f = (case kind f of
       Upstream_http status _ \<Rightarrow>
         (case status of
            None \<Rightarrow> 502
          | Some n \<Rightarrow> if 400 \<le> n \<and> n \<le> 599 then n else 502)
     | k \<Rightarrow> (case failure_policy_of k of None \<Rightarrow> 502 | Some p \<Rightarrow> policy_status p))"

definition safe_failure_message :: "gateway_failure \<Rightarrow> string" where
  "safe_failure_message f = (case failure_policy_of (kind f) of
       None \<Rightarrow> ''upstream request failed'' | Some p \<Rightarrow> policy_message p)"

section \<open>Facts\<close>

lemma failure_with_origin_complete:
  "source (failure_with_origin f src ph) \<noteq> None \<and> phase (failure_with_origin f src ph) \<noteq> None \<and>
   kind (failure_with_origin f src ph) = kind f"
  by (auto simp: failure_with_origin_def)

lemma failure_with_origin_keeps:
  "source f = Some s \<Longrightarrow> source (failure_with_origin f src ph) = Some s"
  "phase f = Some p \<Longrightarrow> phase (failure_with_origin f src ph) = Some p"
  by (auto simp: failure_with_origin_def)

lemma failure_with_origin_idem:
  "failure_with_origin (failure_with_origin f src ph) src' ph' = failure_with_origin f src ph"
  using failure_with_origin_complete [of f src ph] by (simp add: failure_with_origin_def)

lemma failure_policy_None: "failure_policy_of k = None \<longleftrightarrow> (\<exists>n r. k = Upstream_http n r)"
  by (cases k) auto

lemma failure_status_range: "400 \<le> default_failure_status f \<and> default_failure_status f \<le> 599"
  by (cases "kind f") (auto simp: default_failure_status_def policy_def split: option.splits)

section \<open>Properties\<close>

text \<open>C34: every error the gateway catches is presented as a failure: whatever was thrown, the failure made
  of it has a source and a phase, a gateway failure keeps its kind and the origin it already has, and
  the status sent for it is an HTTP error status.\<close>

theorem failure_presentation:
  "let f = failure_from_unknown e src ph in
    source f \<noteq> None \<and> phase f \<noteq> None \<and>
    (\<forall>g. e = Gateway_error g \<longrightarrow> kind f = kind g \<and> source g \<in> {None, source f} \<and> phase g \<in> {None, phase f}) \<and>
    400 \<le> default_failure_status f \<and> default_failure_status f \<le> 599"
proof (cases e)
  case (Gateway_error g)
  let ?f = "failure_from_unknown e src ph"
  have f: "?f = failure_with_origin g src ph" by (simp add: failure_from_unknown_def Gateway_error)
  have "source g \<in> {None, source ?f}" "phase g \<in> {None, phase ?f}"
    unfolding f using failure_with_origin_keeps [of g _ src ph]
    by (cases "source g"; simp) (cases "phase g"; simp add: failure_with_origin_keeps)
  then show ?thesis
    using failure_with_origin_complete [of g src ph] failure_status_range [of ?f]
    by (simp add: Gateway_error f failure_from_unknown_def Let_def)
next
  case Other_error
  then show ?thesis
    using failure_status_range [of "failure_from_unknown e src ph"]
    by (simp add: failure_from_unknown_def Let_def)
qed

lemma failure_presentation_witness:
  "kind (failure_from_unknown (Gateway_error \<lparr>kind = Queue_full, source = None, phase = None\<rparr>)
     Src_gateway Ph_internal) = Queue_full"
  using failure_presentation [of "Gateway_error \<lparr>kind = Queue_full, source = None, phase = None\<rparr>"
      Src_gateway Ph_internal]
  by (simp add: Let_def)

end
