(* ===== verification/Admission.thy ===== *)
theory Admission
  imports Gateway_Failures
begin

text \<open>
  The model of \<open>src/src/gateway/admission.ts\<close>: the counter of active requests and the queue of
  requests that wait for a slot. JavaScript runs one segment of code at a time, so each event
  below is one segment: the part of \<open>acquire\<close> before its \<open>await\<close>, the part after it, a release, an
  abort listener, a timer. A waiter that \<open>release\<close> has resolved is \<open>Woken\<close>: its promise is settled
  but the \<open>this.active += 1\<close> after the \<open>await\<close> has not run yet. The requests are numbered; their
  states stand for what their promises are settled to.
\<close>

section \<open>State\<close>

record admission_limits =
  active_max :: nat
  queue_max :: nat

datatype request_state =
    Waiting
  | Woken
  | Holding
  | Done
  | Refused failure_kind

record admission =
  active :: nat
  closed :: bool
  waiters :: "nat list"
  requests :: "nat \<rightharpoonup> request_state"

definition init_admission :: admission where
  "init_admission = \<lparr>active = 0, closed = False, waiters = [], requests = Map.empty\<rparr>"

definition active_count :: "admission \<Rightarrow> nat" where
  "active_count a = active a"

definition queued_count :: "admission \<Rightarrow> nat" where
  "queued_count a = length (waiters a)"

section \<open>Operations\<close>

text \<open>\<open>acquire\<close> up to its \<open>await\<close>; the waiter is pushed and its timer and listener are armed.\<close>

definition acquire_begin :: "admission_limits \<Rightarrow> bool \<Rightarrow> nat \<Rightarrow> admission \<Rightarrow> admission" where
  "acquire_begin limits signal_aborted r a =
     (if closed a \<or> signal_aborted then a\<lparr>requests := (requests a)(r \<mapsto> Refused Aborted)\<rparr>
      else if active a < active_max limits then
        a\<lparr>active := active a + 1, requests := (requests a)(r \<mapsto> Holding)\<rparr>
      else if length (waiters a) \<ge> queue_max limits then
        a\<lparr>requests := (requests a)(r \<mapsto> Refused Queue_full)\<rparr>
      else a\<lparr>waiters := waiters a @ [r], requests := (requests a)(r \<mapsto> Waiting)\<rparr>)"

text \<open>The rest of \<open>acquire\<close>, once the waiter's promise is resolved.\<close>

definition acquire_resume :: "nat \<Rightarrow> admission \<Rightarrow> admission" where
  "acquire_resume r a = a\<lparr>active := active a + 1, requests := (requests a)(r \<mapsto> Holding)\<rparr>"

definition release :: "nat \<Rightarrow> admission \<Rightarrow> admission" where
  "release r a =
     (let a' = a\<lparr>active := active a - 1, requests := (requests a)(r \<mapsto> Done)\<rparr>
      in case waiters a of
           [] \<Rightarrow> a'
         | w # ws \<Rightarrow> a'\<lparr>waiters := ws, requests := (requests a')(w \<mapsto> Woken)\<rparr>)"

text \<open>
  \<open>waiter.reject\<close> settles the promise only if nothing has settled it before: only a request that
  is still \<open>Waiting\<close> changes state.
\<close>

definition settle_rejected :: "nat \<Rightarrow> failure_kind \<Rightarrow> admission \<Rightarrow> admission" where
  "settle_rejected r k a =
     (if requests a r = Some Waiting then a\<lparr>requests := (requests a)(r \<mapsto> Refused k)\<rparr> else a)"

definition remove_waiter :: "nat \<Rightarrow> admission \<Rightarrow> admission" where
  "remove_waiter r a = a\<lparr>waiters := remove1 r (waiters a)\<rparr>"

definition on_abort :: "nat \<Rightarrow> admission \<Rightarrow> admission" where
  "on_abort r a = settle_rejected r Aborted (remove_waiter r a)"

text \<open>The two continuations of the queue timer: it elapsed, or the delay itself failed.\<close>

definition on_timer :: "nat \<Rightarrow> admission \<Rightarrow> admission" where
  "on_timer r a =
     (if r \<in> set (waiters a) then settle_rejected r Queue_timeout (remove_waiter r a) else a)"

definition on_delay_error :: "nat \<Rightarrow> thrown \<Rightarrow> admission \<Rightarrow> admission" where
  "on_delay_error r e a =
     (if r \<notin> set (waiters a) then a
      else settle_rejected r (case e of Gateway_error f \<Rightarrow> kind f | Other_error \<Rightarrow> Aborted)
             (remove_waiter r a))"

definition close_admission :: "admission \<Rightarrow> admission" where
  "close_admission a =
     fold (\<lambda>r. settle_rejected r Aborted) (waiters a) (a\<lparr>closed := True, waiters := []\<rparr>)"

section \<open>Runs\<close>

datatype admission_event =
    Acquire bool nat
  | Resume nat
  | Release nat
  | Abort nat
  | Timer nat
  | Delay_error nat thrown
  | Close

text \<open>
  Which events can happen: a request arrives once, resumes when woken, and calls its release
  function once, after it got it (\<open>cleanup\<close> in \<open>hono_app.ts\<close> is guarded by a flag). Abort
  listeners and timers run at any time after the request queued.
\<close>

fun enabled :: "admission_event \<Rightarrow> admission \<Rightarrow> bool" where
  "enabled (Acquire _ r) a = (requests a r = None)"
| "enabled (Resume r) a = (requests a r = Some Woken)"
| "enabled (Release r) a = (requests a r = Some Holding)"
| "enabled (Abort r) a = (requests a r \<noteq> None)"
| "enabled (Timer r) a = (requests a r \<noteq> None)"
| "enabled (Delay_error r _) a = (requests a r \<noteq> None)"
| "enabled Close a = True"

fun perform :: "admission_limits \<Rightarrow> admission_event \<Rightarrow> admission \<Rightarrow> admission" where
  "perform limits (Acquire b r) a = acquire_begin limits b r a"
| "perform limits (Resume r) a = acquire_resume r a"
| "perform limits (Release r) a = release r a"
| "perform limits (Abort r) a = on_abort r a"
| "perform limits (Timer r) a = on_timer r a"
| "perform limits (Delay_error r e) a = on_delay_error r e a"
| "perform limits Close a = close_admission a"

inductive admission_step :: "admission_limits \<Rightarrow> admission \<Rightarrow> admission \<Rightarrow> bool" for limits where
  event: "enabled ev a \<Longrightarrow> admission_step limits a (perform limits ev a)"

abbreviation woken :: "admission \<Rightarrow> nat set" where
  "woken a \<equiv> in_state Woken (requests a)"

abbreviation holding :: "admission \<Rightarrow> nat set" where
  "holding a \<equiv> in_state Holding (requests a)"

text \<open>Runs in which no new request arrives between a wake-up and its resumption.\<close>

inductive quiet_step :: "admission_limits \<Rightarrow> admission \<Rightarrow> admission \<Rightarrow> bool" for limits where
  quiet: "enabled ev a \<Longrightarrow> (\<And>b r. ev = Acquire b r \<Longrightarrow> woken a = {}) \<Longrightarrow>
    quiet_step limits a (perform limits ev a)"

inductive_cases admission_stepE: "admission_step limits a b"
inductive_cases quiet_stepE: "quiet_step limits a b"

section \<open>The accounting invariant\<close>

definition admission_ok :: "admission_limits \<Rightarrow> admission \<Rightarrow> bool" where
  "admission_ok limits a \<longleftrightarrow>
     finite (dom (requests a)) \<and>
     active a = card (holding a) \<and>
     distinct (waiters a) \<and> set (waiters a) = in_state Waiting (requests a) \<and>
     length (waiters a) \<le> queue_max limits \<and>
     (closed a \<longrightarrow> waiters a = []) \<and>
     (waiters a \<noteq> [] \<longrightarrow> active_max limits \<le> active a + card (woken a))"

lemma admission_okD:
  assumes "admission_ok limits a"
  shows "finite (dom (requests a))" "active a = card (holding a)" "distinct (waiters a)"
    "set (waiters a) = in_state Waiting (requests a)" "length (waiters a) \<le> queue_max limits"
    "closed a \<Longrightarrow> waiters a = []"
    "waiters a \<noteq> [] \<Longrightarrow> active_max limits \<le> active a + card (woken a)"
  using assms by (simp_all add: admission_ok_def)

lemma acquire_begin_ok:
  assumes ok: "admission_ok limits a" and r: "requests a r = None"
  shows "admission_ok limits (acquire_begin limits b r a)"
proof -
  note facts = admission_okD(1-5) [OF ok]
  have "r \<notin> set (waiters a)" using facts(4) r by simp
  with r facts admission_okD(6,7) [OF ok] show ?thesis
    by (cases "waiters a = []"; cases "closed a")
      (simp_all add: acquire_begin_def admission_ok_def in_state_cards)
qed

lemma acquire_resume_ok:
  assumes ok: "admission_ok limits a" and r: "requests a r = Some Woken"
  shows "admission_ok limits (acquire_resume r a)"
  using r admission_okD [OF ok] card_in_state_pos [where m = "requests a", OF _ r]
  by (auto simp: acquire_resume_def admission_ok_def in_state_cards)

lemma release_ok:
  assumes ok: "admission_ok limits a" and r: "requests a r = Some Holding"
  shows "admission_ok limits (release r a)"
proof (cases "waiters a")
  case Nil
  with r admission_okD [OF ok] card_in_state_pos [where m = "requests a", OF _ r] show ?thesis
    by (auto simp: release_def admission_ok_def in_state_cards)
next
  case (Cons w ws)
  note facts = admission_okD [OF ok]
  have "w \<in> in_state Waiting (requests a)" using facts(4) Cons by (metis list.set_intros(1))
  with r have w: "requests a w = Some Waiting" "w \<noteq> r" by auto
  have "w \<notin> set ws" using facts(3) Cons by simp
  have ws: "set ws = in_state Waiting (requests a) - {w}"
    using facts(3,4) Cons by auto
  have "\<not> closed a" using facts(6) Cons by auto
  with facts r w ws \<open>w \<notin> set ws\<close> Cons card_in_state_pos [OF facts(1) r] show ?thesis
    by (simp add: release_def admission_ok_def in_state_cards)
qed

lemma settle_removed_ok:
  assumes ok: "admission_ok limits a"
  shows "admission_ok limits (settle_rejected r k (remove_waiter r a))"
proof (cases "requests a r = Some Waiting")
  case True
  then have "waiters a \<noteq> []" using admission_okD(4) [OF ok] by auto
  then show ?thesis
    using True admission_okD [OF ok]
    by (auto simp: settle_rejected_def remove_waiter_def admission_ok_def length_remove1
        in_state_cards)
next
  case False
  then have "r \<notin> set (waiters a)" using admission_okD(4) [OF ok] by simp
  with ok False show ?thesis
    by (simp add: settle_rejected_def remove_waiter_def remove1_idem)
qed

lemma fold_settle:
  "requests (fold (\<lambda>r. settle_rejected r k) rs a) x =
     (if x \<in> set rs \<and> requests a x = Some Waiting then Some (Refused k) else requests a x)"
  "active (fold (\<lambda>r. settle_rejected r k) rs a) = active a"
  "waiters (fold (\<lambda>r. settle_rejected r k) rs a) = waiters a"
  "closed (fold (\<lambda>r. settle_rejected r k) rs a) = closed a"
  by (induction rs arbitrary: a) (auto simp: settle_rejected_def)

lemma close_admission_requests:
  assumes "admission_ok limits a"
  shows "requests (close_admission a) x =
    (if requests a x = Some Waiting then Some (Refused Aborted) else requests a x)"
  using admission_okD(4) [OF assms] by (simp add: close_admission_def fold_settle)

lemma close_ok:
  assumes ok: "admission_ok limits a"
  shows "admission_ok limits (close_admission a)"
proof -
  let ?b = "close_admission a"
  note req = close_admission_requests [OF ok]
  have "dom (requests ?b) = dom (requests a)" by (auto simp: dom_def req)
  moreover have "in_state t (requests ?b) = in_state t (requests a)"
    if "t = Holding \<or> t = Woken" for t
    using that by (auto simp: in_state_def req split: if_splits)
  moreover have "in_state Waiting (requests ?b) = {}" by (simp add: in_state_def req)
  moreover have "waiters ?b = []" "active ?b = active a"
    by (simp_all add: close_admission_def fold_settle)
  ultimately show ?thesis
    using admission_okD [OF ok] by (simp add: admission_ok_def)
qed

lemma perform_ok: "admission_ok limits a \<Longrightarrow> enabled ev a \<Longrightarrow> admission_ok limits (perform limits ev a)"
  by (cases ev)
    (simp_all add: acquire_begin_ok acquire_resume_ok release_ok on_abort_def on_timer_def
      on_delay_error_def settle_removed_ok close_ok)

lemma init_admission_ok: "admission_ok limits init_admission"
  by (simp add: init_admission_def admission_ok_def in_state_def)

interpretation admission_run: step_invariant init_admission "admission_step limits" "admission_ok limits"
  for limits
  by unfold_locales (auto simp: init_admission_ok elim!: admission_stepE intro: perform_ok)

section \<open>The bound on quiet runs\<close>

definition within_limit :: "admission_limits \<Rightarrow> admission \<Rightarrow> bool" where
  "within_limit limits a \<longleftrightarrow> admission_ok limits a \<and> active a + card (woken a) \<le> active_max limits"

lemma settle_unchanged:
  "woken (settle_rejected r k a) = woken a" "active (settle_rejected r k a) = active a"
  "woken (remove_waiter r a) = woken a" "active (remove_waiter r a) = active a"
  by (simp_all add: settle_rejected_def remove_waiter_def)

lemma close_unchanged:
  "woken (close_admission a) = woken a" "active (close_admission a) = active a"
  by (auto simp: close_admission_def in_state_def fold_settle)

lemma release_within:
  assumes ok: "admission_ok limits a" and r: "requests a r = Some Holding"
  shows "active (release r a) + card (woken (release r a)) \<le> active a + card (woken a)"
proof (cases "waiters a")
  case (Cons w ws)
  have "requests a w = Some Waiting"
    using admission_okD(4) [OF ok] Cons by (auto simp: set_eq_iff)
  with r Cons admission_okD [OF ok] card_in_state_pos [where m = "requests a", OF _ r] show ?thesis
    by (simp add: release_def in_state_cards)
qed (use r in \<open>simp add: release_def\<close>)

lemma acquire_begin_within:
  assumes "requests a r = None" and "woken a = {}"
  shows "woken (acquire_begin limits b r a) = {}"
    "active (acquire_begin limits b r a) \<le> max (active a) (active_max limits)"
  using assms by (auto simp: acquire_begin_def)

lemma perform_within:
  assumes "within_limit limits a" and en: "enabled ev a"
    and quiet: "\<And>b r. ev = Acquire b r \<Longrightarrow> woken a = {}"
  shows "within_limit limits (perform limits ev a)"
proof -
  have ok: "admission_ok limits a" and le: "active a + card (woken a) \<le> active_max limits"
    using assms(1) by (auto simp: within_limit_def)
  have "active (perform limits ev a) + card (woken (perform limits ev a)) \<le> active_max limits"
  proof (cases ev)
    case (Acquire b r)
    then have r: "requests a r = None" and "woken a = {}" using en quiet by auto
    from acquire_begin_within [OF this, of limits b] le Acquire show ?thesis by simp
  next
    case (Resume r)
    then have r: "requests a r = Some Woken" using en by simp
    with le Resume admission_okD(1) [OF ok] card_in_state_pos [where m = "requests a", OF _ r] show ?thesis
      by (simp add: acquire_resume_def in_state_cards)
  next
    case (Release r)
    then have "requests a r = Some Holding" using en by simp
    from release_within [OF ok this] le Release show ?thesis by simp
  qed (use le in \<open>simp_all add: on_abort_def on_timer_def on_delay_error_def settle_unchanged
      close_unchanged\<close>)
  with perform_ok [OF ok en] show ?thesis by (simp add: within_limit_def)
qed

lemma init_within: "within_limit limits init_admission"
  by (simp add: within_limit_def init_admission_ok) (simp add: init_admission_def in_state_def)

interpretation quiet_run: step_invariant init_admission "quiet_step limits" "within_limit limits"
  for limits
  by unfold_locales (auto simp: init_within elim!: quiet_stepE intro: perform_within)

section \<open>Runs given by their events\<close>

text \<open>No request arrives while a waiter is woken.\<close>

fun quiet_event :: "admission_event \<Rightarrow> admission \<Rightarrow> bool" where
  "quiet_event (Acquire b r) a = (enabled (Acquire b r) a \<and> woken a = {})"
| "quiet_event ev a = enabled ev a"

lemma run_events:
  "runs_ok enabled (perform limits) evs a \<Longrightarrow>
    (admission_step limits)\<^sup>*\<^sup>* a (run_all (perform limits) evs a)"
  by (rule run_all_steps [of enabled]) (auto intro: admission_step.event)

lemma run_quiet_events:
  "runs_ok quiet_event (perform limits) evs a \<Longrightarrow>
    (quiet_step limits)\<^sup>*\<^sup>* a (run_all (perform limits) evs a)"
proof (rule run_all_steps [of quiet_event])
  fix ev a
  assume ev: "quiet_event ev a"
  show "quiet_step limits a (perform limits ev a)"
  proof (rule quiet_step.quiet)
    show "enabled ev a" using ev by (cases ev) auto
  qed (use ev in auto)
qed

lemmas admission_eval = init_admission_def acquire_begin_def acquire_resume_def release_def
  on_abort_def on_timer_def settle_rejected_def remove_waiter_def

section \<open>Properties\<close>






end
