(* ===== verification/Pool_Entry.thy ===== *)
theory Pool_Entry
  imports Gateway_Prelude
begin

text \<open>
  The model of the class \<open>InferencePoolEntry\<close> of \<open>src/src/copilot/inference_pool.ts\<close>: the slots of
  one upstream connection profile, the queue of requests that wait for one, and the dispatcher they
  share. Every definition is one uninterrupted segment of the code. Requests are numbered; a
  dispatcher is named by the number of the factory call that makes it, and the factory, the
  \<open>undici\<close> dispatchers and the clock are outside: their answers arrive as events.
\<close>

section \<open>State\<close>

datatype pool_error = Pool_closed | Pool_saturated | Acquire_timed_out | Signal_aborted

datatype lease_state =
    Queued
  | Leased
  | Released
  | Rejected pool_error

record pool_limits =
  max_entries :: nat
  connections :: nat
  max_waiters :: nat

text \<open>How far \<open>closeDispatcher\<close> got: not called, awaiting a creation (or nothing), awaiting the
  dispatcher's own \<open>close\<close>, returned.\<close>

datatype close_progress =
    Not_closing
  | Awaiting_creation "nat option"
  | Awaiting_close nat
  | Closed_down

text \<open>
  The last four fields are not fields of the class: the factory calls in flight, the outcome of the
  settled ones, the dispatchers on which \<open>close\<close> or \<open>destroy\<close> was called, and the creations whose
  \<open>then\<close> in \<open>forceClose\<close> will destroy what they make.
\<close>

record pool_entry =
  slots_used :: nat
  queue :: "nat list"
  leases :: "nat \<rightharpoonup> lease_state"
  entry_closed :: bool
  force_closed :: bool
  last_used :: nat
  idle_timer :: bool
  failed_creation :: bool
  dispatcher :: "nat option"
  dispatcher_promise :: "nat option"
  closing_dispatcher :: "nat option"
  closing_promise :: "nat option"
  close_state :: close_progress
  creating :: "nat set"
  settled :: "nat \<rightharpoonup> nat option"
  disposed :: "nat set"
  to_destroy :: "nat set"

definition new_entry :: "nat \<Rightarrow> pool_entry" where
  "new_entry now =
     \<lparr>slots_used = 0, queue = [], leases = Map.empty, entry_closed = False, force_closed = False,
      last_used = now, idle_timer = False, failed_creation = False, dispatcher = None,
      dispatcher_promise = None, closing_dispatcher = None, closing_promise = None,
      close_state = Not_closing, creating = {}, settled = Map.empty, disposed = {},
      to_destroy = {}\<rparr>"

definition entry_idle :: "pool_entry \<Rightarrow> bool" where
  "entry_idle e \<longleftrightarrow> slots_used e = 0 \<and> queue e = [] \<and> dispatcher_promise e = None"

definition initializing :: "pool_entry \<Rightarrow> bool" where
  "initializing e \<longleftrightarrow> dispatcher_promise e \<noteq> None"

section \<open>Leases\<close>

definition touch :: "nat \<Rightarrow> pool_entry \<Rightarrow> pool_entry" where
  "touch now e = e\<lparr>last_used := now, idle_timer := False\<rparr>"

definition schedule_idle :: "nat \<Rightarrow> pool_entry \<Rightarrow> pool_entry" where
  "schedule_idle now e =
     (let e' = touch now e
      in if \<not> entry_idle e' \<or> entry_closed e' then e' else e'\<lparr>idle_timer := True\<rparr>)"

definition entry_acquire :: "pool_limits \<Rightarrow> bool \<Rightarrow> nat \<Rightarrow> nat \<Rightarrow> pool_entry \<Rightarrow> pool_entry" where
  "entry_acquire limits aborted now r e =
     (if aborted then e\<lparr>leases := (leases e)(r \<mapsto> Rejected Signal_aborted)\<rparr>
      else if entry_closed e then e\<lparr>leases := (leases e)(r \<mapsto> Rejected Pool_closed)\<rparr>
      else let e' = touch now e in
        if slots_used e' < connections limits then
          e'\<lparr>slots_used := slots_used e' + 1, leases := (leases e')(r \<mapsto> Leased)\<rparr>
        else if length (queue e') \<ge> max_waiters limits then
          e'\<lparr>leases := (leases e')(r \<mapsto> Rejected Pool_saturated)\<rparr>
        else e'\<lparr>queue := queue e' @ [r], leases := (leases e')(r \<mapsto> Queued)\<rparr>)"

text \<open>The waiter's abort listener and its timer: \<open>remove\<close>, then \<open>reject\<close>.\<close>

definition waiter_rejected :: "pool_error \<Rightarrow> nat \<Rightarrow> pool_entry \<Rightarrow> pool_entry" where
  "waiter_rejected err r e =
     e\<lparr>queue := remove1 r (queue e), leases := (leases e)(r \<mapsto> Rejected err)\<rparr>"

text \<open>
  The function \<open>releaseOnce\<close> returns; \<open>released\<close> is its own flag, so each lease releases once. A
  released slot goes straight to the first waiter, and only without one is it given back. The last
  step, \<open>onIdle\<close>, is the registry's \<open>scheduleIdleEviction\<close>.
\<close>

definition release_lease :: "nat \<Rightarrow> nat \<Rightarrow> pool_entry \<Rightarrow> pool_entry" where
  "release_lease now r e =
     (if leases e r = Some Released then e
      else let e' = e\<lparr>last_used := now, leases := (leases e)(r \<mapsto> Released)\<rparr>
      in case queue e' of
           w # ws \<Rightarrow> e'\<lparr>queue := ws, leases := (leases e')(w \<mapsto> Leased)\<rparr>
         | [] \<Rightarrow> let e'' = e'\<lparr>slots_used := slots_used e' - 1\<rparr>
                 in if entry_idle e'' then schedule_idle now e'' else e'')"

definition reject_waiters :: "pool_entry \<Rightarrow> pool_entry" where
  "reject_waiters e =
     e\<lparr>queue := [], leases := settle_all (queue e) (Rejected Pool_closed) (leases e)\<rparr>"

section \<open>The dispatcher\<close>

datatype dispatcher_request = Have nat | Wait_for nat | Refuse

text \<open>\<open>getDispatcher\<close> up to its \<open>await\<close>; \<open>c\<close> is the number of the factory call it may start.\<close>

definition start_dispatcher :: "nat \<Rightarrow> pool_entry \<Rightarrow> pool_entry" where
  "start_dispatcher c e = e\<lparr>dispatcher_promise := Some c, creating := insert c (creating e)\<rparr>"

definition get_dispatcher :: "nat \<Rightarrow> pool_entry \<Rightarrow> dispatcher_request \<times> pool_entry" where
  "get_dispatcher c e =
     (if entry_closed e then (Refuse, e)
      else case dispatcher e of
        Some d \<Rightarrow> (Have d, e)
      | None \<Rightarrow>
          (case dispatcher_promise e of
             Some p \<Rightarrow> (Wait_for p, e)
           | None \<Rightarrow> (Wait_for c, start_dispatcher c e)))"

text \<open>The \<open>then\<close> of \<open>startDispatcher\<close>, for a factory call that made a dispatcher or failed.\<close>

definition creation_done :: "nat \<Rightarrow> pool_entry \<Rightarrow> pool_entry" where
  "creation_done c e =
     (let e' = e\<lparr>failed_creation := False, creating := creating e - {c}\<rparr>
      in if \<not> entry_closed e' then
           (case dispatcher e' of
              None \<Rightarrow> e'\<lparr>dispatcher := Some c, settled := (settled e')(c \<mapsto> Some c)\<rparr>
            | Some d \<Rightarrow> e'\<lparr>settled := (settled e')(c \<mapsto> Some d)\<rparr>)
         else e'\<lparr>settled := (settled e')(c \<mapsto> Some c)\<rparr>)"

definition creation_failed :: "nat \<Rightarrow> pool_entry \<Rightarrow> pool_entry" where
  "creation_failed c e =
     e\<lparr>failed_creation := True, creating := creating e - {c}, settled := (settled e)(c \<mapsto> None)\<rparr>"

text \<open>The \<open>finally\<close> of \<open>startDispatcher\<close>.\<close>

definition creation_finally :: "nat \<Rightarrow> nat \<Rightarrow> pool_entry \<Rightarrow> pool_entry" where
  "creation_finally now c e =
     (let e' = (if dispatcher_promise e = Some c then e\<lparr>dispatcher_promise := None\<rparr> else e)
      in if entry_idle e' then schedule_idle now e' else e')"

section \<open>Closing\<close>

text \<open>The part of \<open>closeDispatcher\<close> after its first \<open>await\<close>, with the dispatcher it got.\<close>

definition close_with :: "nat option \<Rightarrow> pool_entry \<Rightarrow> pool_entry" where
  "close_with d e =
     (let e' = e\<lparr>closing_promise := None, dispatcher := None\<rparr>
      in case d of
           Some x \<Rightarrow>
             (if force_closed e' then e'\<lparr>close_state := Closed_down\<rparr>
              else e'\<lparr>closing_dispatcher := Some x, disposed := insert x (disposed e'),
                     close_state := Awaiting_close x\<rparr>)
         | None \<Rightarrow> e'\<lparr>close_state := Closed_down\<rparr>)"

definition close_dispatcher :: "pool_entry \<Rightarrow> pool_entry" where
  "close_dispatcher e =
     (if entry_closed e \<and> dispatcher e = None \<and> dispatcher_promise e = None then
        e\<lparr>close_state := Closed_down\<rparr>
      else
        let e1 = reject_waiters (e\<lparr>entry_closed := True, idle_timer := False\<rparr>);
            e2 = e1\<lparr>dispatcher_promise := None, closing_promise := dispatcher_promise e1\<rparr>
        in case dispatcher e2 of
             Some d \<Rightarrow> close_with (Some d) e2
           | None \<Rightarrow> e2\<lparr>close_state := Awaiting_creation (closing_promise e2)\<rparr>)"

text \<open>\<open>close\<close> starts \<open>closeDispatcher\<close> once.\<close>

definition entry_close :: "pool_entry \<Rightarrow> pool_entry" where
  "entry_close e = (if close_state e = Not_closing then close_dispatcher e else e)"

text \<open>The value the \<open>await\<close> of \<open>closeDispatcher\<close> resumes with, when it can resume.\<close>

fun awaited :: "pool_entry \<Rightarrow> nat option \<Rightarrow> nat option option" where
  "awaited e None = Some None"
| "awaited e (Some c) = settled e c"

definition close_resume :: "pool_entry \<Rightarrow> pool_entry" where
  "close_resume e =
     (case close_state e of
        Awaiting_creation p \<Rightarrow> (case awaited e p of Some d \<Rightarrow> close_with d e | None \<Rightarrow> e)
      | _ \<Rightarrow> e)"

definition close_finished :: "pool_entry \<Rightarrow> pool_entry" where
  "close_finished e =
     (case close_state e of
        Awaiting_close d \<Rightarrow>
          (if closing_dispatcher e = Some d then e\<lparr>closing_dispatcher := None, close_state := Closed_down\<rparr>
           else e\<lparr>close_state := Closed_down\<rparr>)
      | _ \<Rightarrow> e)"

definition or_else :: "'a option \<Rightarrow> 'a option \<Rightarrow> 'a option" where
  "or_else x y = (case x of None \<Rightarrow> y | Some _ \<Rightarrow> x)"

definition force_close :: "pool_entry \<Rightarrow> pool_entry" where
  "force_close e =
     (let e1 = reject_waiters (e\<lparr>force_closed := True, entry_closed := True, idle_timer := False\<rparr>);
          pending = or_else (dispatcher_promise e1) (closing_promise e1);
          victim = or_else (dispatcher e1) (closing_dispatcher e1)
      in e1\<lparr>dispatcher_promise := None, closing_promise := None,
            dispatcher := None, closing_dispatcher := None,
            disposed := disposed e1 \<union> set_option victim,
            to_destroy := to_destroy e1 \<union> set_option pending\<rparr>)"

text \<open>The \<open>then\<close> that \<open>forceClose\<close> put on a creation runs once the creation has settled.\<close>

definition destroy_created :: "nat \<Rightarrow> pool_entry \<Rightarrow> pool_entry" where
  "destroy_created c e =
     (if c \<in> to_destroy e then
        (case settled e c of
           None \<Rightarrow> e
         | Some d \<Rightarrow> e\<lparr>disposed := disposed e \<union> set_option d, to_destroy := to_destroy e - {c}\<rparr>)
      else e)"

section \<open>Runs\<close>

datatype entry_event =
    Acquire_lease bool nat nat
  | Abort_waiter nat
  | Expire_waiter nat
  | Release_lease nat nat
  | Get_dispatcher nat
  | Creation_done nat
  | Creation_failed nat
  | Creation_finally nat nat
  | Touch nat
  | Close_entry
  | Close_resume
  | Close_finished
  | Force_close
  | Destroy_created nat

text \<open>
  A request asks for one lease; its listener and timer live as long as it is queued; a release
  function exists once the lease was given, and may be called again. A factory call has a fresh
  number and settles once, and its \<open>finally\<close> runs afterwards.
\<close>

fun entry_enabled :: "entry_event \<Rightarrow> pool_entry \<Rightarrow> bool" where
  "entry_enabled (Acquire_lease _ _ r) e = (leases e r = None)"
| "entry_enabled (Abort_waiter r) e = (leases e r = Some Queued)"
| "entry_enabled (Expire_waiter r) e = (leases e r = Some Queued)"
| "entry_enabled (Release_lease _ r) e = (leases e r = Some Leased \<or> leases e r = Some Released)"
| "entry_enabled (Get_dispatcher c) e = (c \<notin> creating e \<and> settled e c = None)"
| "entry_enabled (Creation_done c) e = (c \<in> creating e)"
| "entry_enabled (Creation_failed c) e = (c \<in> creating e)"
| "entry_enabled (Creation_finally _ c) e = (settled e c \<noteq> None)"
| "entry_enabled _ e = True"

fun entry_perform :: "pool_limits \<Rightarrow> entry_event \<Rightarrow> pool_entry \<Rightarrow> pool_entry" where
  "entry_perform limits (Acquire_lease b now r) e = entry_acquire limits b now r e"
| "entry_perform limits (Abort_waiter r) e = waiter_rejected Signal_aborted r e"
| "entry_perform limits (Expire_waiter r) e = waiter_rejected Acquire_timed_out r e"
| "entry_perform limits (Release_lease now r) e = release_lease now r e"
| "entry_perform limits (Get_dispatcher c) e = snd (get_dispatcher c e)"
| "entry_perform limits (Creation_done c) e = creation_done c e"
| "entry_perform limits (Creation_failed c) e = creation_failed c e"
| "entry_perform limits (Creation_finally now c) e = creation_finally now c e"
| "entry_perform limits (Touch now) e = touch now e"
| "entry_perform limits Close_entry e = entry_close e"
| "entry_perform limits Close_resume e = close_resume e"
| "entry_perform limits Close_finished e = close_finished e"
| "entry_perform limits Force_close e = force_close e"
| "entry_perform limits (Destroy_created c) e = destroy_created c e"

inductive entry_step :: "pool_limits \<Rightarrow> pool_entry \<Rightarrow> pool_entry \<Rightarrow> bool" for limits where
  event: "entry_enabled ev e \<Longrightarrow> entry_step limits e (entry_perform limits ev e)"

inductive_cases entry_stepE: "entry_step limits e f"

section \<open>What the operations leave alone\<close>

text \<open>The slot accounting reads these four fields, the dispatcher accounting the others.\<close>

definition slots_of :: "pool_entry \<Rightarrow> nat \<times> nat list \<times> (nat \<rightharpoonup> lease_state) \<times> bool" where
  "slots_of e = (slots_used e, queue e, leases e, entry_closed e)"

lemma schedule_idle_fields [simp]:
  "slots_used (schedule_idle now e) = slots_used e" "queue (schedule_idle now e) = queue e"
  "leases (schedule_idle now e) = leases e" "entry_closed (schedule_idle now e) = entry_closed e"
  "force_closed (schedule_idle now e) = force_closed e"
  "dispatcher (schedule_idle now e) = dispatcher e"
  "dispatcher_promise (schedule_idle now e) = dispatcher_promise e"
  "closing_dispatcher (schedule_idle now e) = closing_dispatcher e"
  "closing_promise (schedule_idle now e) = closing_promise e"
  "close_state (schedule_idle now e) = close_state e" "creating (schedule_idle now e) = creating e"
  "settled (schedule_idle now e) = settled e" "disposed (schedule_idle now e) = disposed e"
  "to_destroy (schedule_idle now e) = to_destroy e"
  by (simp_all add: schedule_idle_def touch_def Let_def)

lemma close_with_slots [simp]: "slots_of (close_with d e) = slots_of e"
  by (simp add: close_with_def slots_of_def Let_def split: option.splits)

lemma creation_slots [simp]:
  "slots_of (snd (get_dispatcher c e)) = slots_of e" "slots_of (creation_done c e) = slots_of e"
  "slots_of (creation_failed c e) = slots_of e" "slots_of (creation_finally now c e) = slots_of e"
  "slots_of (close_finished e) = slots_of e" "slots_of (destroy_created c e) = slots_of e"
  "slots_of (touch now e) = slots_of e"
  by (simp_all add: get_dispatcher_def start_dispatcher_def creation_done_def creation_failed_def
      creation_finally_def close_finished_def destroy_created_def touch_def slots_of_def Let_def
      split: option.splits close_progress.splits)

lemma close_resume_slots [simp]: "slots_of (close_resume e) = slots_of e"
  by (simp add: close_resume_def split: option.splits close_progress.splits)

definition closed_slots :: "pool_entry \<Rightarrow> nat \<times> nat list \<times> (nat \<rightharpoonup> lease_state) \<times> bool" where
  "closed_slots e = (slots_used e, [], settle_all (queue e) (Rejected Pool_closed) (leases e), True)"

lemma force_close_slots: "slots_of (force_close e) = closed_slots e"
  by (simp add: force_close_def reject_waiters_def slots_of_def closed_slots_def Let_def)

lemma entry_close_slots: "slots_of (entry_close e) = closed_slots e \<or> slots_of (entry_close e) = slots_of e"
proof -
  let ?e = "e\<lparr>entry_closed := True, idle_timer := False\<rparr>"
  have "slots_of (close_dispatcher e) = closed_slots e"
    if "\<not> (entry_closed e \<and> dispatcher e = None \<and> dispatcher_promise e = None)"
  proof (cases "dispatcher e")
    case (Some d)
    then show ?thesis
      using that by (simp add: close_dispatcher_def reject_waiters_def Let_def)
        (simp add: slots_of_def closed_slots_def)
  next
    case None
    then show ?thesis
      using that by (auto simp: close_dispatcher_def slots_of_def closed_slots_def
          reject_waiters_def Let_def)
  qed
  then show ?thesis
    by (auto simp: entry_close_def close_dispatcher_def slots_of_def)
qed

section \<open>The slot invariant\<close>

definition slots_ok :: "pool_limits \<Rightarrow> nat \<times> nat list \<times> (nat \<rightharpoonup> lease_state) \<times> bool \<Rightarrow> bool" where
  "slots_ok limits = (\<lambda>(used, q, ls, cl).
     finite (dom ls) \<and> used = card (in_state Leased ls) \<and> distinct q \<and> set q = in_state Queued ls \<and>
     length q \<le> max_waiters limits \<and> used \<le> connections limits \<and>
     (q \<noteq> [] \<longrightarrow> used = connections limits) \<and> (cl \<longrightarrow> q = []))"

abbreviation entry_ok :: "pool_limits \<Rightarrow> pool_entry \<Rightarrow> bool" where
  "entry_ok limits e \<equiv> slots_ok limits (slots_of e)"

lemma entry_ok_iff:
  "entry_ok limits e \<longleftrightarrow>
     finite (dom (leases e)) \<and> slots_used e = card (in_state Leased (leases e)) \<and>
     distinct (queue e) \<and> set (queue e) = in_state Queued (leases e) \<and>
     length (queue e) \<le> max_waiters limits \<and> slots_used e \<le> connections limits \<and>
     (queue e \<noteq> [] \<longrightarrow> slots_used e = connections limits) \<and> (entry_closed e \<longrightarrow> queue e = [])"
  by (simp add: slots_ok_def slots_of_def)

lemma entry_okD:
  assumes "entry_ok limits e"
  shows "finite (dom (leases e))" "slots_used e = card (in_state Leased (leases e))"
    "distinct (queue e)" "set (queue e) = in_state Queued (leases e)"
    "length (queue e) \<le> max_waiters limits" "slots_used e \<le> connections limits"
    "queue e \<noteq> [] \<Longrightarrow> slots_used e = connections limits" "entry_closed e \<Longrightarrow> queue e = []"
  using assms by (simp_all add: entry_ok_iff)

lemma entry_acquire_ok:
  assumes ok: "entry_ok limits e" and r: "leases e r = None"
  shows "entry_ok limits (entry_acquire limits b now r e)"
proof -
  note facts = entry_okD [OF ok]
  have new: "r \<notin> set (queue e)" using facts(4) r by simp
  have q: "queue e = []" if "slots_used e < connections limits"
    using facts(7) that by (cases "queue e") auto
  show ?thesis
  proof (cases "b \<or> entry_closed e")
    case True
    with r facts(1-6) facts(7,8) new show ?thesis
      by (cases "queue e = []"; cases "entry_closed e")
        (auto simp: entry_acquire_def entry_ok_iff in_state_cards)
  next
    case accepting: False
    show ?thesis
    proof (cases "slots_used e < connections limits")
      case True
      with accepting q [OF True] r facts(1-6) new show ?thesis
        by (simp add: entry_acquire_def entry_ok_iff touch_def in_state_cards Let_def)
    next
      case False
      with accepting r facts(1-6) new show ?thesis
        by (simp add: entry_acquire_def entry_ok_iff touch_def in_state_cards Let_def)
    qed
  qed
qed

lemma waiter_rejected_ok:
  assumes ok: "entry_ok limits e" and r: "leases e r = Some Queued"
  shows "entry_ok limits (waiter_rejected err r e)"
proof -
  note facts = entry_okD [OF ok]
  have q: "queue e \<noteq> []" using facts(4) r by auto
  then have "\<not> entry_closed e" using facts(8) by auto
  with q r facts(1-7) show ?thesis
    by (auto simp: waiter_rejected_def entry_ok_iff length_remove1 in_state_cards)
qed

lemma release_lease_ok:
  assumes ok: "entry_ok limits e" and r: "leases e r = Some Leased \<or> leases e r = Some Released"
  shows "entry_ok limits (release_lease now r e)"
proof (cases "leases e r = Some Released")
  case False
  with r have r: "leases e r = Some Leased" by simp
  note facts = entry_okD [OF ok] and pos = card_in_state_pos [where m = "leases e", OF _ r]
  show ?thesis
  proof (cases "queue e")
    case Nil
    with r facts(1-6) pos show ?thesis
      by (auto simp: release_lease_def entry_ok_iff in_state_cards Let_def)
  next
    case (Cons w ws)
    have "w \<in> in_state Queued (leases e)" using facts(4) Cons by (metis list.set_intros(1))
    with r have w: "leases e w = Some Queued" "w \<noteq> r" by auto
    have new: "w \<notin> set ws" and ws: "set ws = in_state Queued (leases e) - {w}"
      using facts(3,4) Cons by auto
    have "\<not> entry_closed e" "slots_used e = connections limits" using facts(7,8) Cons by auto
    with facts(1-6) r w ws new Cons pos show ?thesis
      by (simp add: release_lease_def entry_ok_iff in_state_cards Let_def)
  qed
qed (use ok in \<open>simp add: release_lease_def\<close>)

lemma closed_slots_ok:
  assumes "entry_ok limits e"
  shows "slots_ok limits (closed_slots e)"
  using entry_okD(1-6) [OF assms]
  by (simp add: slots_ok_def closed_slots_def finite_in_state)

lemma entry_perform_ok:
  assumes "entry_ok limits e" and "entry_enabled ev e"
  shows "entry_ok limits (entry_perform limits ev e)"
proof (cases ev)
  case Close_entry
  then show ?thesis
    using assms entry_close_slots [of e] closed_slots_ok by auto
qed (use assms in \<open>simp_all add: entry_acquire_ok waiter_rejected_ok release_lease_ok
    force_close_slots closed_slots_ok\<close>)

lemma new_entry_ok: "entry_ok limits (new_entry now)"
  by (simp add: new_entry_def entry_ok_iff)

interpretation slot_run: step_invariant "new_entry now" "entry_step limits" "entry_ok limits"
  for now limits
  by unfold_locales (auto simp: new_entry_ok elim!: entry_stepE intro: entry_perform_ok)

section \<open>The dispatcher invariant\<close>

text \<open>The creations whose dispatcher somebody will close or destroy.\<close>

definition claims :: "pool_entry \<Rightarrow> nat set" where
  "claims e = to_destroy e \<union>
     (case close_state e of
        Awaiting_creation p \<Rightarrow> if force_closed e then {} else set_option p
      | _ \<Rightarrow> {})"

text \<open>The creations that made a dispatcher, and that none resolves to the dispatcher of another.\<close>

definition created :: "(nat \<rightharpoonup> nat option) \<Rightarrow> nat set" where
  "created m = {c. m c = Some (Some c)}"

definition makes_own :: "(nat \<rightharpoonup> nat option) \<Rightarrow> bool" where
  "makes_own m \<longleftrightarrow> (\<forall>c d. m c = Some (Some d) \<longrightarrow> c = d)"

definition open_ok :: "pool_entry \<Rightarrow> bool" where
  "open_ok e \<longleftrightarrow>
     close_state e = Not_closing \<and> \<not> force_closed e \<and> closing_promise e = None \<and>
     closing_dispatcher e = None \<and> to_destroy e = {} \<and> disposed e = {} \<and>
     creating e \<subseteq> set_option (dispatcher_promise e) \<and>
     (dispatcher e \<noteq> None \<longrightarrow> creating e = {}) \<and>
     creating e \<inter> dom (settled e) = {} \<and> makes_own (settled e) \<and>
     created (settled e) \<subseteq> set_option (dispatcher e)"

definition closed_ok :: "pool_entry \<Rightarrow> bool" where
  "closed_ok e \<longleftrightarrow>
     dispatcher e = None \<and> dispatcher_promise e = None \<and>
     (force_closed e \<or> close_state e \<noteq> Not_closing) \<and>
     (\<not> force_closed e \<longrightarrow> to_destroy e = {} \<and> claims e \<subseteq> set_option (closing_promise e)) \<and>
     creating e \<subseteq> claims e \<and>
     creating e \<inter> dom (settled e) = {} \<and> makes_own (settled e) \<and>
     created (settled e) \<subseteq> disposed e \<union> claims e"

definition dispatchers_ok :: "pool_entry \<Rightarrow> bool" where
  "dispatchers_ok e = (if entry_closed e then closed_ok e else open_ok e)"

lemma makes_own_settled: "makes_own m \<Longrightarrow> m c = Some (Some d) \<Longrightarrow> d = c"
  by (auto simp: makes_own_def)

lemma makes_own_upd [simp]:
  "makes_own m \<Longrightarrow> makes_own (m(c \<mapsto> Some c))" "makes_own m \<Longrightarrow> makes_own (m(c \<mapsto> None))"
  by (simp_all add: makes_own_def)

lemma created_upd [simp]:
  "created (m(c \<mapsto> Some c)) = insert c (created m)" "created (m(c \<mapsto> None)) = created m - {c}"
  by (auto simp: created_def)

lemma created_own: "makes_own m \<Longrightarrow> m c = Some (Some d) \<Longrightarrow> c \<in> created m"
  by (auto simp: created_def makes_own_def)

lemma dispatchers_ok_simps:
  "entry_closed e \<Longrightarrow> dispatchers_ok e = closed_ok e"
  "\<not> entry_closed e \<Longrightarrow> dispatchers_ok e = open_ok e"
  by (simp_all add: dispatchers_ok_def)

lemma claims_fields [simp]:
  "claims (e\<lparr>leases := a\<rparr>) = claims e" "claims (e\<lparr>slots_used := b\<rparr>) = claims e"
  "claims (e\<lparr>queue := q\<rparr>) = claims e" "claims (e\<lparr>last_used := b\<rparr>) = claims e"
  "claims (e\<lparr>idle_timer := t\<rparr>) = claims e" "claims (e\<lparr>failed_creation := t\<rparr>) = claims e"
  "claims (e\<lparr>dispatcher := d\<rparr>) = claims e" "claims (e\<lparr>dispatcher_promise := d\<rparr>) = claims e"
  "claims (e\<lparr>closing_dispatcher := d\<rparr>) = claims e" "claims (e\<lparr>closing_promise := d\<rparr>) = claims e"
  "claims (e\<lparr>creating := x\<rparr>) = claims e" "claims (e\<lparr>settled := y\<rparr>) = claims e"
  "claims (e\<lparr>disposed := x\<rparr>) = claims e"
  by (simp_all add: claims_def split: close_progress.split)

lemma leases_keep_dispatchers [simp]:
  "dispatchers_ok (e\<lparr>leases := a\<rparr>) = dispatchers_ok e"
  "dispatchers_ok (e\<lparr>slots_used := b\<rparr>) = dispatchers_ok e"
  "dispatchers_ok (e\<lparr>queue := q\<rparr>) = dispatchers_ok e"
  "dispatchers_ok (e\<lparr>last_used := b\<rparr>) = dispatchers_ok e"
  "dispatchers_ok (e\<lparr>idle_timer := t\<rparr>) = dispatchers_ok e"
  by (simp_all add: dispatchers_ok_def open_ok_def closed_ok_def)

lemma leases_ops_dispatchers [simp]:
  "dispatchers_ok (touch now e) = dispatchers_ok e"
  "dispatchers_ok (schedule_idle now e) = dispatchers_ok e"
  "dispatchers_ok (waiter_rejected err r e) = dispatchers_ok e"
  "dispatchers_ok (entry_acquire limits b now r e) = dispatchers_ok e"
  "dispatchers_ok (release_lease now r e) = dispatchers_ok e"
  by (simp_all add: touch_def schedule_idle_def waiter_rejected_def entry_acquire_def
      release_lease_def Let_def split: list.split)

lemma get_dispatcher_dispatchers:
  assumes ok: "dispatchers_ok e" and c: "c \<notin> creating e" "settled e c = None"
  shows "dispatchers_ok (snd (get_dispatcher c e))"
proof (cases "entry_closed e")
  case False
  then show ?thesis
    using assms
    by (cases "dispatcher e"; cases "dispatcher_promise e")
      (auto simp: get_dispatcher_def start_dispatcher_def dispatchers_ok_simps open_ok_def)
qed (use ok in \<open>simp add: get_dispatcher_def\<close>)

lemma creation_done_dispatchers:
  assumes ok: "dispatchers_ok e" and c: "c \<in> creating e"
  shows "dispatchers_ok (creation_done c e)"
proof (cases "entry_closed e")
  case True
  with ok c show ?thesis
    by (auto simp: creation_done_def dispatchers_ok_simps closed_ok_def)
next
  case False
  with ok have o: "open_ok e" by (simp add: dispatchers_ok_simps)
  have p: "creating e = {c}" "dispatcher e = None"
    using o c by (cases "dispatcher_promise e"; auto simp: open_ok_def)+
  from o p False show ?thesis
    by (auto simp: creation_done_def dispatchers_ok_simps open_ok_def)
qed

lemma creation_failed_dispatchers:
  assumes ok: "dispatchers_ok e" and c: "c \<in> creating e"
  shows "dispatchers_ok (creation_failed c e)"
proof (cases "entry_closed e")
  case True
  with ok show ?thesis by (auto simp: creation_failed_def dispatchers_ok_simps closed_ok_def)
next
  case False
  with ok show ?thesis by (auto simp: creation_failed_def dispatchers_ok_simps open_ok_def)
qed

lemma creation_finally_dispatchers:
  assumes ok: "dispatchers_ok e" and "settled e c \<noteq> None"
  shows "dispatchers_ok (creation_finally now c e)"
proof -
  have "dispatchers_ok (e\<lparr>dispatcher_promise := None\<rparr>)" if p: "dispatcher_promise e = Some c"
  proof (cases "entry_closed e")
    case False
    then have o: "open_ok e" using ok by (simp add: dispatchers_ok_simps)
    then have "creating e = {}" using assms(2) p by (auto simp: open_ok_def)
    with False o show ?thesis by (simp add: dispatchers_ok_simps open_ok_def)
  qed (use ok p in \<open>simp add: dispatchers_ok_simps closed_ok_def\<close>)
  then show ?thesis using ok by (simp add: creation_finally_def Let_def)
qed

lemma entry_close_dispatchers:
  assumes ok: "dispatchers_ok e"
  shows "dispatchers_ok (entry_close e)"
proof (cases "entry_closed e")
  case True
  with ok have c: "closed_ok e" by (simp add: dispatchers_ok_simps)
  show ?thesis
  proof (cases "close_state e = Not_closing")
    case new: True
    then have "force_closed e" "claims (e\<lparr>close_state := Closed_down\<rparr>) = claims e"
      using c by (auto simp: closed_ok_def claims_def)
    with True c new show ?thesis
      by (simp add: entry_close_def close_dispatcher_def dispatchers_ok_simps closed_ok_def)
  qed (use ok in \<open>simp add: entry_close_def\<close>)
next
  case False
  with ok have "open_ok e" by (simp add: dispatchers_ok_simps)
  with False show ?thesis
    by (cases "dispatcher e")
      (auto simp: entry_close_def close_dispatcher_def close_with_def reject_waiters_def
        dispatchers_ok_simps open_ok_def closed_ok_def claims_def Let_def)
qed

lemma close_with_dispatchers:
  assumes ok: "dispatchers_ok e" and await: "close_state e = Awaiting_creation p"
    and d: "awaited e p = Some d"
  shows "dispatchers_ok (close_with d e)"
proof -
  have cl: "entry_closed e" using ok await by (auto simp: dispatchers_ok_def open_ok_def split: if_splits)
  with ok have c: "closed_ok e" by (simp add: dispatchers_ok_simps)
  show ?thesis
  proof (cases "force_closed e")
    case True
    with c cl await show ?thesis
      by (cases d) (simp_all add: close_with_def dispatchers_ok_simps closed_ok_def claims_def Let_def)
  next
    case False
    have cases: "p = None \<and> d = None \<or> (\<exists>x. p = Some x \<and> x \<notin> creating e \<and> (d = None \<and> x \<notin> created (settled e) \<or> d = Some x))"
      using c d by (cases p; cases d) (auto simp: closed_ok_def created_def dest: makes_own_settled)
    have claims: "claims e = to_destroy e \<union> set_option p" using False await by (simp add: claims_def)
    have "creating e \<subseteq> to_destroy e" "created (settled e) \<subseteq> disposed e \<union> to_destroy e \<union> set_option d"
      using c cases claims by (auto simp: closed_ok_def)
    with c cl False show ?thesis
      by (cases d) (auto simp: close_with_def dispatchers_ok_simps closed_ok_def claims_def Let_def)
  qed
qed

lemma close_resume_dispatchers: "dispatchers_ok e \<Longrightarrow> dispatchers_ok (close_resume e)"
  by (simp add: close_resume_def close_with_dispatchers split: option.splits close_progress.splits)

lemma close_finished_dispatchers:
  assumes ok: "dispatchers_ok e"
  shows "dispatchers_ok (close_finished e)"
proof (cases "close_state e")
  case (Awaiting_close d)
  then have cl: "entry_closed e" using ok by (auto simp: dispatchers_ok_def open_ok_def split: if_splits)
  with ok Awaiting_close show ?thesis
    by (simp add: close_finished_def dispatchers_ok_simps closed_ok_def claims_def)
qed (use ok in \<open>simp_all add: close_finished_def\<close>)

lemma force_close_dispatchers:
  assumes ok: "dispatchers_ok e"
  shows "dispatchers_ok (force_close e)"
proof (cases "entry_closed e")
  case True
  with ok have c: "closed_ok e" by (simp add: dispatchers_ok_simps)
  have "claims e \<subseteq> to_destroy e \<union> set_option (closing_promise e)"
    using c by (cases "force_closed e") (auto simp: closed_ok_def claims_def split: close_progress.splits)
  moreover have "claims (force_close e) = to_destroy e \<union> set_option (closing_promise e)"
    using c by (auto simp: closed_ok_def claims_def force_close_def reject_waiters_def or_else_def
        Let_def split: close_progress.splits)
  ultimately have "claims e \<subseteq> claims (force_close e)" by simp
  moreover have "disposed e \<subseteq> disposed (force_close e)" "creating (force_close e) = creating e"
    "settled (force_close e) = settled e" "dispatcher (force_close e) = None"
    "dispatcher_promise (force_close e) = None" "force_closed (force_close e)"
    "entry_closed (force_close e)"
    by (auto simp: force_close_def reject_waiters_def Let_def)
  ultimately show ?thesis
    using c by (auto simp: dispatchers_ok_simps closed_ok_def)
next
  case False
  with ok have "open_ok e" by (simp add: dispatchers_ok_simps)
  then show ?thesis
    by (cases "dispatcher_promise e"; cases "dispatcher e")
      (auto simp: force_close_def reject_waiters_def or_else_def dispatchers_ok_simps open_ok_def
        closed_ok_def claims_def Let_def)
qed

lemma destroy_created_dispatchers:
  assumes ok: "dispatchers_ok e"
  shows "dispatchers_ok (destroy_created c e)"
proof (cases "c \<in> to_destroy e \<and> settled e c \<noteq> None")
  case True
  then obtain d where d: "settled e c = Some d" and c: "c \<in> to_destroy e" by auto
  have cl: "entry_closed e"
    using ok c by (auto simp: dispatchers_ok_def open_ok_def split: if_splits)
  with ok have cok: "closed_ok e" by (simp add: dispatchers_ok_simps)
  define f where "f = e\<lparr>disposed := disposed e \<union> set_option d, to_destroy := to_destroy e - {c}\<rparr>"
  have forced: "force_closed e" using cok c by (auto simp: closed_ok_def)
  have own: "created (settled e) \<subseteq> (- {c}) \<union> set_option d"
    using cok d by (cases d) (auto simp: closed_ok_def created_def dest: makes_own_settled)
  have claims: "claims e \<subseteq> claims f \<union> {c}" "c \<notin> creating e"
    using forced cok d by (auto simp: f_def claims_def closed_ok_def split: close_progress.splits)
  then have "creating e \<subseteq> claims f" "created (settled e) \<subseteq> disposed f \<union> claims f"
    using cok own unfolding closed_ok_def f_def by auto
  moreover have "force_closed f" "creating f = creating e" "settled f = settled e"
    "dispatcher f = dispatcher e" "dispatcher_promise f = dispatcher_promise e" "entry_closed f"
    using forced cl by (simp_all add: f_def)
  ultimately have "dispatchers_ok f" using cok by (simp add: dispatchers_ok_simps closed_ok_def)
  with c d show ?thesis by (simp add: destroy_created_def f_def)
qed (use ok in \<open>auto simp: destroy_created_def split: option.split\<close>)

lemma entry_perform_dispatchers:
  "dispatchers_ok e \<Longrightarrow> entry_enabled ev e \<Longrightarrow> dispatchers_ok (entry_perform limits ev e)"
  by (cases ev)
    (simp_all add: get_dispatcher_dispatchers creation_done_dispatchers creation_failed_dispatchers
      creation_finally_dispatchers entry_close_dispatchers close_resume_dispatchers
      close_finished_dispatchers force_close_dispatchers destroy_created_dispatchers)

lemma new_entry_dispatchers: "dispatchers_ok (new_entry now)"
  by (simp add: new_entry_def dispatchers_ok_def open_ok_def makes_own_def created_def)

interpretation dispatcher_run: step_invariant "new_entry now" "entry_step limits" dispatchers_ok
  for now limits
  by unfold_locales
    (auto simp: new_entry_dispatchers elim!: entry_stepE intro: entry_perform_dispatchers)

section \<open>Properties\<close>

lemma run_entry_events:
  "runs_ok entry_enabled (entry_perform limits) evs e \<Longrightarrow>
    (entry_step limits)\<^sup>*\<^sup>* e (run_all (entry_perform limits) evs e)"
  by (rule run_all_steps [of entry_enabled]) (auto intro: entry_step.event)

lemmas entry_eval = new_entry_def entry_acquire_def touch_def release_lease_def schedule_idle_def
  entry_idle_def waiter_rejected_def reject_waiters_def get_dispatcher_def start_dispatcher_def
  creation_done_def creation_failed_def creation_finally_def entry_close_def close_dispatcher_def
  close_with_def close_resume_def close_finished_def force_close_def destroy_created_def or_else_def

text \<open>C4: in every state an entry of the pool can reach, the slots in use are the leases given out and
  never more than \<open>connectionsPerEntry\<close>, the queue never exceeds \<open>maxWaitersPerEntry\<close>, a request
  waits only while every slot is in use, and nobody waits on a closed entry.\<close>

theorem pool_entry_accounting:
  assumes "(entry_step limits)\<^sup>*\<^sup>* (new_entry now) e"
  shows "slots_used e = card {r. leases e r = Some Leased} \<and> slots_used e \<le> connections limits \<and>
    length (queue e) \<le> max_waiters limits \<and> set (queue e) = {r. leases e r = Some Queued} \<and>
    (queue e \<noteq> [] \<longrightarrow> slots_used e = connections limits) \<and> (entry_closed e \<longrightarrow> queue e = [])"
  using slot_run.inv_reachable [OF assms]
  unfolding entry_ok_iff in_state_def by blast

lemma pool_entry_accounting_witness:
  "let e = run_all (entry_perform \<lparr>max_entries = 1, connections = 1, max_waiters = 1\<rparr>)
       [Acquire_lease False 0 0, Acquire_lease False 0 1, Acquire_lease False 0 2, Release_lease 1 0]
       (new_entry 0)
   in slots_used e = 1 \<and> leases e 2 = Some (Rejected Pool_saturated) \<and>
     slots_used e = card {r. leases e r = Some Leased}"
proof -
  let ?l = "\<lparr>max_entries = 1, connections = 1, max_waiters = 1\<rparr>"
  let ?evs = "[Acquire_lease False 0 0, Acquire_lease False 0 1, Acquire_lease False 0 2,
    Release_lease 1 0]"
  let ?e = "run_all (entry_perform ?l) ?evs (new_entry 0)"
  have "(entry_step ?l)\<^sup>*\<^sup>* (new_entry 0) ?e"
    by (rule run_entry_events) (simp add: entry_eval)
  note facts = pool_entry_accounting [OF this]
  have "slots_used ?e = 1" "leases ?e 2 = Some (Rejected Pool_saturated)"
    by (simp_all add: entry_eval)
  with facts show ?thesis unfolding Let_def by simp
qed

text \<open>C12: releasing a lease while requests wait hands the slot to the first of them without giving it
  back in between, and releasing the same lease again changes nothing.\<close>

theorem release_hands_over:
  assumes "(entry_step limits)\<^sup>*\<^sup>* (new_entry now) e"
    and "leases e r = Some Leased" and "queue e = w # ws"
  shows "let f = release_lease t r e in
    leases f w = Some Leased \<and> leases f r = Some Released \<and> queue f = ws \<and>
    slots_used f = slots_used e \<and> release_lease t' r f = f"
proof -
  have "w \<in> in_state Queued (leases e)"
    using entry_okD(4) [OF slot_run.inv_reachable [OF assms(1)]] assms(3)
    by (metis list.set_intros(1))
  then have "w \<noteq> r" using assms(2) by auto
  with assms(2,3) show ?thesis by (simp add: release_lease_def Let_def)
qed

lemma release_hands_over_witness:
  "let e = run_all (entry_perform \<lparr>max_entries = 1, connections = 1, max_waiters = 1\<rparr>)
       [Acquire_lease False 0 0, Acquire_lease False 0 1] (new_entry 0)
   in leases (release_lease 5 0 e) 1 = Some Leased"
proof -
  let ?l = "\<lparr>max_entries = 1, connections = 1, max_waiters = 1\<rparr>"
  let ?e = "run_all (entry_perform ?l) [Acquire_lease False 0 0, Acquire_lease False 0 1] (new_entry 0)"
  have "(entry_step ?l)\<^sup>*\<^sup>* (new_entry 0) ?e"
    by (rule run_entry_events) (simp add: entry_eval)
  moreover have "leases ?e 0 = Some Leased" "queue ?e = 1 # []" by (simp_all add: entry_eval)
  ultimately show ?thesis unfolding Let_def
    using release_hands_over [of ?l 0 ?e 0 1 "[]" 5] by (simp only: Let_def)
qed



text \<open>C29: closing an entry leaks no dispatcher. Once an entry is closed, whatever the order of
  \<open>close\<close>, \<open>forceClose\<close> and the factory's answers, and nothing is pending any more, every dispatcher
  its factory ever made has been closed or destroyed.\<close>

theorem closed_entry_leaks_nothing:
  assumes "(entry_step limits)\<^sup>*\<^sup>* (new_entry now) e"
    and "entry_closed e" and "to_destroy e = {}"
    and "force_closed e \<or> (\<forall>p. close_state e \<noteq> Awaiting_creation p)"
  shows "{c. settled e c = Some (Some c)} \<subseteq> disposed e \<and> creating e = {} \<and> dispatcher e = None"
proof -
  have "closed_ok e"
    using dispatcher_run.inv_reachable [OF assms(1)] assms(2) by (simp add: dispatchers_ok_simps)
  moreover have "claims e = {}"
    using assms(3,4) by (auto simp: claims_def split: close_progress.split)
  ultimately show ?thesis by (simp add: closed_ok_def created_def)
qed

lemma closed_entry_leaks_nothing_witness:
  "let e = run_all (entry_perform \<lparr>max_entries = 1, connections = 1, max_waiters = 1\<rparr>)
       [Acquire_lease False 0 0, Get_dispatcher 7, Close_entry, Force_close, Creation_done 7,
        Close_resume, Destroy_created 7] (new_entry 0)
   in settled e 7 = Some (Some 7) \<and> {c. settled e c = Some (Some c)} \<subseteq> disposed e"
proof -
  let ?l = "\<lparr>max_entries = 1, connections = 1, max_waiters = 1\<rparr>"
  let ?e = "run_all (entry_perform ?l)
    [Acquire_lease False 0 0, Get_dispatcher 7, Close_entry, Force_close, Creation_done 7,
     Close_resume, Destroy_created 7] (new_entry 0)"
  have "(entry_step ?l)\<^sup>*\<^sup>* (new_entry 0) ?e"
    by (rule run_entry_events) (simp add: entry_eval)
  moreover have "entry_closed ?e" "to_destroy ?e = {}" "force_closed ?e" "settled ?e 7 = Some (Some 7)"
    by (simp_all add: entry_eval)
  ultimately show ?thesis unfolding Let_def
    using closed_entry_leaks_nothing [of ?l 0 ?e] by blast
qed

end
