(* ===== verification/Inference_Pool.thy ===== *)
theory Inference_Pool
  imports Pool_Entry
begin

text \<open>
  The model of the class \<open>BoundedInferencePoolRegistry\<close> of \<open>src/src/copilot/inference_pool.ts\<close>: the
  map from connection profiles to pool entries, bounded by \<open>maxEntries\<close>, its eviction of idle
  entries, and its shutdown. Entries are numbered as they are created; the map keeps insertion order.
  An entry that has left both the map and the draining set is still in \<open>pool\<close>, as requests that
  hold or wait for its leases still refer to it.
\<close>

section \<open>Connection profiles\<close>

definition profile_key :: "string \<Rightarrow> nat \<Rightarrow> string" where
  "profile_key origin connect_timeout = origin @ char_of (10::nat) # decimal connect_timeout"

lemma decimal_no_newline: "char_of (10::nat) \<notin> set (decimal n)"
proof (induction n rule: decimal.induct)
  case (1 n)
  then show ?case by (subst decimal.simps) (auto simp: char_of_inj)
qed

lemma last_newline_unique:
  "x \<notin> set b \<Longrightarrow> x \<notin> set d \<Longrightarrow> a @ x # b = c @ x # d \<Longrightarrow> a = c \<and> b = d"
proof (induction a arbitrary: c)
  case Nil
  then show ?case by (cases c) auto
next
  case (Cons y a)
  then show ?case by (cases c) auto
qed

section \<open>State\<close>

record registry =
  reg_entries :: "(string \<times> nat) list"
  draining :: "nat set"
  reg_closed :: bool
  pool :: "nat \<rightharpoonup> string \<times> pool_entry"
  next_entry :: nat

definition new_registry :: registry where
  "new_registry =
     \<lparr>reg_entries = [], draining = {}, reg_closed = False, pool = Map.empty, next_entry = 0\<rparr>"

text \<open>A call of a method of entry \<open>i\<close>.\<close>

definition on_entry :: "nat \<Rightarrow> (pool_entry \<Rightarrow> pool_entry) \<Rightarrow> registry \<Rightarrow> registry" where
  "on_entry i f g =
     (case pool g i of
        None \<Rightarrow> g
      | Some (k, e) \<Rightarrow> g\<lparr>pool := (pool g)(i \<mapsto> (k, f e))\<rparr>)"

definition on_entries :: "nat list \<Rightarrow> (pool_entry \<Rightarrow> pool_entry) \<Rightarrow> registry \<Rightarrow> registry" where
  "on_entries is f g = fold (\<lambda>i. on_entry i f) is g"

definition registered :: "nat \<Rightarrow> registry \<Rightarrow> bool" where
  "registered i g = (i \<in> snd ` set (reg_entries g))"

definition delete_entry :: "nat \<Rightarrow> registry \<Rightarrow> registry" where
  "delete_entry i g = g\<lparr>reg_entries := filter (\<lambda>(k, j). j \<noteq> i) (reg_entries g)\<rparr>"

section \<open>Operations\<close>

text \<open>The first segment of \<open>beginDraining\<close>, and its two ends.\<close>

definition begin_draining :: "nat \<Rightarrow> registry \<Rightarrow> registry" where
  "begin_draining i g = on_entry i entry_close (g\<lparr>draining := insert i (draining g)\<rparr>)"

definition drained :: "nat \<Rightarrow> registry \<Rightarrow> registry" where
  "drained i g = g\<lparr>draining := draining g - {i}\<rparr>"

definition drain_forced :: "nat \<Rightarrow> registry \<Rightarrow> registry" where
  "drain_forced i g = on_entry i force_close g"

text \<open>The idle entry that was used longest ago, the first one of several.\<close>

fun oldest_idle :: "(string \<times> nat) list \<Rightarrow> registry \<Rightarrow> (nat \<times> nat) option" where
  "oldest_idle [] g = None"
| "oldest_idle ((k, i) # es) g =
     (let rest = oldest_idle es g
      in case pool g i of
           None \<Rightarrow> rest
         | Some (_, e) \<Rightarrow>
             if entry_idle e then
               (case rest of
                  Some (t, j) \<Rightarrow> if t < last_used e then Some (t, j) else Some (last_used e, i)
                | None \<Rightarrow> Some (last_used e, i))
             else rest)"

datatype entry_answer = Use_entry nat | Drain_first nat | Refuse_entry pool_error

text \<open>One iteration of the loop of \<open>entryFor\<close>. After \<open>Drain_first\<close> the code awaits the end of the
  drain and then iterates again.\<close>

definition entry_for :: "pool_limits \<Rightarrow> bool \<Rightarrow> nat \<Rightarrow> string \<Rightarrow> registry \<Rightarrow> entry_answer \<times> registry" where
  "entry_for limits aborted now key g =
     (if aborted then (Refuse_entry Signal_aborted, g)
      else if reg_closed g then (Refuse_entry Pool_closed, g)
      else case map_of (reg_entries g) key of
        Some i \<Rightarrow> (Use_entry i, on_entry i (touch now) g)
      | None \<Rightarrow>
          if length (reg_entries g) + card (draining g) < max_entries limits then
            (Use_entry (next_entry g),
             g\<lparr>reg_entries := reg_entries g @ [(key, next_entry g)],
               pool := (pool g)(next_entry g \<mapsto> (key, new_entry now)),
               next_entry := next_entry g + 1\<rparr>)
          else case oldest_idle (reg_entries g) g of
            None \<Rightarrow> (Refuse_entry Pool_saturated, g)
          | Some (_, i) \<Rightarrow> (Drain_first i, begin_draining i (delete_entry i g)))"

text \<open>The end of \<open>acquire\<close>'s \<open>catch\<close>, after its \<open>release\<close>.\<close>

definition drop_failed :: "nat \<Rightarrow> registry \<Rightarrow> registry" where
  "drop_failed i g =
     (case pool g i of
        None \<Rightarrow> g
      | Some (_, e) \<Rightarrow> if failed_creation e \<and> registered i g then delete_entry i g else g)"

text \<open>The callback of an entry's idle timer.\<close>

definition evict_idle :: "nat \<Rightarrow> registry \<Rightarrow> registry" where
  "evict_idle i g =
     (case pool g i of
        None \<Rightarrow> g
      | Some (_, e) \<Rightarrow>
          if reg_closed g \<or> \<not> registered i g \<or> \<not> entry_idle e then g
          else begin_draining i (delete_entry i g))"

text \<open>\<open>closeEntries\<close>: its first segment, and what follows when the grace period ran out or every
  entry closed. The \<open>entries\<close> it captured are the ones draining since.\<close>

definition open_entries :: "registry \<Rightarrow> nat list" where
  "open_entries g = map snd (reg_entries g) @ sorted_list_of_set (draining g)"

definition close_registry :: "registry \<Rightarrow> registry" where
  "close_registry g =
     (if reg_closed g \<and> reg_entries g = [] \<and> draining g = {} then g
      else on_entries (open_entries g) entry_close
             (g\<lparr>reg_closed := True, reg_entries := [], draining := set (open_entries g)\<rparr>))"

definition close_timed_out :: "nat list \<Rightarrow> registry \<Rightarrow> registry" where
  "close_timed_out is g = (on_entries is force_close g)\<lparr>draining := {}\<rparr>"

definition close_completed :: "registry \<Rightarrow> registry" where
  "close_completed g = g\<lparr>draining := {}\<rparr>"

definition force_close_registry :: "registry \<Rightarrow> registry" where
  "force_close_registry g =
     on_entries (open_entries g) force_close
       (g\<lparr>reg_closed := True, reg_entries := [], draining := {}\<rparr>)"

record inspection =
  seen_entries :: nat
  seen_active :: nat
  seen_waiters :: nat
  seen_initializing :: nat
  seen_draining :: nat

definition inspect_pool :: "registry \<Rightarrow> inspection" where
  "inspect_pool g =
     (let es = map snd (List.map_filter (pool g) (open_entries g))
      in \<lparr>seen_entries = length (open_entries g),
          seen_active = sum_list (map slots_used es),
          seen_waiters = sum_list (map (\<lambda>e. length (queue e)) es),
          seen_initializing = length (filter initializing es),
          seen_draining = card (draining g)\<rparr>)"

section \<open>Runs\<close>

datatype registry_event =
    Entry_for bool nat string
  | In_entry nat entry_event
  | Drop_failed nat
  | Evict_idle nat
  | Drained nat
  | Drain_forced nat
  | Close_registry
  | Close_timed_out "nat list"
  | Close_completed
  | Force_close_registry

fun request_event :: "entry_event \<Rightarrow> bool" where
  "request_event Close_entry = False"
| "request_event Force_close = False"
| "request_event _ = True"

fun registry_enabled :: "registry_event \<Rightarrow> registry \<Rightarrow> bool" where
  "registry_enabled (In_entry i ev) g =
     (case pool g i of None \<Rightarrow> False | Some (_, e) \<Rightarrow> request_event ev \<and> entry_enabled ev e)"
| "registry_enabled (Drain_forced i) g = (\<not> registered i g)"
| "registry_enabled (Close_timed_out is) g = reg_closed g"
| "registry_enabled Close_completed g = reg_closed g"
| "registry_enabled _ g = True"

fun registry_perform :: "pool_limits \<Rightarrow> registry_event \<Rightarrow> registry \<Rightarrow> registry" where
  "registry_perform limits (Entry_for b now key) g = snd (entry_for limits b now key g)"
| "registry_perform limits (In_entry i ev) g = on_entry i (entry_perform limits ev) g"
| "registry_perform limits (Drop_failed i) g = drop_failed i g"
| "registry_perform limits (Evict_idle i) g = evict_idle i g"
| "registry_perform limits (Drained i) g = drained i g"
| "registry_perform limits (Drain_forced i) g = drain_forced i g"
| "registry_perform limits Close_registry g = close_registry g"
| "registry_perform limits (Close_timed_out is) g = close_timed_out is g"
| "registry_perform limits Close_completed g = close_completed g"
| "registry_perform limits Force_close_registry g = force_close_registry g"

inductive registry_step :: "pool_limits \<Rightarrow> registry \<Rightarrow> registry \<Rightarrow> bool" for limits where
  event: "registry_enabled ev g \<Longrightarrow> registry_step limits g (registry_perform limits ev g)"

inductive_cases registry_stepE: "registry_step limits g h"

section \<open>The registry invariant\<close>

text \<open>The map and the draining set: bounded, disjoint, one entry for a key, keys as created.\<close>

definition shape_ok :: "pool_limits \<Rightarrow> registry \<Rightarrow> bool" where
  "shape_ok limits g \<longleftrightarrow>
     distinct (map fst (reg_entries g)) \<and> distinct (map snd (reg_entries g)) \<and>
     finite (draining g) \<and> snd ` set (reg_entries g) \<inter> draining g = {} \<and>
     length (reg_entries g) + card (draining g) \<le> max_entries limits \<and>
     (\<forall>i \<in> snd ` set (reg_entries g) \<union> draining g. i < next_entry g) \<and>
     (reg_closed g \<longrightarrow> reg_entries g = [])"

definition good_entry :: "pool_limits \<Rightarrow> pool_entry \<Rightarrow> bool" where
  "good_entry limits e \<longleftrightarrow> entry_ok limits e \<and> dispatchers_ok e"

definition holds_open :: "(nat \<rightharpoonup> string \<times> pool_entry) \<Rightarrow> string \<times> nat \<Rightarrow> bool" where
  "holds_open p = (\<lambda>(k, i). \<exists>e. p i = Some (k, e) \<and> \<not> entry_closed e)"

definition all_good :: "pool_limits \<Rightarrow> registry \<Rightarrow> bool" where
  "all_good limits g \<longleftrightarrow>
     (\<forall>i k e. pool g i = Some (k, e) \<longrightarrow> good_entry limits e \<and> i < next_entry g)"

definition pool_ok :: "pool_limits \<Rightarrow> registry \<Rightarrow> bool" where
  "pool_ok limits g \<longleftrightarrow>
     all_good limits g \<and> (\<forall>x \<in> set (reg_entries g). holds_open (pool g) x)"

definition registry_ok :: "pool_limits \<Rightarrow> registry \<Rightarrow> bool" where
  "registry_ok limits g \<longleftrightarrow> shape_ok limits g \<and> pool_ok limits g"

lemma on_entry_fields [simp]:
  "reg_entries (on_entry i f g) = reg_entries g" "draining (on_entry i f g) = draining g"
  "reg_closed (on_entry i f g) = reg_closed g" "next_entry (on_entry i f g) = next_entry g"
  by (simp_all add: on_entry_def split: option.split)

lemma on_entry_pool:
  "pool (on_entry i f g) j = (if j = i then map_option (\<lambda>(k, e). (k, f e)) (pool g j) else pool g j)"
  by (auto simp: on_entry_def split: option.split)

lemma on_entries_fields [simp]:
  "reg_entries (on_entries is f g) = reg_entries g" "draining (on_entries is f g) = draining g"
  "reg_closed (on_entries is f g) = reg_closed g" "next_entry (on_entries is f g) = next_entry g"
  unfolding on_entries_def by (induction "is" arbitrary: g) simp_all

lemma shape_ok_on_entry [simp]:
  "shape_ok limits (on_entry i f g) = shape_ok limits g"
  "shape_ok limits (on_entries is f g) = shape_ok limits g"
  by (simp_all add: shape_ok_def)

lemma all_goodD: "all_good limits g \<Longrightarrow> pool g i = Some (k, e) \<Longrightarrow> good_entry limits e"
  by (simp add: all_good_def)

lemma all_good_on_entry:
  assumes "all_good limits g"
    and "\<And>k e. pool g i = Some (k, e) \<Longrightarrow> good_entry limits e \<Longrightarrow> good_entry limits (f e)"
  shows "all_good limits (on_entry i f g)"
  unfolding all_good_def
proof (intro allI impI)
  fix j k e
  assume j: "pool (on_entry i f g) j = Some (k, e)"
  show "good_entry limits e \<and> j < next_entry (on_entry i f g)"
  proof (cases "j = i")
    case True
    then obtain e' where "pool g i = Some (k, e')" "e = f e'"
      using j by (auto simp: on_entry_pool)
    then show ?thesis using True assms by (auto simp: all_good_def)
  qed (use j assms(1) in \<open>simp add: on_entry_pool all_good_def\<close>)
qed

lemma pool_ok_on_entry:
  assumes ok: "pool_ok limits g"
    and good: "\<And>k e. pool g i = Some (k, e) \<Longrightarrow> good_entry limits e \<Longrightarrow> good_entry limits (f e)"
    and keep: "\<And>k e. registered i g \<Longrightarrow> pool g i = Some (k, e) \<Longrightarrow> \<not> entry_closed e \<Longrightarrow>
      \<not> entry_closed (f e)"
  shows "pool_ok limits (on_entry i f g)"
proof -
  have "holds_open (pool (on_entry i f g)) x" if x: "x \<in> set (reg_entries g)" for x
  proof -
    obtain k j where kj: "x = (k, j)" by force
    obtain e where e: "pool g j = Some (k, e)" "\<not> entry_closed e"
      using ok x kj by (auto simp: pool_ok_def holds_open_def)
    have "registered j g" using x kj by (force simp: registered_def)
    then show ?thesis using e keep kj by (auto simp: holds_open_def on_entry_pool)
  qed
  then show ?thesis
    using ok all_good_on_entry [of limits g i f] good by (simp add: pool_ok_def)
qed

lemma all_good_on_entries:
  assumes "all_good limits g" and "\<And>e. good_entry limits e \<Longrightarrow> good_entry limits (f e)"
  shows "all_good limits (on_entries is f g)"
  using assms(1) unfolding on_entries_def
proof (induction "is" arbitrary: g)
  case (Cons i "is")
  then have "all_good limits (on_entry i f g)" using all_good_on_entry assms(2) by blast
  with Cons show ?case by simp
qed simp

lemma pool_ok_on_entries:
  assumes "pool_ok limits g" and "\<And>e. good_entry limits e \<Longrightarrow> good_entry limits (f e)"
    and "reg_entries g = []"
  shows "pool_ok limits (on_entries is f g)"
  using assms all_good_on_entries [of limits g f] by (simp add: pool_ok_def)

lemma entry_close_good: "good_entry limits e \<Longrightarrow> good_entry limits (entry_close e)"
  using entry_perform_ok [of limits e Close_entry] entry_close_dispatchers
  by (simp add: good_entry_def)

lemma force_close_good: "good_entry limits e \<Longrightarrow> good_entry limits (force_close e)"
  using entry_perform_ok [of limits e Force_close] force_close_dispatchers
  by (simp add: good_entry_def)

lemma touch_good: "good_entry limits e \<Longrightarrow> good_entry limits (touch now e)"
  by (simp add: good_entry_def)

lemma new_entry_good: "good_entry limits (new_entry now)"
  by (simp add: good_entry_def new_entry_ok new_entry_dispatchers)

lemma delete_entry_ok:
  assumes ok: "registry_ok limits g"
  shows "registry_ok limits (delete_entry i g)" and "i \<notin> snd ` set (reg_entries (delete_entry i g))"
    and "i \<in> snd ` set (reg_entries g) \<Longrightarrow>
      length (reg_entries (delete_entry i g)) < length (reg_entries g)"
proof -
  let ?p = "\<lambda>(k :: string, j). j \<noteq> i"
  have "length (filter ?p (reg_entries g)) \<le> length (reg_entries g)" by (rule length_filter_le)
  then have "length (filter ?p (reg_entries g)) + card (draining g) \<le> max_entries limits"
    using ok unfolding registry_ok_def shape_ok_def by linarith
  with ok have "shape_ok limits (delete_entry i g)"
    by (auto simp: registry_ok_def shape_ok_def delete_entry_def distinct_map_filter)
  moreover have "pool_ok limits (delete_entry i g)"
    using ok by (simp add: registry_ok_def pool_ok_def all_good_def delete_entry_def)
  ultimately show "registry_ok limits (delete_entry i g)" by (simp add: registry_ok_def)
  show "i \<notin> snd ` set (reg_entries (delete_entry i g))" by (auto simp: delete_entry_def)
  assume "i \<in> snd ` set (reg_entries g)"
  then obtain x where "x \<in> set (reg_entries g)" "\<not> ?p x" by auto
  then show "length (reg_entries (delete_entry i g)) < length (reg_entries g)"
    unfolding delete_entry_def by (simp add: length_filter_less)
qed

lemma begin_draining_ok:
  assumes ok: "registry_ok limits g" and i: "i \<in> snd ` set (reg_entries g)"
  shows "registry_ok limits (begin_draining i (delete_entry i g))"
proof -
  let ?d = "delete_entry i g"
  note d = delete_entry_ok [OF ok, of i]
  have same: "draining ?d = draining g" "next_entry ?d = next_entry g" "reg_closed ?d = reg_closed g"
    by (simp_all add: delete_entry_def)
  have "i \<notin> draining g" "i < next_entry g" using ok i by (auto simp: registry_ok_def shape_ok_def)
  let ?h = "?d\<lparr>draining := insert i (draining ?d)\<rparr>"
  have shape: "shape_ok limits ?d" and pool: "pool_ok limits ?d"
    using d(1) by (simp_all add: registry_ok_def)
  have le: "length (reg_entries g) + card (draining g) \<le> max_entries limits" "finite (draining g)"
    using ok by (simp_all add: registry_ok_def shape_ok_def)
  have "length (reg_entries ?d) + card (insert i (draining g)) \<le> max_entries limits"
    using le d(3) [OF i] \<open>i \<notin> draining g\<close> by simp
  then have "shape_ok limits ?h"
    using shape d(2) \<open>i < next_entry g\<close> same by (simp add: shape_ok_def)
  moreover have "pool_ok limits (on_entry i entry_close ?h)"
  proof (rule pool_ok_on_entry)
    show "pool_ok limits ?h" using pool by (simp add: pool_ok_def all_good_def)
    show "registered i ?h \<Longrightarrow> \<not> entry_closed (entry_close e)" for e
      using d(2) by (simp add: registered_def)
  qed (rule entry_close_good)
  ultimately show ?thesis by (simp add: begin_draining_def registry_ok_def)
qed

lemma oldest_idle_entry: "oldest_idle es g = Some (t, i) \<Longrightarrow> i \<in> snd ` set es"
  by (induction es g arbitrary: t i rule: oldest_idle.induct)
    (auto simp: Let_def image_iff split: option.splits if_splits)

lemma slots_closed: "slots_of f = slots_of e \<Longrightarrow> entry_closed f = entry_closed e"
  by (simp add: slots_of_def)

lemma creation_keeps_open:
  "entry_closed (snd (get_dispatcher c e)) = entry_closed e"
  "entry_closed (creation_done c e) = entry_closed e"
  "entry_closed (creation_failed c e) = entry_closed e"
  "entry_closed (creation_finally now c e) = entry_closed e"
  "entry_closed (close_finished e) = entry_closed e"
  "entry_closed (destroy_created c e) = entry_closed e"
  "entry_closed (touch now e) = entry_closed e" "entry_closed (close_resume e) = entry_closed e"
  by (rule slots_closed, simp)+

lemma registered_touch:
  assumes "registry_ok limits g"
  shows "registry_ok limits (on_entry i (touch now) g)"
proof -
  have "pool_ok limits (on_entry i (touch now) g)"
    by (rule pool_ok_on_entry)
      (use assms in \<open>simp_all add: registry_ok_def touch_good creation_keeps_open\<close>)
  with assms show ?thesis by (simp add: registry_ok_def)
qed

lemma create_entry_ok:
  assumes ok: "registry_ok limits g" and "\<not> reg_closed g" and "map_of (reg_entries g) key = None"
    and room: "length (reg_entries g) + card (draining g) < max_entries limits"
  shows "registry_ok limits (g\<lparr>reg_entries := reg_entries g @ [(key, next_entry g)],
    pool := (pool g)(next_entry g \<mapsto> (key, new_entry now)), next_entry := next_entry g + 1\<rparr>)"
    (is "registry_ok limits ?h")
proof -
  let ?n = "next_entry g"
  have shape: "shape_ok limits g" and pool: "pool_ok limits g"
    using ok by (simp_all add: registry_ok_def)
  have old: "\<forall>i \<in> snd ` set (reg_entries g) \<union> draining g. i < ?n"
    using shape by (simp add: shape_ok_def)
  then have new: "?n \<notin> snd ` set (reg_entries g)" "?n \<notin> draining g" by blast+
  have below: "\<forall>i \<in> snd ` set (reg_entries g) \<union> draining g. i < Suc ?n"
    using old less_SucI by blast
  have "key \<notin> fst ` set (reg_entries g)" using assms(3) by (simp add: map_of_eq_None_iff)
  with shape new below room assms(2) have "shape_ok limits ?h"
    by (simp add: shape_ok_def)
  moreover have "all_good limits ?h"
    using pool new_entry_good [of limits now]
    by (auto simp: pool_ok_def all_good_def intro: less_SucI)
  moreover have "holds_open (pool ?h) x" if "x \<in> set (reg_entries ?h)" for x
  proof (cases "x = (key, ?n)")
    case False
    then have x: "x \<in> set (reg_entries g)" using that by auto
    then have "snd x \<noteq> ?n" using new by force
    with x pool show ?thesis by (auto simp: pool_ok_def holds_open_def)
  qed (simp add: holds_open_def new_entry_def)
  ultimately show ?thesis by (simp add: registry_ok_def pool_ok_def)
qed

lemma entry_for_ok:
  assumes ok: "registry_ok limits g"
  shows "registry_ok limits (snd (entry_for limits b now key g))"
proof -
  have "registry_ok limits (begin_draining i (delete_entry i g))"
    if "oldest_idle (reg_entries g) g = Some (t, i)" for t i
    using that by (intro begin_draining_ok [OF ok] oldest_idle_entry)
  with ok create_entry_ok [OF ok] show ?thesis
    by (simp add: entry_for_def registered_touch split: option.split)
qed

lemma lease_keeps_open:
  "entry_closed (entry_acquire limits b now r e) = entry_closed e"
  "entry_closed (waiter_rejected err r e) = entry_closed e"
  "entry_closed (release_lease now r e) = entry_closed e"
  by (simp_all add: entry_acquire_def waiter_rejected_def release_lease_def touch_def Let_def
      split: list.split)

lemma request_event_keeps_open:
  "request_event ev \<Longrightarrow> entry_closed (entry_perform limits ev e) = entry_closed e"
  by (cases ev) (simp_all add: creation_keeps_open lease_keeps_open)

lemma in_entry_ok:
  assumes ok: "registry_ok limits g" and en: "registry_enabled (In_entry i ev) g"
  shows "registry_ok limits (on_entry i (entry_perform limits ev) g)"
proof -
  obtain k e where e: "pool g i = Some (k, e)" "request_event ev" "entry_enabled ev e"
    using en by (auto split: option.splits)
  then have "good_entry limits e" using ok by (auto simp: registry_ok_def pool_ok_def all_good_def)
  then have "good_entry limits (entry_perform limits ev e)"
    using e by (simp add: good_entry_def entry_perform_ok entry_perform_dispatchers)
  moreover have "pool_ok limits g" using ok by (simp add: registry_ok_def)
  ultimately have "pool_ok limits (on_entry i (entry_perform limits ev) g)"
    by (intro pool_ok_on_entry) (simp_all add: e(1) request_event_keeps_open [OF e(2)])
  with ok show ?thesis by (simp add: registry_ok_def)
qed

lemma close_registry_ok:
  assumes ok: "registry_ok limits g"
  shows "registry_ok limits (close_registry g)"
proof -
  have "length (map snd (reg_entries g)) = card (snd ` set (reg_entries g))"
    using ok by (metis distinct_card list.set_map registry_ok_def shape_ok_def)
  then have "card (set (open_entries g)) \<le> max_entries limits"
    using ok by (simp add: registry_ok_def shape_ok_def open_entries_def card_Un_disjoint)
  then have "shape_ok limits (g\<lparr>reg_closed := True, reg_entries := [], draining := set (open_entries g)\<rparr>)"
    using ok by (auto simp: registry_ok_def shape_ok_def open_entries_def)
  moreover have "pool_ok limits (g\<lparr>reg_closed := True, reg_entries := [], draining := set (open_entries g)\<rparr>)"
    using ok by (simp add: registry_ok_def pool_ok_def all_good_def)
  ultimately show ?thesis
    using ok by (simp add: close_registry_def registry_ok_def pool_ok_on_entries entry_close_good)
qed

lemma force_close_registry_ok:
  assumes ok: "registry_ok limits g"
  shows "registry_ok limits (force_close_registry g)"
proof -
  let ?h = "g\<lparr>reg_closed := True, reg_entries := [], draining := {}\<rparr>"
  have "shape_ok limits ?h" "pool_ok limits ?h" "reg_entries ?h = []"
    using ok by (auto simp: registry_ok_def shape_ok_def pool_ok_def all_good_def)
  then show ?thesis
    unfolding force_close_registry_def registry_ok_def
    by (simp only: shape_ok_on_entry) (simp add: pool_ok_on_entries force_close_good)
qed

lemma close_timed_out_ok:
  assumes ok: "registry_ok limits g" and "reg_closed g"
  shows "registry_ok limits (close_timed_out is g)"
proof -
  have empty: "reg_entries g = []" using assms by (simp add: registry_ok_def shape_ok_def)
  then have "pool_ok limits (on_entries is force_close g)"
    using ok by (intro pool_ok_on_entries force_close_good) (simp_all add: registry_ok_def)
  then show ?thesis
    using ok empty by (simp add: close_timed_out_def registry_ok_def shape_ok_def pool_ok_def all_good_def)
qed

lemma drain_forced_ok:
  assumes ok: "registry_ok limits g" and "\<not> registered i g"
  shows "registry_ok limits (drain_forced i g)"
proof -
  have "pool_ok limits (on_entry i force_close g)"
    by (rule pool_ok_on_entry) (use assms in \<open>simp_all add: registry_ok_def force_close_good\<close>)
  with ok show ?thesis by (simp add: drain_forced_def registry_ok_def)
qed

lemma drained_ok: "registry_ok limits g \<Longrightarrow> registry_ok limits (drained i g)"
  by (auto simp: drained_def registry_ok_def shape_ok_def pool_ok_def all_good_def
      card_Diff_singleton_if)

lemma registry_perform_ok:
  assumes ok: "registry_ok limits g" and en: "registry_enabled ev g"
  shows "registry_ok limits (registry_perform limits ev g)"
proof (cases ev)
  case (In_entry i e)
  then show ?thesis using in_entry_ok [OF ok] en by simp
next
  case (Drop_failed i)
  then show ?thesis using ok by (simp add: drop_failed_def delete_entry_ok(1) split: option.split)
next
  case (Evict_idle i)
  then show ?thesis
    using ok by (simp add: evict_idle_def registered_def begin_draining_ok split: option.split)
next
  case Close_completed
  then show ?thesis
    using ok by (simp add: close_completed_def registry_ok_def shape_ok_def pool_ok_def all_good_def)
qed (use ok en in \<open>simp_all add: entry_for_ok drained_ok drain_forced_ok close_registry_ok
    close_timed_out_ok force_close_registry_ok\<close>)

lemma new_registry_ok: "registry_ok limits new_registry"
  by (simp add: new_registry_def registry_ok_def shape_ok_def pool_ok_def all_good_def)

interpretation registry_run: step_invariant new_registry "registry_step limits" "registry_ok limits"
  for limits
  by unfold_locales (auto simp: new_registry_ok elim!: registry_stepE intro: registry_perform_ok)

section \<open>Properties\<close>

lemma run_registry_events:
  "runs_ok registry_enabled (registry_perform limits) evs g \<Longrightarrow>
    (registry_step limits)\<^sup>*\<^sup>* g (run_all (registry_perform limits) evs g)"
  by (rule run_all_steps [of registry_enabled]) (auto intro: registry_step.event)

lemmas registry_eval = new_registry_def entry_for_def on_entry_def drop_failed_def evict_idle_def
  delete_entry_def begin_draining_def registered_def close_registry_def open_entries_def
  on_entries_def

text \<open>C40: two connection profiles share a pool entry only if they are the same profile: the key
  determines the origin and the connect timeout.\<close>

theorem profile_key_unique: "profile_key origin t = profile_key origin' t' \<longleftrightarrow> origin = origin' \<and> t = t'"
  unfolding profile_key_def
  by (auto dest!: last_newline_unique [OF decimal_no_newline decimal_no_newline] decimal_inj)

text \<open>C30: the registry never keeps more than \<open>maxEntries\<close> entries, draining ones included, keeps one
  entry for a profile, and a request that is given an entry is given one that is open and was made
  for its profile.\<close>

theorem registry_bounds:
  assumes "(registry_step limits)\<^sup>*\<^sup>* new_registry g"
  shows "length (reg_entries g) + card (draining g) \<le> max_entries limits \<and>
    distinct (map fst (reg_entries g)) \<and>
    (\<forall>i h. entry_for limits b now key g = (Use_entry i, h) \<longrightarrow>
      (\<exists>e. pool h i = Some (key, e) \<and> \<not> entry_closed e \<and> (key, i) \<in> set (reg_entries h)))"
proof -
  have ok: "registry_ok limits g" by (rule registry_run.inv_reachable [OF assms])
  have "holds_open (pool h) (key, i) \<and> (key, i) \<in> set (reg_entries h)"
    if "entry_for limits b now key g = (Use_entry i, h)" for i h
  proof -
    have "(key, i) \<in> set (reg_entries h)"
      using that by (auto simp: entry_for_def dest: map_of_SomeD split: if_splits option.splits)
    moreover have "registry_ok limits h" using entry_for_ok [OF ok, of b now key] that by simp
    ultimately show ?thesis by (simp add: registry_ok_def pool_ok_def)
  qed
  then show ?thesis using ok by (auto simp: registry_ok_def shape_ok_def holds_open_def)
qed

lemma registry_bounds_witness:
  "let g = run_all (registry_perform \<lparr>max_entries = 1, connections = 1, max_waiters = 1\<rparr>)
       [Entry_for False 0 ''a'', Entry_for False 1 ''b'', Drained 0, Entry_for False 2 ''b'']
       new_registry
   in reg_entries g = [(''b'', 1)] \<and> length (reg_entries g) + card (draining g) \<le> 1"
proof -
  let ?l = "\<lparr>max_entries = 1, connections = 1, max_waiters = 1\<rparr>"
  let ?g = "run_all (registry_perform ?l)
    [Entry_for False 0 ''a'', Entry_for False 1 ''b'', Drained 0, Entry_for False 2 ''b''] new_registry"
  have "(registry_step ?l)\<^sup>*\<^sup>* new_registry ?g"
    by (rule run_registry_events) (simp add: registry_eval)
  note facts = registry_bounds [OF this]
  have "reg_entries ?g = [(''b'', 1)]"
    by (simp add: registry_eval entry_eval drained_def)
  with facts show ?thesis unfolding Let_def by simp
qed

text \<open>C37: an entry whose dispatcher could not be created is dropped from the map, not closed. A
  request that waited on it still gets its lease and creates a dispatcher there, which shutting the
  registry down neither closes nor destroys: a run reaches a registry that is closed and has no entry
  and nothing draining while an entry outside both is open and owns a dispatcher.\<close>

theorem dropped_entry_survives_close:
  "\<exists>g i k e. (registry_step \<lparr>max_entries = 1, connections = 1, max_waiters = 1\<rparr>)\<^sup>*\<^sup>* new_registry g \<and>
     reg_closed g \<and> reg_entries g = [] \<and> draining g = {} \<and>
     pool g i = Some (k, e) \<and> slots_used e = 0 \<and> \<not> entry_closed e \<and> dispatcher e = Some 1"
proof -
  let ?l = "\<lparr>max_entries = 1, connections = 1, max_waiters = 1\<rparr>"
  let ?evs = "[Entry_for False 0 ''a'', In_entry 0 (Acquire_lease False 0 0),
    In_entry 0 (Get_dispatcher 0), Entry_for False 0 ''a'', In_entry 0 (Acquire_lease False 0 1),
    In_entry 0 (Creation_failed 0), In_entry 0 (Creation_finally 0 0),
    In_entry 0 (Release_lease 0 0), Drop_failed 0,
    In_entry 0 (Get_dispatcher 1), In_entry 0 (Creation_done 1), In_entry 0 (Creation_finally 0 1),
    In_entry 0 (Release_lease 0 1), Evict_idle 0, Close_registry]"
  let ?g = "run_all (registry_perform ?l) ?evs new_registry"
  have "(registry_step ?l)\<^sup>*\<^sup>* new_registry ?g"
    by (rule run_registry_events) (simp add: registry_eval entry_eval)
  moreover have "reg_closed ?g \<and> reg_entries ?g = [] \<and> draining ?g = {}"
    by (simp add: registry_eval entry_eval)
  moreover have "\<exists>k e. pool ?g 0 = Some (k, e) \<and> slots_used e = 0 \<and> \<not> entry_closed e \<and>
      dispatcher e = Some 1"
    by (simp add: registry_eval entry_eval)
  ultimately show ?thesis by blast
qed

end
