(* ===== verification/Stream_Response.thy ===== *)
theory Stream_Response
  imports Gateway_Prelude
begin

text \<open>
  The model of \<open>src/src/gateway/stream_response.ts\<close>: the writer between one producer, which enqueues
  chunks and waits until each is taken, and the consumer of a \<open>ReadableStream\<close> of high water mark
  0, which pulls them. At most one chunk waits (\<open>lookahead\<close>). The producer's side is a state of the
  model: not in \<open>enqueue\<close>, waiting for the lookahead to become free, woken from that wait, or
  waiting for its own chunk to be taken.
\<close>

section \<open>State\<close>

datatype producer_state =
    Producer_free
  | Producer_blocked bytes
  | Producer_woken bytes
  | Producer_unsettled bytes

datatype stream_end = Stream_open | Stream_closed | Stream_errored

text \<open>
  \<open>delivered\<close> is what the stream's controller was given, \<open>answers\<close> what the calls of \<open>enqueue\<close>
  returned, in the order they returned, and \<open>stream_end\<close> how the controller ended the stream.
\<close>

record stream_writer =
  committed :: bool
  writer_closed :: bool
  outstanding_pulls :: nat
  lookahead :: "bytes option"
  producer :: producer_state
  cancel_started :: bool
  delivered :: "bytes list"
  answers :: "(bytes \<times> bool) list"
  ended :: stream_end

definition new_stream_writer :: stream_writer where
  "new_stream_writer =
     \<lparr>committed = False, writer_closed = False, outstanding_pulls = 0, lookahead = None,
      producer = Producer_free, cancel_started = False, delivered = [], answers = [],
      ended = Stream_open\<rparr>"

section \<open>Operations\<close>

text \<open>A call of \<open>enqueue\<close> returns.\<close>

definition answer :: "bytes \<Rightarrow> bool \<Rightarrow> stream_writer \<Rightarrow> stream_writer" where
  "answer c accepted w = w\<lparr>producer := Producer_free, answers := answers w @ [(c, accepted)]\<rparr>"

text \<open>\<open>settleLookahead\<close>, when it is set, ends the call that left the lookahead chunk.\<close>

definition settle_lookahead :: "bool \<Rightarrow> stream_writer \<Rightarrow> stream_writer" where
  "settle_lookahead accepted w =
     (case producer w of Producer_unsettled c \<Rightarrow> answer c accepted w | _ \<Rightarrow> w)"

definition deliver :: "bytes \<Rightarrow> stream_writer \<Rightarrow> stream_writer" where
  "deliver chunk w =
     settle_lookahead True (w\<lparr>committed := True, delivered := delivered w @ [chunk]\<rparr>)"

definition wake_producer :: "stream_writer \<Rightarrow> stream_writer" where
  "wake_producer w = (case producer w of Producer_blocked c \<Rightarrow> w\<lparr>producer := Producer_woken c\<rparr> | _ \<Rightarrow> w)"

definition pull :: "stream_writer \<Rightarrow> stream_writer" where
  "pull w =
     (case lookahead w of
        Some chunk \<Rightarrow> wake_producer (deliver chunk (w\<lparr>lookahead := None\<rparr>))
      | None \<Rightarrow> wake_producer (w\<lparr>outstanding_pulls := outstanding_pulls w + 1\<rparr>))"

text \<open>The body of \<open>enqueue\<close> from the test of its \<open>while\<close> on.\<close>

definition enqueue_loop :: "bytes \<Rightarrow> stream_writer \<Rightarrow> stream_writer" where
  "enqueue_loop chunk w =
     (if \<not> writer_closed w \<and> lookahead w \<noteq> None then w\<lparr>producer := Producer_blocked chunk\<rparr>
      else if writer_closed w then answer chunk False w
      else if outstanding_pulls w > 0 then
        answer chunk True (deliver chunk (w\<lparr>outstanding_pulls := outstanding_pulls w - 1\<rparr>))
      else w\<lparr>lookahead := Some chunk, producer := Producer_unsettled chunk\<rparr>)"

definition enqueue :: "bytes \<Rightarrow> stream_writer \<Rightarrow> stream_writer" where
  "enqueue chunk w = (if writer_closed w then answer chunk False w else enqueue_loop chunk w)"

definition enqueue_resume :: "stream_writer \<Rightarrow> stream_writer" where
  "enqueue_resume w = (case producer w of Producer_woken c \<Rightarrow> enqueue_loop c (w\<lparr>producer := Producer_free\<rparr>) | _ \<Rightarrow> w)"

text \<open>The controller ends the stream once.\<close>

definition end_stream :: "stream_end \<Rightarrow> stream_writer \<Rightarrow> stream_writer" where
  "end_stream how w = (if ended w = Stream_open then w\<lparr>ended := how\<rparr> else w)"

definition close_writer :: "stream_writer \<Rightarrow> stream_writer" where
  "close_writer w =
     (let w1 = w\<lparr>writer_closed := True\<rparr>;
          w2 = (case lookahead w1 of
                  Some chunk \<Rightarrow> (deliver chunk w1)\<lparr>lookahead := None\<rparr>
                | None \<Rightarrow> w1)
      in wake_producer (end_stream Stream_closed w2))"

definition abort_writer :: "stream_writer \<Rightarrow> stream_writer" where
  "abort_writer w =
     wake_producer (end_stream Stream_errored
       (settle_lookahead False (w\<lparr>writer_closed := True, lookahead := None\<rparr>)))"

text \<open>The consumer's \<open>cancel\<close>; \<open>onCancel\<close> is started once.\<close>

definition cancel_writer :: "stream_writer \<Rightarrow> stream_writer" where
  "cancel_writer w =
     (let w1 = settle_lookahead False (w\<lparr>writer_closed := True, lookahead := None\<rparr>)
      in (wake_producer w1)\<lparr>cancel_started := True\<rparr>)"

section \<open>Runs\<close>

datatype writer_event =
    Pull
  | Enqueue bytes
  | Enqueue_resume
  | Close_writer
  | Abort_writer
  | Cancel_writer

fun writer_enabled :: "writer_event \<Rightarrow> stream_writer \<Rightarrow> bool" where
  "writer_enabled (Enqueue _) w = (producer w = Producer_free)"
| "writer_enabled _ w = True"

fun writer_perform :: "writer_event \<Rightarrow> stream_writer \<Rightarrow> stream_writer" where
  "writer_perform Pull w = pull w"
| "writer_perform (Enqueue c) w = enqueue c w"
| "writer_perform Enqueue_resume w = enqueue_resume w"
| "writer_perform Close_writer w = close_writer w"
| "writer_perform Abort_writer w = abort_writer w"
| "writer_perform Cancel_writer w = cancel_writer w"

inductive writer_step :: "stream_writer \<Rightarrow> stream_writer \<Rightarrow> bool" where
  event: "writer_enabled ev w \<Longrightarrow> writer_step w (writer_perform ev w)"

inductive_cases writer_stepE: "writer_step w v"

section \<open>The invariant\<close>

text \<open>
  One producer never waits for the lookahead of another; the lookahead is the chunk it is waiting
  for; what was delivered is what \<open>enqueue\<close> accepted, in order, and everything it accepted comes
  before everything it refused.
\<close>

definition accepted :: "(bytes \<times> bool) list \<Rightarrow> bytes list" where
  "accepted as = map fst (takeWhile snd as)"

definition stream_writer_ok :: "stream_writer \<Rightarrow> bool" where
  "stream_writer_ok w \<longleftrightarrow>
     (producer w = (case lookahead w of None \<Rightarrow> Producer_free | Some c \<Rightarrow> Producer_unsettled c)) \<and>
     (outstanding_pulls w > 0 \<and> \<not> writer_closed w \<longrightarrow> lookahead w = None) \<and>
     (writer_closed w \<longrightarrow> lookahead w = None) \<and>
     (committed w \<longleftrightarrow> delivered w \<noteq> []) \<and>
     delivered w = accepted (answers w) \<and>
     filter snd (answers w) = takeWhile snd (answers w) \<and>
     (\<not> writer_closed w \<longrightarrow> (\<forall>a \<in> set (answers w). snd a))"

lemma accepted_all: "\<forall>a \<in> set as. snd a \<Longrightarrow> takeWhile snd as = as"
  by (simp add: takeWhile_eq_all_conv)

lemma accepted_snoc:
  "\<forall>a \<in> set as. snd a \<Longrightarrow> accepted (as @ [(c, True)]) = accepted as @ [c]"
  "accepted (as @ [(c, False)]) = accepted as"
  by (induction as) (auto simp: accepted_def)

lemma takeWhile_filter_snoc:
  "filter snd as = takeWhile snd as \<Longrightarrow> takeWhile snd (as @ [(c, False)]) = filter snd (as @ [(c, False)])"
  by (induction as) (auto simp: filter_empty_conv split: if_splits)

lemma all_accepted_filter: "\<forall>a \<in> set as. snd a \<Longrightarrow> filter snd as = as"
  by (simp add: filter_id_conv)

lemmas writer_ops = pull_def enqueue_def enqueue_loop_def enqueue_resume_def close_writer_def
  abort_writer_def cancel_writer_def end_stream_def wake_producer_def deliver_def
  settle_lookahead_def answer_def

lemma pull_ok: "stream_writer_ok w \<Longrightarrow> stream_writer_ok (pull w)"
  by (cases "lookahead w"; cases "writer_closed w")
    (auto simp: stream_writer_ok_def writer_ops accepted_snoc accepted_all all_accepted_filter)

lemma enqueue_ok: "stream_writer_ok w \<Longrightarrow> producer w = Producer_free \<Longrightarrow> stream_writer_ok (enqueue c w)"
  by (cases "lookahead w"; cases "writer_closed w")
    (simp_all add: stream_writer_ok_def writer_ops accepted_snoc accepted_all all_accepted_filter takeWhile_filter_snoc)

lemma enqueue_resume_ok:
  assumes "stream_writer_ok w"
  shows "stream_writer_ok (enqueue_resume w)"
proof -
  have "enqueue_resume w = w"
    using assms by (cases "lookahead w") (simp_all add: stream_writer_ok_def enqueue_resume_def)
  with assms show ?thesis by simp
qed

lemma close_writer_ok: "stream_writer_ok w \<Longrightarrow> stream_writer_ok (close_writer w)"
  by (cases "lookahead w"; cases "writer_closed w")
    (auto simp: stream_writer_ok_def writer_ops accepted_snoc accepted_all all_accepted_filter Let_def)

lemma abort_writer_ok: "stream_writer_ok w \<Longrightarrow> stream_writer_ok (abort_writer w)"
  by (cases "lookahead w"; cases "writer_closed w")
    (simp_all add: stream_writer_ok_def writer_ops accepted_snoc accepted_all all_accepted_filter takeWhile_filter_snoc)

lemma cancel_writer_ok: "stream_writer_ok w \<Longrightarrow> stream_writer_ok (cancel_writer w)"
  by (cases "lookahead w"; cases "writer_closed w")
    (simp_all add: stream_writer_ok_def writer_ops accepted_snoc accepted_all all_accepted_filter takeWhile_filter_snoc
      Let_def)

lemma writer_perform_ok: "stream_writer_ok w \<Longrightarrow> writer_enabled ev w \<Longrightarrow> stream_writer_ok (writer_perform ev w)"
  by (cases ev)
    (simp_all add: pull_ok enqueue_ok enqueue_resume_ok close_writer_ok abort_writer_ok
      cancel_writer_ok)

lemma new_stream_writer_ok: "stream_writer_ok new_stream_writer"
  by (simp add: new_stream_writer_def stream_writer_ok_def accepted_def)

interpretation writer_run: step_invariant new_stream_writer writer_step stream_writer_ok
  by unfold_locales (auto simp: new_stream_writer_ok elim!: writer_stepE intro: writer_perform_ok)

section \<open>Properties\<close>

lemma run_writer_events:
  "runs_ok writer_enabled writer_perform evs w \<Longrightarrow> writer_step\<^sup>*\<^sup>* w (run_all writer_perform evs w)"
  by (rule run_all_steps [of writer_enabled]) (auto intro: writer_step.event)

lemma split_accepted:
  "filter snd as = takeWhile snd as \<Longrightarrow>
    map fst as = map fst (takeWhile snd as) @ map fst (filter (\<lambda>a. \<not> snd a) as)"
proof (induction as)
  case (Cons a as)
  then show ?case
    by (cases "snd a") (auto simp: filter_empty_conv filter_id_conv [THEN iffD2])
qed simp

text \<open>C17: the stream loses, repeats and reorders nothing: the chunks given to its controller are those
  whose \<open>enqueue\<close> answered true, in order, and they are the first ones offered; the writer is committed
  exactly when it has delivered a chunk.\<close>

theorem writer_delivers_in_order:
  assumes "writer_step\<^sup>*\<^sup>* new_stream_writer w"
  shows "map fst (answers w) = delivered w @ map fst (filter (\<lambda>a. \<not> snd a) (answers w)) \<and>
    delivered w = map fst (filter snd (answers w)) \<and> (committed w \<longleftrightarrow> delivered w \<noteq> [])"
proof -
  have "stream_writer_ok w" by (rule writer_run.inv_reachable [OF assms])
  then show ?thesis
    using split_accepted [of "answers w"] by (simp add: stream_writer_ok_def accepted_def)
qed

lemma writer_delivers_in_order_witness:
  "let w = run_all writer_perform [Enqueue [1], Pull, Pull, Enqueue [2], Enqueue [3], Cancel_writer]
       new_stream_writer
   in delivered w = [[1], [2]] \<and> map fst (answers w) = delivered w @ [[3]]"
proof -
  let ?w = "run_all writer_perform
    [Enqueue [1], Pull, Pull, Enqueue [2], Enqueue [3], Cancel_writer] new_stream_writer"
  have "writer_step\<^sup>*\<^sup>* new_stream_writer ?w"
    by (rule run_writer_events) (simp add: new_stream_writer_def writer_ops)
  note facts = writer_delivers_in_order [OF this]
  have "answers ?w = [([1], True), ([2], True), ([3], False)]" "delivered ?w = [[1], [2]]"
    by (simp_all add: new_stream_writer_def writer_ops Let_def)
  with facts show ?thesis unfolding Let_def by (simp only:) simp
qed

text \<open>C18: a producer never waits in vain: whenever it waits in \<open>enqueue\<close>, the next pull, close, abort
  or cancellation makes that call return, and it never waits for a chunk of its own to leave the
  lookahead before it can offer the next.\<close>

theorem producer_always_released:
  assumes "writer_step\<^sup>*\<^sup>* new_stream_writer w"
    and "ev = Pull \<or> ev = Close_writer \<or> ev = Abort_writer \<or> ev = Cancel_writer"
  shows "producer (writer_perform ev w) = Producer_free \<and>
    (\<forall>c. producer w \<noteq> Producer_blocked c \<and> producer w \<noteq> Producer_woken c)"
proof -
  have "stream_writer_ok w" by (rule writer_run.inv_reachable [OF assms(1)])
  then have p: "producer w = (case lookahead w of None \<Rightarrow> Producer_free | Some c \<Rightarrow> Producer_unsettled c)"
    by (simp add: stream_writer_ok_def)
  have "producer (pull w) = Producer_free" "producer (close_writer w) = Producer_free"
    "producer (abort_writer w) = Producer_free" "producer (cancel_writer w) = Producer_free"
    by (cases "lookahead w"; simp add: p writer_ops Let_def)+
  then show ?thesis
    using assms(2) p by (cases "lookahead w") auto
qed

lemma producer_always_released_witness:
  "producer (run_all writer_perform [Enqueue [1]] new_stream_writer) = Producer_unsettled [1] \<and>
   producer (writer_perform Pull (run_all writer_perform [Enqueue [1]] new_stream_writer)) = Producer_free"
proof -
  let ?w = "run_all writer_perform [Enqueue [1]] new_stream_writer"
  have "writer_step\<^sup>*\<^sup>* new_stream_writer ?w"
    by (rule run_writer_events) (simp add: new_stream_writer_def writer_ops)
  then have "producer (writer_perform Pull ?w) = Producer_free"
    by (rule producer_always_released [THEN conjunct1]) simp
  moreover have "producer ?w = Producer_unsettled [1]" by (simp add: new_stream_writer_def writer_ops)
  ultimately show ?thesis by blast
qed

end
