(* ===== verification/Stream_Execution.thy ===== *)
theory Stream_Execution
  imports Stream_Response Gateway_Failures
begin

text \<open>
  The model of \<open>src/src/gateway/stream_execution_owner.ts\<close>: the owner of one streamed response. It
  takes the first emission of the upstream iterator before it answers, then a producer moves the
  emissions into the stream writer until a terminal one; whatever ends the stream first (success, a
  failure, an abort, a cancellation, a shutdown) starts the one \<open>barrier\<close> that reports the outcome
  and releases the resources. Every definition is one segment of the code between two \<open>await\<close>s. The
  iterator, \<open>upstream.cancel\<close>, \<open>finalizeSuccess\<close> and the consumer are outside; what they answer
  arrives as events. \<open>norm\<close> is the caller's \<open>normalizeFailure\<close>.
\<close>

section \<open>State\<close>

datatype exec_state = Precommit | Committed | Terminating | Completed

datatype terminal_cause =
    Semantic_success | Precommit_failure | Postcommit_failure | Client_cancel | Request_abort
  | Total_timeout | First_byte_timeout | Idle_timeout | Shutdown

datatype writer_mode = Close_mode | Abort_mode

datatype 'v terminal_result = Success_result 'v | Failure_result thrown

datatype 'v emission = Wire bytes | Terminal "'v terminal_result" writer_mode

text \<open>How far the barrier got; each stage but the first and the last is an \<open>await\<close>.\<close>

datatype 'v barrier =
    No_barrier
  | Finalizing 'v writer_mode
  | Cancelling writer_mode
  | Returning writer_mode
  | Joining writer_mode
  | Settling
  | Finished

datatype start_state = Awaiting_first | Streaming | Refused_start thrown

datatype producer_phase =
    Not_producing | Enqueueing_first | Awaiting_delivery | Awaiting_next | Enqueueing | Produced

text \<open>\<open>observed\<close> lists the calls of \<open>onTerminal\<close>; the three counters those of \<open>upstream.cancel\<close>,
  \<open>iterator.return\<close> and the delivery finalizer.\<close>

record 'v stream_exec =
  exec_state :: exec_state
  exec_cause :: "terminal_cause option"
  barrier :: "'v barrier"
  from_producer :: bool
  start_phase :: start_state
  phase_of :: producer_phase
  writer :: "stream_writer option"
  cancel_handled :: bool
  adapter_claimed :: bool
  delivery_settled :: bool
  first_delivered :: bool
  finalizer_calls :: nat
  observed :: "'v terminal_result list"
  upstream_cancels :: nat
  iterator_returns :: nat
  listening :: bool
  request_signal :: abort_signal
  delivery_aborted :: bool

definition exec_init :: "abort_signal \<Rightarrow> bool \<Rightarrow> 'v stream_exec" where
  "exec_init signal gone =
     \<lparr>exec_state = Precommit, exec_cause = None, barrier = No_barrier, from_producer = False,
      start_phase = Awaiting_first, phase_of = Not_producing, writer = None, cancel_handled = False,
      adapter_claimed = False, delivery_settled = False, first_delivered = False,
      finalizer_calls = 0, observed = [], upstream_cancels = 0, iterator_returns = 0,
      listening = True, request_signal = signal, delivery_aborted = gone\<rparr>"

section \<open>Delivery\<close>

definition settle_delivery :: "'v stream_exec \<Rightarrow> 'v stream_exec" where
  "settle_delivery s = s\<lparr>delivery_settled := True\<rparr>"

definition mark_delivered :: "'v stream_exec \<Rightarrow> 'v stream_exec" where
  "mark_delivered s =
     (if first_delivered s then s
      else s\<lparr>first_delivered := True,
             exec_state := (if exec_state s = Precommit then Committed else exec_state s)\<rparr>)"

text \<open>The finalizer is set by \<open>claimDeliveryAdapter\<close>, so it is defined once the adapter is claimed.\<close>

definition finalize_delivery :: "'v stream_exec \<Rightarrow> 'v stream_exec" where
  "finalize_delivery s =
     (if finalizer_calls s > 0 \<or> \<not> adapter_claimed s then s
      else s\<lparr>finalizer_calls := finalizer_calls s + 1\<rparr>)"

text \<open>An operation of the writer; a delivered chunk calls \<open>onCommit\<close>.\<close>

definition on_writer :: "(stream_writer \<Rightarrow> stream_writer) \<Rightarrow> 'v stream_exec \<Rightarrow> 'v stream_exec" where
  "on_writer f s =
     (case writer s of
        None \<Rightarrow> s
      | Some w \<Rightarrow>
          (let s' = s\<lparr>writer := Some (f w)\<rparr>
           in if length (delivered (f w)) > length (delivered w) \<and> \<not> adapter_claimed s'
              then mark_delivered s' else s'))"

definition writer_committed :: "'v stream_exec \<Rightarrow> bool" where
  "writer_committed s = (case writer s of None \<Rightarrow> False | Some w \<Rightarrow> committed w)"

section \<open>Finishing\<close>

text \<open>From the diagnostics to the bounded cancellation of the upstream.\<close>

definition report :: "'v terminal_result \<Rightarrow> writer_mode \<Rightarrow> 'v stream_exec \<Rightarrow> 'v stream_exec" where
  "report result mode s =
     (let s1 = s\<lparr>observed := observed s @ [result]\<rparr>;
          s2 = (if mode = Abort_mode then on_writer abort_writer s1 else s1)
      in s2\<lparr>upstream_cancels := upstream_cancels s2 + 1, barrier := Cancelling mode\<rparr>)"

definition finish ::
  "terminal_cause \<Rightarrow> 'v terminal_result \<Rightarrow> writer_mode \<Rightarrow> bool \<Rightarrow> 'v stream_exec \<Rightarrow> 'v stream_exec" where
  "finish c result mode producing s =
     (if barrier s \<noteq> No_barrier then s
      else
        let s1 = s\<lparr>exec_cause := Some c, exec_state := Terminating, from_producer := producing\<rparr>
        in case (c, result) of
             (Semantic_success, Success_result v) \<Rightarrow> s1\<lparr>barrier := Finalizing v mode\<rparr>
           | _ \<Rightarrow> report result mode s1)"

text \<open>The answers of \<open>finalizeSuccess\<close>.\<close>

definition finalize_ok :: "'v stream_exec \<Rightarrow> 'v stream_exec" where
  "finalize_ok s = (case barrier s of Finalizing v mode \<Rightarrow> report (Success_result v) mode s | _ \<Rightarrow> s)"

definition finalize_failed :: "(thrown \<Rightarrow> thrown) \<Rightarrow> thrown \<Rightarrow> 'v stream_exec \<Rightarrow> 'v stream_exec" where
  "finalize_failed norm e s =
     (case barrier s of
        Finalizing v mode \<Rightarrow>
          report (Failure_result (norm e)) Abort_mode
            (s\<lparr>exec_cause := Some (if writer_committed s then Postcommit_failure else Precommit_failure)\<rparr>)
      | _ \<Rightarrow> s)"

definition wrap_up :: "writer_mode \<Rightarrow> 'v stream_exec \<Rightarrow> 'v stream_exec" where
  "wrap_up mode s =
     (let s1 = (if mode = Close_mode then on_writer close_writer s else s);
          s2 = (if \<not> adapter_claimed s1 then settle_delivery s1 else s1)
      in s2\<lparr>barrier := Settling\<rparr>)"

definition join_producer :: "writer_mode \<Rightarrow> 'v stream_exec \<Rightarrow> 'v stream_exec" where
  "join_producer mode s =
     (if \<not> from_producer s \<and> phase_of s \<noteq> Not_producing then s\<lparr>barrier := Joining mode\<rparr>
      else wrap_up mode s)"

text \<open>
  The barrier goes on: a bounded cleanup ended (by itself or by its timer), or the delivery settled.
\<close>

definition barrier_resume :: "bool \<Rightarrow> 'v stream_exec \<Rightarrow> 'v stream_exec" where
  "barrier_resume has_return s =
     (case barrier s of
        Cancelling mode \<Rightarrow>
          (if has_return then s\<lparr>iterator_returns := iterator_returns s + 1, barrier := Returning mode\<rparr>
           else join_producer mode s)
      | Returning mode \<Rightarrow> join_producer mode s
      | Joining mode \<Rightarrow> wrap_up mode s
      | Settling \<Rightarrow>
          (if delivery_settled s then
             (finalize_delivery s)\<lparr>listening := False, exec_state := Completed, barrier := Finished\<rparr>
           else s)
      | _ \<Rightarrow> s)"

section \<open>Aborts\<close>

definition upstream_timed_out :: "thrown \<Rightarrow> bool" where
  "upstream_timed_out e = (case e of Gateway_error f \<Rightarrow> kind f = Upstream_timeout | Other_error \<Rightarrow> False)"

definition signal_cause :: "'v stream_exec \<Rightarrow> terminal_cause" where
  "signal_cause s =
     (if aborted (request_signal s) \<and> upstream_timed_out (reason (request_signal s)) then Total_timeout
      else Request_abort)"

definition failure_cause :: "thrown \<Rightarrow> bool \<Rightarrow> 'v stream_exec \<Rightarrow> terminal_cause" where
  "failure_cause e was_committed s =
     (if upstream_timed_out e then
        (if aborted (request_signal s) then signal_cause s
         else if was_committed then Idle_timeout else First_byte_timeout)
      else if was_committed then Postcommit_failure else Precommit_failure)"

definition gateway_thrown :: "failure_kind \<Rightarrow> failure_source \<Rightarrow> thrown" where
  "gateway_thrown k src = Gateway_error \<lparr>kind = k, source = Some src, phase = Some Ph_stream\<rparr>"

definition abort_failure :: "'v stream_exec \<Rightarrow> thrown" where
  "abort_failure s = Gateway_error (failure_from_signal (request_signal s) Src_parser Ph_stream)"

definition on_request_abort :: "'v stream_exec \<Rightarrow> 'v stream_exec" where
  "on_request_abort s = finish (signal_cause s) (Failure_result (abort_failure s)) Abort_mode False s"

definition on_delivery_abort :: "'v stream_exec \<Rightarrow> 'v stream_exec" where
  "on_delivery_abort s =
     finish Client_cancel (Failure_result (gateway_thrown Aborted Src_request)) Abort_mode False s"

definition on_writer_cancel :: "'v stream_exec \<Rightarrow> 'v stream_exec" where
  "on_writer_cancel s =
     on_delivery_abort
       ((if \<not> adapter_claimed s then settle_delivery s else s)\<lparr>cancel_handled := True\<rparr>)"

definition handle_abort :: "terminal_cause \<Rightarrow> 'v stream_exec \<Rightarrow> 'v stream_exec" where
  "handle_abort c s =
     finish c (Failure_result (gateway_thrown (if c = Total_timeout then Upstream_timeout else Aborted)
       Src_gateway)) Abort_mode False s"

definition claim_adapter :: "'v stream_exec \<Rightarrow> 'v stream_exec" where
  "claim_adapter s =
     (if adapter_claimed s then s
      else let s' = s\<lparr>adapter_claimed := True\<rparr>
      in case exec_state s' of
           Terminating \<Rightarrow> settle_delivery s'
         | Completed \<Rightarrow> finalize_delivery s'
         | _ \<Rightarrow> s')"

section \<open>The first emission and the producer\<close>

definition exec_start :: "abort_signal \<Rightarrow> bool \<Rightarrow> 'v stream_exec" where
  "exec_start signal gone =
     (let s = exec_init signal gone
      in if aborted signal then (on_request_abort s)\<lparr>start_phase := Refused_start (abort_failure s)\<rparr>
         else if gone then
           (on_delivery_abort s)\<lparr>start_phase := Refused_start (gateway_thrown Aborted Src_request)\<rparr>
         else s)"

definition truncated :: thrown where
  "truncated = gateway_thrown Upstream_stream_truncated Src_parser"

definition refuse_start :: "(thrown \<Rightarrow> thrown) \<Rightarrow> thrown \<Rightarrow> 'v stream_exec \<Rightarrow> 'v stream_exec" where
  "refuse_start norm e s =
     (finish (failure_cause (norm e) False s) (Failure_result (norm e)) Abort_mode False s)
       \<lparr>start_phase := Refused_start (norm e)\<rparr>"

text \<open>The first \<open>next\<close> of the iterator answers: \<open>None\<close> is its end.\<close>

definition first_emission :: "(thrown \<Rightarrow> thrown) \<Rightarrow> 'v emission option \<Rightarrow> 'v stream_exec \<Rightarrow> 'v stream_exec" where
  "first_emission norm next s =
     (case next of
        Some (Wire c) \<Rightarrow>
          s\<lparr>start_phase := Streaming, writer := Some (enqueue c new_stream_writer), phase_of := Enqueueing_first\<rparr>
      | _ \<Rightarrow> refuse_start norm truncated s)"

definition produce_failed :: "(thrown \<Rightarrow> thrown) \<Rightarrow> thrown \<Rightarrow> 'v stream_exec \<Rightarrow> 'v stream_exec" where
  "produce_failed norm e s =
     (finish (failure_cause (norm e) (writer_committed s) s) (Failure_result (norm e)) Abort_mode True s)
       \<lparr>phase_of := Produced\<rparr>"

definition produce_next :: "(thrown \<Rightarrow> thrown) \<Rightarrow> 'v emission option \<Rightarrow> 'v stream_exec \<Rightarrow> 'v stream_exec" where
  "produce_next norm next s =
     (case next of
        None \<Rightarrow> produce_failed norm truncated s
      | Some (Wire c) \<Rightarrow> (on_writer (enqueue c) s)\<lparr>phase_of := Enqueueing\<rparr>
      | Some (Terminal result mode) \<Rightarrow>
          (finish (case result of Success_result _ \<Rightarrow> Semantic_success | Failure_result _ \<Rightarrow> Postcommit_failure)
             result mode True s)\<lparr>phase_of := Produced\<rparr>)"

text \<open>The call of \<open>enqueue\<close> the producer awaits has returned: its answer, once there is one.\<close>

definition enqueue_answer :: "'v stream_exec \<Rightarrow> bool option" where
  "enqueue_answer s =
     (case writer s of
        Some w \<Rightarrow> if producer w = Producer_free \<and> answers w \<noteq> [] then Some (snd (last (answers w))) else None
      | None \<Rightarrow> None)"

definition produce_resume :: "'v stream_exec \<Rightarrow> 'v stream_exec" where
  "produce_resume s =
     (case phase_of s of
        Enqueueing_first \<Rightarrow>
          (case enqueue_answer s of
             None \<Rightarrow> s
           | Some a \<Rightarrow> s\<lparr>phase_of := (if a then Awaiting_delivery else Produced)\<rparr>)
      | Awaiting_delivery \<Rightarrow>
          (if \<not> first_delivered s then s
           else s\<lparr>phase_of := (if barrier s \<noteq> No_barrier then Produced else Awaiting_next)\<rparr>)
      | Enqueueing \<Rightarrow>
          (case enqueue_answer s of
             None \<Rightarrow> s
           | Some a \<Rightarrow> s\<lparr>phase_of := (if a then Awaiting_next else Produced)\<rparr>)
      | _ \<Rightarrow> s)"

section \<open>Runs\<close>

datatype 'v exec_event =
    First_emission "'v emission option"
  | First_error thrown
  | Produce_next "'v emission option"
  | Produce_error thrown
  | Produce_resume
  | Consumer_pull
  | Consumer_cancel
  | On_writer_cancel
  | Request_aborted thrown
  | Delivery_aborted
  | Handle_abort terminal_cause
  | Claim_adapter
  | Adapter_delivered
  | Adapter_settled
  | Finalize_ok
  | Finalize_failed thrown
  | Barrier_resume

fun exec_enabled :: "'v exec_event \<Rightarrow> 'v stream_exec \<Rightarrow> bool" where
  "exec_enabled (First_emission _) s = (start_phase s = Awaiting_first)"
| "exec_enabled (First_error _) s = (start_phase s = Awaiting_first)"
| "exec_enabled (Produce_next _) s = (phase_of s = Awaiting_next)"
| "exec_enabled (Produce_error _) s = (phase_of s = Awaiting_next)"
| "exec_enabled On_writer_cancel s =
     (\<not> cancel_handled s \<and> (case writer s of Some w \<Rightarrow> cancel_started w | None \<Rightarrow> False))"
| "exec_enabled (Request_aborted _) s = (listening s \<and> \<not> aborted (request_signal s))"
| "exec_enabled Delivery_aborted s = (listening s \<and> \<not> delivery_aborted s)"
| "exec_enabled (Handle_abort c) s =
     (start_phase s = Streaming \<and> (c = Shutdown \<or> c = Request_abort \<or> c = Total_timeout))"
| "exec_enabled Claim_adapter s = (start_phase s = Streaming)"
| "exec_enabled Adapter_delivered s = adapter_claimed s"
| "exec_enabled Adapter_settled s = adapter_claimed s"
| "exec_enabled _ s = True"

fun exec_perform :: "(thrown \<Rightarrow> thrown) \<Rightarrow> bool \<Rightarrow> 'v exec_event \<Rightarrow> 'v stream_exec \<Rightarrow> 'v stream_exec" where
  "exec_perform norm has_return (First_emission next) s = first_emission norm next s"
| "exec_perform norm has_return (First_error e) s = refuse_start norm e s"
| "exec_perform norm has_return (Produce_next next) s = produce_next norm next s"
| "exec_perform norm has_return (Produce_error e) s = produce_failed norm e s"
| "exec_perform norm has_return Produce_resume s = produce_resume s"
| "exec_perform norm has_return Consumer_pull s = on_writer pull s"
| "exec_perform norm has_return Consumer_cancel s = on_writer cancel_writer s"
| "exec_perform norm has_return On_writer_cancel s = on_writer_cancel s"
| "exec_perform norm has_return (Request_aborted e) s =
     on_request_abort (s\<lparr>request_signal := \<lparr>aborted = True, reason = e\<rparr>\<rparr>)"
| "exec_perform norm has_return Delivery_aborted s = on_delivery_abort (s\<lparr>delivery_aborted := True\<rparr>)"
| "exec_perform norm has_return (Handle_abort c) s = handle_abort c s"
| "exec_perform norm has_return Claim_adapter s = claim_adapter s"
| "exec_perform norm has_return Adapter_delivered s = mark_delivered s"
| "exec_perform norm has_return Adapter_settled s = settle_delivery s"
| "exec_perform norm has_return Finalize_ok s = finalize_ok s"
| "exec_perform norm has_return (Finalize_failed e) s = finalize_failed norm e s"
| "exec_perform norm has_return Barrier_resume s = barrier_resume has_return s"

inductive exec_step ::
  "(thrown \<Rightarrow> thrown) \<Rightarrow> bool \<Rightarrow> 'v stream_exec \<Rightarrow> 'v stream_exec \<Rightarrow> bool" for norm has_return where
  event: "exec_enabled ev s \<Longrightarrow> exec_step norm has_return s (exec_perform norm has_return ev s)"

inductive_cases exec_stepE: "exec_step norm has_return s t"

section \<open>The invariant\<close>

fun is_success :: "'v terminal_result \<Rightarrow> bool" where
  "is_success (Success_result _) = True"
| "is_success (Failure_result _) = False"

text \<open>What holds at each stage of the barrier: the state it shows, the one report, the resources.\<close>

definition running_ok :: "'v stream_exec \<Rightarrow> bool" where
  "running_ok s \<longleftrightarrow>
     exec_state s = (if first_delivered s then Committed else Precommit) \<and> exec_cause s = None \<and>
     observed s = [] \<and> upstream_cancels s = 0 \<and> finalizer_calls s = 0 \<and> listening s"

definition finalizing_ok :: "'v stream_exec \<Rightarrow> bool" where
  "finalizing_ok s \<longleftrightarrow>
     exec_state s = Terminating \<and> exec_cause s = Some Semantic_success \<and>
     observed s = [] \<and> upstream_cancels s = 0 \<and> finalizer_calls s = 0 \<and> listening s"

definition reported_ok :: "'v stream_exec \<Rightarrow> bool" where
  "reported_ok s \<longleftrightarrow>
     exec_cause s \<noteq> None \<and> upstream_cancels s = 1 \<and>
     (\<exists>r. observed s = [r] \<and> (is_success r \<longleftrightarrow> exec_cause s = Some Semantic_success))"

definition exec_ok :: "'v stream_exec \<Rightarrow> bool" where
  "exec_ok s \<longleftrightarrow>
     (case barrier s of
        No_barrier \<Rightarrow> running_ok s
      | Finalizing _ _ \<Rightarrow> finalizing_ok s
      | Finished \<Rightarrow>
          reported_ok s \<and> exec_state s = Completed \<and> \<not> listening s \<and> delivery_settled s \<and>
          finalizer_calls s = (if adapter_claimed s then 1 else 0)
      | _ \<Rightarrow> reported_ok s \<and> exec_state s = Terminating \<and> listening s \<and> finalizer_calls s = 0) \<and>
     (barrier s = Settling \<longrightarrow> adapter_claimed s \<or> delivery_settled s)"

lemmas exec_defs = exec_ok_def running_ok_def finalizing_ok_def reported_ok_def

text \<open>The writer and the phases of the producer are not part of it.\<close>

definition same_control :: "'v stream_exec \<Rightarrow> 'v stream_exec \<Rightarrow> bool" where
  "same_control s t \<longleftrightarrow>
     exec_state t = exec_state s \<and> exec_cause t = exec_cause s \<and> barrier t = barrier s \<and>
     observed t = observed s \<and> upstream_cancels t = upstream_cancels s \<and>
     finalizer_calls t = finalizer_calls s \<and> listening t = listening s \<and>
     adapter_claimed t = adapter_claimed s \<and> delivery_settled t = delivery_settled s \<and>
     first_delivered t = first_delivered s"

lemma same_control_ok: "same_control s t \<Longrightarrow> exec_ok t = exec_ok s"
  by (simp add: same_control_def exec_defs split: barrier.split)

lemma keep_ok [simp]:
  "exec_ok (s\<lparr>start_phase := a\<rparr>) = exec_ok s" "exec_ok (s\<lparr>phase_of := b\<rparr>) = exec_ok s"
  "exec_ok (s\<lparr>writer := w\<rparr>) = exec_ok s" "exec_ok (s\<lparr>cancel_handled := c\<rparr>) = exec_ok s"
  "exec_ok (s\<lparr>request_signal := g\<rparr>) = exec_ok s" "exec_ok (s\<lparr>delivery_aborted := c\<rparr>) = exec_ok s"
  by (rule same_control_ok, simp add: same_control_def)+

lemma mark_delivered_ok: "exec_ok s \<Longrightarrow> exec_ok (mark_delivered s)"
  by (cases "barrier s") (auto simp: mark_delivered_def exec_defs)

lemma settle_delivery_ok: "exec_ok s \<Longrightarrow> exec_ok (settle_delivery s)"
  by (cases "barrier s") (auto simp: settle_delivery_def exec_defs)

lemma on_writer_ok: "exec_ok s \<Longrightarrow> exec_ok (on_writer f s)"
  by (simp add: on_writer_def Let_def mark_delivered_ok split: option.split)

text \<open>An operation of the writer changes only what delivery changes.\<close>

lemma on_writer_fields:
  "barrier (on_writer f s) = barrier s" "exec_cause (on_writer f s) = exec_cause s"
  "observed (on_writer f s) = observed s" "upstream_cancels (on_writer f s) = upstream_cancels s"
  "finalizer_calls (on_writer f s) = finalizer_calls s" "listening (on_writer f s) = listening s"
  "adapter_claimed (on_writer f s) = adapter_claimed s"
  "delivery_settled (on_writer f s) = delivery_settled s"
  "from_producer (on_writer f s) = from_producer s" "phase_of (on_writer f s) = phase_of s"
  "exec_state s = Terminating \<Longrightarrow> exec_state (on_writer f s) = Terminating"
  by (simp_all add: on_writer_def mark_delivered_def Let_def split: option.split)

lemma report_ok:
  assumes "observed s = []" "upstream_cancels s = 0" "finalizer_calls s = 0" "listening s"
    and "exec_state s = Terminating" "exec_cause s \<noteq> None"
    and "is_success r \<longleftrightarrow> exec_cause s = Some Semantic_success"
  shows "exec_ok (report r m s)"
  using assms by (cases m) (simp_all add: report_def exec_defs on_writer_fields Let_def)

lemma finish_ok:
  assumes ok: "exec_ok s" and r: "is_success r \<longleftrightarrow> c = Semantic_success"
  shows "exec_ok (finish c r m p s)"
proof (cases "barrier s = No_barrier")
  case True
  then have run: "running_ok s" using ok by (simp add: exec_ok_def)
  let ?s = "s\<lparr>exec_cause := Some c, exec_state := Terminating, from_producer := p\<rparr>"
  show ?thesis
  proof (cases r)
    case (Success_result v)
    with r run True show ?thesis
      by (simp add: finish_def Let_def exec_ok_def finalizing_ok_def running_ok_def)
  next
    case (Failure_result e)
    then have c: "c \<noteq> Semantic_success" using r by simp
    have "exec_ok (report r m ?s)"
      by (rule report_ok) (use run r in \<open>simp_all add: running_ok_def\<close>)
    moreover have "finish c r m p s = report r m ?s"
      using True c Failure_result by (cases c) (simp_all add: finish_def Let_def)
    ultimately show ?thesis by simp
  qed
qed (use ok in \<open>simp add: finish_def\<close>)

lemma finalize_ok_ok: "exec_ok s \<Longrightarrow> exec_ok (finalize_ok s)"
  by (cases "barrier s") (auto simp: finalize_ok_def exec_ok_def [of s] finalizing_ok_def intro!: report_ok)

lemma finalize_failed_ok: "exec_ok s \<Longrightarrow> exec_ok (finalize_failed norm e s)"
  by (cases "barrier s")
    (auto simp: finalize_failed_def exec_ok_def [of s] finalizing_ok_def intro!: report_ok)

lemma wrap_up_ok:
  assumes "reported_ok s" "exec_state s = Terminating" "listening s" "finalizer_calls s = 0"
  shows "exec_ok (wrap_up m s)"
  using assms
  by (simp add: wrap_up_def settle_delivery_def exec_ok_def reported_ok_def on_writer_fields Let_def)

lemma join_producer_ok:
  assumes "reported_ok s" "exec_state s = Terminating" "listening s" "finalizer_calls s = 0"
  shows "exec_ok (join_producer m s)"
  using assms wrap_up_ok [OF assms] by (simp add: join_producer_def exec_ok_def reported_ok_def)

lemma barrier_resume_ok:
  assumes ok: "exec_ok s"
  shows "exec_ok (barrier_resume has_return s)"
proof (cases "barrier s")
  case (Cancelling m)
  with ok join_producer_ok [of s m] show ?thesis
    by (simp add: barrier_resume_def exec_ok_def reported_ok_def)
next
  case (Returning m)
  with ok join_producer_ok [of s m] show ?thesis
    by (simp add: barrier_resume_def exec_ok_def reported_ok_def)
next
  case (Joining m)
  with ok wrap_up_ok [of s m] show ?thesis
    by (simp add: barrier_resume_def exec_ok_def reported_ok_def)
next
  case Settling
  with ok show ?thesis
    by (auto simp: barrier_resume_def finalize_delivery_def exec_ok_def reported_ok_def)
qed (use ok in \<open>simp_all add: barrier_resume_def\<close>)

lemma claim_adapter_ok:
  assumes ok: "exec_ok s"
  shows "exec_ok (claim_adapter s)"
  using assms
  by (cases "barrier s"; cases "first_delivered s")
    (auto simp: claim_adapter_def finalize_delivery_def settle_delivery_def exec_defs)

lemma abort_causes: "signal_cause s \<noteq> Semantic_success" "failure_cause e b s \<noteq> Semantic_success"
  by (simp_all add: signal_cause_def failure_cause_def)

lemma abort_ok:
  assumes "exec_ok s"
  shows "exec_ok (on_request_abort s)" "exec_ok (on_delivery_abort s)" "exec_ok (on_writer_cancel s)"
    "c \<noteq> Semantic_success \<Longrightarrow> exec_ok (handle_abort c s)"
  using assms
  by (simp_all add: on_request_abort_def on_delivery_abort_def on_writer_cancel_def handle_abort_def
      finish_ok abort_causes settle_delivery_ok)

lemma refuse_start_ok: "exec_ok s \<Longrightarrow> exec_ok (refuse_start norm e s)"
  by (simp add: refuse_start_def finish_ok abort_causes)

lemma produce_failed_ok: "exec_ok s \<Longrightarrow> exec_ok (produce_failed norm e s)"
  by (simp add: produce_failed_def finish_ok abort_causes)

lemma produce_next_ok: "exec_ok s \<Longrightarrow> exec_ok (produce_next norm next s)"
  by (simp add: produce_next_def produce_failed_ok on_writer_ok finish_ok
      split: option.split emission.split terminal_result.split)

lemma first_emission_ok: "exec_ok s \<Longrightarrow> exec_ok (first_emission norm next s)"
  by (simp add: first_emission_def refuse_start_ok split: option.split emission.split)

lemma produce_resume_ok: "exec_ok s \<Longrightarrow> exec_ok (produce_resume s)"
  by (simp add: produce_resume_def split: option.split producer_phase.split)

lemma exec_perform_ok:
  assumes "exec_ok s" and "exec_enabled ev s"
  shows "exec_ok (exec_perform norm has_return ev s)"
  using assms
  by (cases ev)
    (auto simp: first_emission_ok refuse_start_ok produce_next_ok produce_failed_ok produce_resume_ok
      on_writer_ok abort_ok claim_adapter_ok mark_delivered_ok settle_delivery_ok finalize_ok_ok
      finalize_failed_ok barrier_resume_ok)

lemma exec_init_ok: "exec_ok (exec_init signal gone)"
  by (simp add: exec_init_def exec_defs)

lemma exec_start_ok: "exec_ok (exec_start signal gone)"
  by (simp add: exec_start_def Let_def abort_ok exec_init_ok)

interpretation exec_run: step_invariant "exec_start signal gone" "exec_step norm has_return" exec_ok
  for signal gone norm has_return
  by unfold_locales (auto simp: exec_start_ok elim!: exec_stepE intro: exec_perform_ok)

section \<open>The outcome stands\<close>

text \<open>Whether the outcome was reported, and that nothing changes it afterwards.\<close>

definition outcome_of :: "'v stream_exec \<Rightarrow> 'v terminal_result list \<times> terminal_cause option" where
  "outcome_of s = (observed s, exec_cause s)"

definition reported_stage :: "'v stream_exec \<Rightarrow> bool" where
  "reported_stage s = (case barrier s of No_barrier \<Rightarrow> False | Finalizing _ _ \<Rightarrow> False | _ \<Rightarrow> True)"

lemma outcome_of_fields [simp]:
  "outcome_of (s\<lparr>start_phase := a\<rparr>) = outcome_of s" "outcome_of (s\<lparr>phase_of := b\<rparr>) = outcome_of s"
  "outcome_of (s\<lparr>writer := w\<rparr>) = outcome_of s" "outcome_of (s\<lparr>cancel_handled := c\<rparr>) = outcome_of s"
  "outcome_of (s\<lparr>request_signal := g\<rparr>) = outcome_of s"
  "outcome_of (s\<lparr>delivery_aborted := c\<rparr>) = outcome_of s"
  "outcome_of (s\<lparr>barrier := x\<rparr>) = outcome_of s" "outcome_of (s\<lparr>exec_state := y\<rparr>) = outcome_of s"
  "outcome_of (s\<lparr>listening := c\<rparr>) = outcome_of s" "outcome_of (s\<lparr>iterator_returns := n\<rparr>) = outcome_of s"
  "outcome_of (on_writer f s) = outcome_of s" "outcome_of (mark_delivered s) = outcome_of s"
  "outcome_of (settle_delivery s) = outcome_of s" "outcome_of (finalize_delivery s) = outcome_of s"
  "outcome_of (claim_adapter s) = outcome_of s"
  by (simp_all add: outcome_of_def on_writer_fields mark_delivered_def settle_delivery_def
      finalize_delivery_def claim_adapter_def Let_def split: exec_state.split)

lemma finish_reported: "reported_stage s \<Longrightarrow> finish c r m p s = s"
  by (auto simp: reported_stage_def finish_def)

lemma reported_stage_fields [simp]:
  "reported_stage (s\<lparr>request_signal := g\<rparr>) = reported_stage s"
  "reported_stage (s\<lparr>delivery_aborted := c\<rparr>) = reported_stage s"
  "reported_stage (s\<lparr>cancel_handled := c\<rparr>) = reported_stage s"
  "reported_stage (settle_delivery s) = reported_stage s"
  by (simp_all add: reported_stage_def settle_delivery_def)

lemma reported_finalize: "reported_stage s \<Longrightarrow> finalize_ok s = s \<and> finalize_failed norm e s = s"
  by (auto simp: reported_stage_def finalize_ok_def finalize_failed_def split: barrier.splits)

lemma barrier_resume_outcome [simp]: "outcome_of (barrier_resume h s) = outcome_of s"
  by (simp add: barrier_resume_def join_producer_def wrap_up_def Let_def split: barrier.split)

lemma exec_perform_outcome:
  assumes "reported_stage s"
  shows "outcome_of (exec_perform norm h ev s) = outcome_of s"
  using assms
  by (cases ev)
    (simp_all add: first_emission_def refuse_start_def produce_next_def produce_failed_def
      produce_resume_def on_request_abort_def on_delivery_abort_def on_writer_cancel_def
      handle_abort_def finish_reported reported_finalize
      split: option.split emission.split producer_phase.split)

lemma observed_reported: "exec_ok s \<Longrightarrow> observed s \<noteq> [] \<Longrightarrow> reported_stage s"
  by (cases "barrier s") (auto simp: exec_defs reported_stage_def)

section \<open>Completion\<close>

fun stages_left :: "'v barrier \<Rightarrow> nat" where
  "stages_left (Cancelling _) = 4"
| "stages_left (Returning _) = 3"
| "stages_left (Joining _) = 2"
| "stages_left Settling = 1"
| "stages_left _ = 0"

definition ready :: "'v stream_exec \<Rightarrow> bool" where
  "ready s \<longleftrightarrow> exec_ok s \<and> reported_stage s \<and> (delivery_settled s \<or> \<not> adapter_claimed s)"

lemma wrap_up_ready:
  assumes "delivery_settled s \<or> \<not> adapter_claimed s"
  shows "barrier (wrap_up m s) = Settling \<and> delivery_settled (wrap_up m s)"
  using assms by (auto simp: wrap_up_def settle_delivery_def on_writer_fields Let_def)

lemma join_producer_ready:
  assumes "delivery_settled s \<or> \<not> adapter_claimed s"
  shows "(barrier (join_producer m s) = Joining m \<or> barrier (join_producer m s) = Settling) \<and>
    (delivery_settled (join_producer m s) \<or> \<not> adapter_claimed (join_producer m s))"
  using assms wrap_up_ready [OF assms] by (auto simp: join_producer_def)

lemma barrier_resume_ready:
  assumes "ready s"
  shows "ready (barrier_resume h s) \<and>
    stages_left (barrier (barrier_resume h s)) \<le> stages_left (barrier s) - 1"
proof (cases "barrier s")
  case Settling
  then have "delivery_settled s" using assms by (auto simp: ready_def exec_ok_def)
  then show ?thesis
    using assms Settling barrier_resume_ok [of s h]
    by (auto simp: ready_def barrier_resume_def reported_stage_def finalize_delivery_def)
next
  case (Cancelling m)
  then show ?thesis
    using assms barrier_resume_ok [of s h] join_producer_ready [of s m]
    by (auto simp: ready_def barrier_resume_def reported_stage_def)
next
  case (Returning m)
  then show ?thesis
    using assms barrier_resume_ok [of s h] join_producer_ready [of s m]
    by (auto simp: ready_def barrier_resume_def reported_stage_def)
next
  case (Joining m)
  then show ?thesis
    using assms barrier_resume_ok [of s h] wrap_up_ready [of s m]
    by (auto simp: ready_def barrier_resume_def reported_stage_def)
qed (use assms in \<open>auto simp: ready_def barrier_resume_def reported_stage_def\<close>)

lemma barrier_resumes:
  "ready s \<Longrightarrow> stages_left (barrier s) \<le> n \<Longrightarrow> barrier ((barrier_resume h ^^ n) s) = Finished \<and>
    exec_ok ((barrier_resume h ^^ n) s)"
proof (induction n arbitrary: s)
  case 0
  then show ?case by (cases "barrier s") (auto simp: ready_def reported_stage_def)
next
  case (Suc n)
  then have "ready (barrier_resume h s)" "stages_left (barrier (barrier_resume h s)) \<le> n"
    using barrier_resume_ready [of s h] by auto
  then show ?case using Suc.IH by (simp add: funpow_swap1)
qed

section \<open>Properties\<close>

lemma run_exec_events:
  "runs_ok exec_enabled (exec_perform norm h) evs s \<Longrightarrow>
    (exec_step norm h)\<^sup>*\<^sup>* s (run_all (exec_perform norm h) evs s)"
  by (rule run_all_steps [of exec_enabled]) (auto intro: exec_step.event)

lemmas exec_eval = exec_start_def exec_init_def first_emission_def produce_next_def produce_resume_def
  finish_def report_def finalize_ok_def barrier_resume_def join_producer_def wrap_up_def
  settle_delivery_def finalize_delivery_def mark_delivered_def on_writer_def claim_adapter_def
  enqueue_answer_def on_delivery_abort_def

text \<open>C6: a streamed response ends once. Its outcome is reported at most once, it is a success exactly
  when the terminal cause is one, and once the execution is completed it has been reported, the
  upstream was cancelled once, the host's finalizer ran once if one was registered, and no abort
  listener is left.\<close>

theorem stream_outcome_once:
  assumes "(exec_step norm h)\<^sup>*\<^sup>* (exec_start signal gone) s"
  shows "length (observed s) \<le> 1 \<and> upstream_cancels s \<le> 1 \<and> finalizer_calls s \<le> 1 \<and>
    (\<forall>r \<in> set (observed s). is_success r \<longleftrightarrow> exec_cause s = Some Semantic_success) \<and>
    (exec_state s = Completed \<longrightarrow>
      observed s \<noteq> [] \<and> upstream_cancels s = 1 \<and> \<not> listening s \<and>
      finalizer_calls s = (if adapter_claimed s then 1 else 0))"
proof -
  have "exec_ok s" by (rule exec_run.inv_reachable [OF assms])
  then show ?thesis by (cases "barrier s") (auto simp: exec_defs split: if_splits)
qed

lemma stream_outcome_once_witness:
  "let s = run_all (exec_perform (\<lambda>e. e) True)
       [First_emission (Some (Wire [1])), Claim_adapter, Consumer_pull, Adapter_delivered,
        Produce_resume, Produce_resume, Produce_next (Some (Terminal (Success_result (7 :: nat)) Close_mode)),
        Finalize_ok, Delivery_aborted, Barrier_resume, Barrier_resume, Adapter_settled, Barrier_resume]
       (exec_start \<lparr>aborted = False, reason = Other_error\<rparr> False)
   in exec_state s = Completed \<and> observed s = [Success_result 7] \<and> finalizer_calls s = 1 \<and>
     upstream_cancels s = 1"
proof -
  let ?evs = "[First_emission (Some (Wire [1])), Claim_adapter, Consumer_pull, Adapter_delivered,
    Produce_resume, Produce_resume, Produce_next (Some (Terminal (Success_result (7 :: nat)) Close_mode)),
    Finalize_ok, Delivery_aborted, Barrier_resume, Barrier_resume, Adapter_settled, Barrier_resume]"
  let ?start = "exec_start \<lparr>aborted = False, reason = Other_error\<rparr> False"
  let ?s = "run_all (exec_perform (\<lambda>e. e) True) ?evs ?start"
  have "(exec_step (\<lambda>e. e) True)\<^sup>*\<^sup>* ?start ?s"
    by (rule run_exec_events) (simp add: exec_eval new_stream_writer_def writer_ops)
  note facts = stream_outcome_once [OF this]
  have "exec_state ?s = Completed" "observed ?s = [Success_result 7]" "adapter_claimed ?s"
    by (simp_all add: exec_eval new_stream_writer_def writer_ops)
  with facts show ?thesis unfolding Let_def by (simp only:) simp
qed

text \<open>C31: the first outcome stands: once it is reported, no later event (an abort, a cancellation, a
  failure of the producer, a shutdown) changes the outcome or the terminal cause.\<close>

theorem stream_outcome_stands:
  assumes "(exec_step norm h)\<^sup>*\<^sup>* (exec_start signal gone) s" and "observed s \<noteq> []"
    and "(exec_step norm h)\<^sup>*\<^sup>* s t"
  shows "observed t = observed s \<and> exec_cause t = exec_cause s"
  using assms(3)
proof (induction rule: rtranclp_induct)
  case (step t u)
  have "exec_ok t"
    by (rule exec_run.inv_reachable [OF rtranclp_trans [OF assms(1) step.hyps(1)]])
  moreover have "observed t \<noteq> []" using step.IH assms(2) by simp
  ultimately have "reported_stage t" by (rule observed_reported)
  with step.hyps(2) have "outcome_of u = outcome_of t"
    by (auto elim!: exec_stepE simp: exec_perform_outcome)
  with step.IH show ?case by (simp add: outcome_of_def)
qed simp

lemma stream_outcome_stands_witness:
  "let start = exec_start \<lparr>aborted = False, reason = Other_error\<rparr> False :: nat stream_exec;
       s = run_all (exec_perform (\<lambda>e. e) True) [First_emission (Some (Wire [1])), Delivery_aborted] start;
       t = run_all (exec_perform (\<lambda>e. e) True) [Request_aborted Other_error] s
   in exec_cause s = Some Client_cancel \<and> exec_cause t = exec_cause s"
proof -
  let ?start = "exec_start \<lparr>aborted = False, reason = Other_error\<rparr> False :: nat stream_exec"
  let ?s = "run_all (exec_perform (\<lambda>e. e) True) [First_emission (Some (Wire [1])), Delivery_aborted] ?start"
  let ?t = "run_all (exec_perform (\<lambda>e. e) True) [Request_aborted Other_error] ?s"
  have "(exec_step (\<lambda>e. e) True)\<^sup>*\<^sup>* ?start ?s"
    by (rule run_exec_events) (simp add: exec_eval new_stream_writer_def writer_ops)
  moreover have "observed ?s \<noteq> []" "exec_cause ?s = Some Client_cancel"
    by (simp_all add: exec_eval new_stream_writer_def writer_ops)
  moreover have "(exec_step (\<lambda>e. e) True)\<^sup>*\<^sup>* ?s ?t"
    by (rule run_exec_events) (simp add: exec_eval new_stream_writer_def writer_ops)
  ultimately show ?thesis unfolding Let_def by (metis stream_outcome_stands)
qed

text \<open>C13: an execution that has reported its outcome completes: once the delivery is settled, or when no
  host adapter was claimed, four resumptions of its barrier (each cleanup is bounded by a timer) bring
  it to \<open>completed\<close>.\<close>

theorem stream_completes:
  assumes "(exec_step norm h)\<^sup>*\<^sup>* (exec_start signal gone) s" and "observed s \<noteq> []"
    and "delivery_settled s \<or> \<not> adapter_claimed s"
  shows "exec_state ((barrier_resume h ^^ 4) s) = Completed"
proof -
  have ok: "exec_ok s" by (rule exec_run.inv_reachable [OF assms(1)])
  then have "ready s" using assms(2,3) by (simp add: ready_def observed_reported)
  moreover have "stages_left (barrier s) \<le> 4" by (cases "barrier s") simp_all
  ultimately have "barrier ((barrier_resume h ^^ 4) s) = Finished \<and> exec_ok ((barrier_resume h ^^ 4) s)"
    by (rule barrier_resumes)
  then show ?thesis by (auto simp: exec_ok_def simp del: funpow.simps)
qed

lemma stream_completes_witness:
  "let s = run_all (exec_perform (\<lambda>e. e) True) [Delivery_aborted]
       (exec_start \<lparr>aborted = False, reason = Other_error\<rparr> False :: nat stream_exec)
   in exec_state s = Terminating \<and> exec_state ((barrier_resume True ^^ 4) s) = Completed"
proof -
  let ?start = "exec_start \<lparr>aborted = False, reason = Other_error\<rparr> False :: nat stream_exec"
  let ?s = "run_all (exec_perform (\<lambda>e. e) True) [Delivery_aborted] ?start"
  have run: "(exec_step (\<lambda>e. e) True)\<^sup>*\<^sup>* ?start ?s"
    by (rule run_exec_events) (simp add: exec_eval)
  have "observed ?s \<noteq> []" "\<not> adapter_claimed ?s" "exec_state ?s = Terminating"
    by (simp_all add: exec_eval)
  with stream_completes [OF run] show ?thesis unfolding Let_def by blast
qed

end
