(* ===== verification/Request_Attempt.thy ===== *)
theory Request_Attempt
  imports Gateway_Failures
begin

text \<open>
  The model of \<open>src/src/gateway/request_attempt.ts\<close>: what the gateway remembers of one request until
  its outcome is claimed, and the one usage record it hands to the telemetry recorder. The recorder
  and the diagnostics are outside; their calls are kept in order in \<open>recorded\<close> and \<open>diagnosed\<close>. What
  the recorder throws is swallowed by the code, so whether it throws is not part of the model.
\<close>

section \<open>State\<close>

datatype telemetry_protocol =
    Openai_chat | Openai_responses_unknown | Openai_responses_native | Openai_responses_bridge
  | Anthropic

datatype attempt_outcome = Success | Failed failure_outcome

record attempt_usage =
  input_tokens :: int
  output_tokens :: int
  cache_tokens :: int
  reasoning_tokens :: "int option"

definition zero_usage :: attempt_usage where
  "zero_usage = \<lparr>input_tokens = 0, output_tokens = 0, cache_tokens = 0, reasoning_tokens = None\<rparr>"

record usage_update =
  occurred_at :: int
  update_account :: string
  update_protocol :: telemetry_protocol
  update_model :: string
  update_outcome :: attempt_outcome
  request_count :: int
  error_count :: int
  update_input :: int
  update_output :: int
  update_cache :: int
  latency :: int

datatype diagnostic_call =
    Diag_reasoning int
  | Diag_outcome attempt_outcome
  | Diag_model string
  | Diag_committed
  | Diag_failure thrown

record attempt_options =
  option_protocol :: telemetry_protocol
  has_recorder :: bool
  aborted_error_count :: int
  started_at :: int

record attempt =
  account_id :: string
  requested_model :: "string option"
  resolved_model :: "string option"
  protocol :: telemetry_protocol
  observed_usage :: attempt_usage
  prepared :: bool
  handed_off :: bool
  attempt_committed :: bool
  finalized :: bool
  recorded :: "usage_update list"
  diagnosed :: "diagnostic_call list"

definition create_request_attempt :: "attempt_options \<Rightarrow> attempt" where
  "create_request_attempt opts =
     \<lparr>account_id = ''unbound'', requested_model = None, resolved_model = None,
      protocol = option_protocol opts, observed_usage = zero_usage, prepared = False,
      handed_off = False, attempt_committed = False, finalized = False, recorded = [], diagnosed = []\<rparr>"

section \<open>Operations\<close>

definition count_errors :: "attempt_outcome \<Rightarrow> int \<Rightarrow> int" where
  "count_errors out aborted_count =
     (case out of
        Success \<Rightarrow> 0
      | Failed Aborted_outcome \<Rightarrow> aborted_count
      | Failed _ \<Rightarrow> 1)"

definition diagnose :: "diagnostic_call \<Rightarrow> attempt \<Rightarrow> attempt" where
  "diagnose d a = a\<lparr>diagnosed := diagnosed a @ [d]\<rparr>"

definition model_name :: "attempt \<Rightarrow> string" where
  "model_name a =
     (case resolved_model a of
        Some m \<Rightarrow> m
      | None \<Rightarrow> (case requested_model a of Some m \<Rightarrow> m | None \<Rightarrow> ''unresolved''))"

definition usage_record :: "attempt_options \<Rightarrow> int \<Rightarrow> attempt_outcome \<Rightarrow> attempt_usage \<Rightarrow> attempt \<Rightarrow> usage_update" where
  "usage_record opts now out usage a =
     \<lparr>occurred_at = now, update_account = account_id a, update_protocol = protocol a,
      update_model = model_name a, update_outcome = out, request_count = 1,
      error_count = count_errors out (aborted_error_count opts),
      update_input = input_tokens usage, update_output = output_tokens usage,
      update_cache = cache_tokens usage, latency = max 0 (now - started_at opts)\<rparr>"

definition finish_attempt :: "attempt_options \<Rightarrow> int \<Rightarrow> attempt_outcome \<Rightarrow> attempt_usage \<Rightarrow> attempt \<Rightarrow> attempt" where
  "finish_attempt opts now out usage a =
     (if finalized a then a
      else
        let a1 = a\<lparr>finalized := True\<rparr>;
            a2 = (case reasoning_tokens usage of Some n \<Rightarrow> diagnose (Diag_reasoning n) a1 | None \<Rightarrow> a1);
            a3 = diagnose (Diag_outcome out) a2
        in if has_recorder opts
           then a3\<lparr>recorded := recorded a3 @ [usage_record opts now out usage a3]\<rparr> else a3)"

definition set_account :: "string \<Rightarrow> attempt \<Rightarrow> attempt" where
  "set_account v a = (if account_id a = ''unbound'' \<and> v \<noteq> [] then a\<lparr>account_id := v\<rparr> else a)"

definition set_requested_model :: "string \<Rightarrow> attempt \<Rightarrow> attempt" where
  "set_requested_model v a =
     (if requested_model a = None \<and> resolved_model a = None \<and> v \<noteq> [] then a\<lparr>requested_model := Some v\<rparr>
      else a)"

definition set_resolved_model :: "string \<Rightarrow> attempt \<Rightarrow> attempt" where
  "set_resolved_model v a =
     (if resolved_model a = None \<and> v \<noteq> [] then diagnose (Diag_model v) (a\<lparr>resolved_model := Some v\<rparr>)
      else a)"

definition set_protocol :: "telemetry_protocol \<Rightarrow> attempt \<Rightarrow> attempt" where
  "set_protocol v a = (if protocol a = Openai_responses_unknown then a\<lparr>protocol := v\<rparr> else a)"

definition observe_usage :: "attempt_usage \<Rightarrow> attempt \<Rightarrow> attempt" where
  "observe_usage u a = a\<lparr>observed_usage := u\<rparr>"

definition mark_prepared :: "attempt \<Rightarrow> attempt" where
  "mark_prepared a = a\<lparr>prepared := True\<rparr>"

definition mark_handed_off :: "attempt \<Rightarrow> attempt" where
  "mark_handed_off a = (if prepared a then a\<lparr>handed_off := True\<rparr> else a)"

definition mark_committed :: "attempt \<Rightarrow> attempt" where
  "mark_committed a =
     (if handed_off a then (if attempt_committed a then a else diagnose Diag_committed a)\<lparr>attempt_committed := True\<rparr> else a)"

definition attempt_success :: "attempt_options \<Rightarrow> int \<Rightarrow> attempt_usage option \<Rightarrow> attempt \<Rightarrow> attempt" where
  "attempt_success opts now usage a =
     finish_attempt opts now Success (case usage of Some u \<Rightarrow> u | None \<Rightarrow> observed_usage a) a"

definition attempt_failure :: "attempt_options \<Rightarrow> int \<Rightarrow> thrown \<Rightarrow> attempt \<Rightarrow> attempt" where
  "attempt_failure opts now e a =
     finish_attempt opts now (Failed (failure_outcome_of (failure_from_unknown e Src_gateway Ph_internal)))
       zero_usage (diagnose (Diag_failure e) a)"

section \<open>Runs\<close>

datatype attempt_call =
    Set_account string
  | Set_requested_model string
  | Set_resolved_model string
  | Set_protocol telemetry_protocol
  | Observe_usage attempt_usage
  | Mark_prepared
  | Mark_handed_off
  | Mark_committed
  | Finish int attempt_outcome attempt_usage
  | Attempt_success int "attempt_usage option"
  | Attempt_failure int thrown

fun attempt_perform :: "attempt_options \<Rightarrow> attempt_call \<Rightarrow> attempt \<Rightarrow> attempt" where
  "attempt_perform opts (Set_account v) a = set_account v a"
| "attempt_perform opts (Set_requested_model v) a = set_requested_model v a"
| "attempt_perform opts (Set_resolved_model v) a = set_resolved_model v a"
| "attempt_perform opts (Set_protocol v) a = set_protocol v a"
| "attempt_perform opts (Observe_usage u) a = observe_usage u a"
| "attempt_perform opts Mark_prepared a = mark_prepared a"
| "attempt_perform opts Mark_handed_off a = mark_handed_off a"
| "attempt_perform opts Mark_committed a = mark_committed a"
| "attempt_perform opts (Finish now out u) a = finish_attempt opts now out u a"
| "attempt_perform opts (Attempt_success now u) a = attempt_success opts now u a"
| "attempt_perform opts (Attempt_failure now e) a = attempt_failure opts now e a"

definition attempt_step :: "attempt_options \<Rightarrow> attempt \<Rightarrow> attempt \<Rightarrow> bool" where
  "attempt_step opts a b \<longleftrightarrow> (\<exists>c. b = attempt_perform opts c a)"

fun concludes :: "attempt_call \<Rightarrow> bool" where
  "concludes (Finish _ _ _) = True"
| "concludes (Attempt_success _ _) = True"
| "concludes (Attempt_failure _ _) = True"
| "concludes _ = False"

section \<open>The invariant\<close>

definition attempt_ok :: "attempt_options \<Rightarrow> attempt \<Rightarrow> bool" where
  "attempt_ok opts a \<longleftrightarrow>
     length (recorded a) = (if finalized a \<and> has_recorder opts then 1 else 0) \<and>
     (\<forall>u \<in> set (recorded a). request_count u = 1 \<and> 0 \<le> latency u \<and>
       error_count u = count_errors (update_outcome u) (aborted_error_count opts)) \<and>
     (attempt_committed a \<longrightarrow> handed_off a) \<and> (handed_off a \<longrightarrow> prepared a) \<and>
     length (filter (\<lambda>d. d = Diag_committed) (diagnosed a)) = (if attempt_committed a then 1 else 0) \<and>
     (requested_model a \<noteq> Some []) \<and> (resolved_model a \<noteq> Some [])"

lemma finish_attempt_ok: "attempt_ok opts a \<Longrightarrow> attempt_ok opts (finish_attempt opts now out u a)"
  by (auto simp: finish_attempt_def attempt_ok_def diagnose_def usage_record_def Let_def
      split: option.split)

lemma attempt_perform_ok: "attempt_ok opts a \<Longrightarrow> attempt_ok opts (attempt_perform opts c a)"
proof (cases c)
  case (Attempt_failure now e)
  assume "attempt_ok opts a"
  then have "attempt_ok opts (diagnose (Diag_failure e) a)"
    by (simp add: attempt_ok_def diagnose_def)
  with Attempt_failure show ?thesis by (simp add: attempt_failure_def finish_attempt_ok)
qed (simp_all add: attempt_success_def finish_attempt_ok,
    auto simp: attempt_ok_def set_account_def set_requested_model_def set_resolved_model_def
      set_protocol_def observe_usage_def mark_prepared_def mark_handed_off_def mark_committed_def
      diagnose_def)

lemma create_attempt_ok: "attempt_ok opts (create_request_attempt opts)"
  by (simp add: create_request_attempt_def attempt_ok_def)

interpretation attempt_run: step_invariant "create_request_attempt opts" "attempt_step opts" "attempt_ok opts"
  for opts
  by unfold_locales (auto simp: create_attempt_ok attempt_step_def attempt_perform_ok)

lemma finalized_stays: "finalized a \<Longrightarrow> finalized (attempt_perform opts c a) \<and>
    recorded (attempt_perform opts c a) = recorded a"
  by (cases c)
    (auto simp: set_account_def set_requested_model_def set_resolved_model_def set_protocol_def
      observe_usage_def mark_prepared_def mark_handed_off_def mark_committed_def diagnose_def
      finish_attempt_def attempt_success_def attempt_failure_def)

lemma concludes_finalizes: "concludes c \<Longrightarrow> finalized (attempt_perform opts c a)"
  by (cases c)
    (auto simp: finish_attempt_def attempt_success_def attempt_failure_def diagnose_def Let_def
      split: option.split)

lemma finalized_run:
  "(attempt_step opts)\<^sup>*\<^sup>* a b \<Longrightarrow> finalized a \<Longrightarrow> finalized b \<and> recorded b = recorded a"
  by (induction rule: rtranclp_induct) (auto simp: attempt_step_def finalized_stays)

section \<open>Properties\<close>

text \<open>C10: one request is accounted once. Whatever calls the endpoint, the stream and the host make, and
  in whatever order, the recorder gets no usage record before an outcome is claimed and exactly one
  after it, counting one request and at most the errors of its outcome; and a response is committed
  only after it was prepared and handed off.\<close>

theorem attempt_recorded_once:
  assumes "(attempt_step opts)\<^sup>*\<^sup>* (create_request_attempt opts) a" and "has_recorder opts"
  shows "length (recorded a) = (if finalized a then 1 else 0) \<and>
    (\<forall>u \<in> set (recorded a). request_count u = 1 \<and> 0 \<le> latency u \<and>
       error_count u = count_errors (update_outcome u) (aborted_error_count opts)) \<and>
    (attempt_committed a \<longrightarrow> handed_off a \<and> prepared a)"
  using attempt_run.inv_reachable [OF assms(1)] assms(2) by (auto simp: attempt_ok_def)

lemma attempt_recorded_once_witness:
  "let opts = \<lparr>option_protocol = Openai_chat, has_recorder = True, aborted_error_count = 0, started_at = 5\<rparr>;
       a = run_all (attempt_perform opts)
             [Mark_committed, Mark_prepared, Attempt_failure 9 Other_error, Attempt_success 12 None]
             (create_request_attempt opts)
   in length (recorded a) = 1 \<and> \<not> attempt_committed a"
proof -
  let ?o = "\<lparr>option_protocol = Openai_chat, has_recorder = True, aborted_error_count = 0, started_at = 5\<rparr>"
  let ?calls = "[Mark_committed, Mark_prepared, Attempt_failure 9 Other_error, Attempt_success 12 None]"
  let ?a = "run_all (attempt_perform ?o) ?calls (create_request_attempt ?o)"
  have "(attempt_step ?o)\<^sup>*\<^sup>* (create_request_attempt ?o) ?a"
    by (rule run_all_steps [of "\<lambda>_ _. True"]) (auto simp: attempt_step_def)
  note facts = attempt_recorded_once [OF this]
  have "finalized ?a" "\<not> handed_off ?a"
    by (simp_all add: create_request_attempt_def mark_committed_def mark_prepared_def
        attempt_failure_def attempt_success_def finish_attempt_def diagnose_def zero_usage_def Let_def)
  with facts show ?thesis unfolding Let_def by (simp del: run_all.simps)
qed

text \<open>C32: the first outcome claims the attempt: after a call that concludes it, no later call changes
  what was recorded.\<close>

theorem attempt_outcome_stands:
  assumes "concludes c" and "(attempt_step opts)\<^sup>*\<^sup>* (attempt_perform opts c a) b"
  shows "finalized b \<and> recorded b = recorded (attempt_perform opts c a)"
  using finalized_run [OF assms(2) concludes_finalizes [OF assms(1)]] by simp

lemma attempt_outcome_stands_witness:
  "let opts = \<lparr>option_protocol = Anthropic, has_recorder = True, aborted_error_count = 1, started_at = 0\<rparr>;
       a = attempt_perform opts (Attempt_failure 3 Other_error) (create_request_attempt opts)
   in recorded (attempt_perform opts (Attempt_success 4 None) a) = recorded a"
proof -
  let ?o = "\<lparr>option_protocol = Anthropic, has_recorder = True, aborted_error_count = 1, started_at = 0\<rparr>"
  let ?a = "attempt_perform ?o (Attempt_failure 3 Other_error) (create_request_attempt ?o)"
  have "(attempt_step ?o)\<^sup>*\<^sup>* ?a (attempt_perform ?o (Attempt_success 4 None) ?a)"
    unfolding attempt_step_def by blast
  then show ?thesis unfolding Let_def
    by (rule attempt_outcome_stands [THEN conjunct2, rotated]) simp
qed

end
