(* ===== verification/Conversion_Basics.thy ===== *)
theory Conversion_Basics
  imports Gateway_Prelude
begin

text \<open>
  Three small modules of \<open>src/src/protocols/conversion\<close>: \<open>routing.ts\<close> (which upstream protocols
  can serve a request), \<open>degradations.ts\<close> (the collector of what a conversion left out) and
  \<open>usage.ts\<close> (merging the token counts of a Messages stream).
\<close>

section \<open>Routing\<close>

datatype protocol = Chat | Messages | Responses

definition priorities :: "protocol \<Rightarrow> protocol list" where
  "priorities source = (case source of
       Chat \<Rightarrow> [Responses, Messages]
     | Messages \<Rightarrow> [Chat, Responses]
     | Responses \<Rightarrow> [Chat, Messages])"

definition protocol_targets :: "protocol \<Rightarrow> protocol list \<Rightarrow> protocol list" where
  "protocol_targets source protocols =
     (if source \<in> set protocols then [source]
      else filter (\<lambda>target. target \<in> set protocols) (priorities source))"

lemma set_priorities: "set (priorities source) = - {source}" "distinct (priorities source)"
  by (cases source; auto simp: priorities_def; metis protocol.exhaust)+

lemma set_protocol_targets:
  "set (protocol_targets source protocols) = (if source \<in> set protocols then {source} else set protocols)"
  using set_priorities(1) [of source] by (auto simp: protocol_targets_def)

lemma distinct_protocol_targets: "distinct (protocol_targets source protocols)"
  using set_priorities(2) [of source] by (simp add: protocol_targets_def)

section \<open>Degradations\<close>

datatype degradation =
    Cache_control_omitted
  | Continuation_history_omitted
  | Reasoning_budget_coarsened
  | Reasoning_presentation_omitted
  | Reasoning_state_omitted
  | Sampling_top_k_omitted
  | Messages_extensions_omitted
  | Chat_extensions_omitted
  | Responses_extensions_omitted
  | Messages_leading_user_synthesized
  | Request_option_omitted
  | Tools_history_omitted
  | Tools_parallel_control_omitted

definition degradation_rules :: "degradation list" where
  "degradation_rules =
     [Cache_control_omitted, Continuation_history_omitted, Reasoning_budget_coarsened,
      Reasoning_presentation_omitted, Reasoning_state_omitted, Sampling_top_k_omitted,
      Messages_extensions_omitted, Chat_extensions_omitted, Responses_extensions_omitted,
      Messages_leading_user_synthesized, Request_option_omitted, Tools_history_omitted,
      Tools_parallel_control_omitted]"

text \<open>The collector's set of rules, and its three operations.\<close>

type_synonym collector = "degradation set"

definition new_collector :: "degradation list \<Rightarrow> collector" where
  "new_collector initial = fold insert initial {}"

definition add_degradation :: "degradation \<Rightarrow> collector \<Rightarrow> collector" where
  "add_degradation rule rules = insert rule rules"

definition collected :: "collector \<Rightarrow> degradation list" where
  "collected rules = filter (\<lambda>rule. rule \<in> rules) degradation_rules"

definition canonicalize_degradations :: "degradation list \<Rightarrow> degradation list" where
  "canonicalize_degradations rules = collected (new_collector rules)"

lemma set_degradation_rules: "set degradation_rules = UNIV" "distinct degradation_rules"
proof -
  have "d \<in> set degradation_rules" for d
    by (cases d) (simp_all add: degradation_rules_def)
  then show "set degradation_rules = UNIV" by auto
  show "distinct degradation_rules" by (simp add: degradation_rules_def)
qed

lemma new_collector_set: "new_collector initial = set initial"
  unfolding new_collector_def by (simp add: union_set_fold [symmetric])

lemma set_collected [simp]: "set (collected rules) = rules" "distinct (collected rules)"
  by (auto simp: collected_def set_degradation_rules)

lemma canonicalize_degradations_eq:
  "canonicalize_degradations xs = canonicalize_degradations ys \<longleftrightarrow> set xs = set ys"
  by (metis canonicalize_degradations_def new_collector_set set_collected(1))

section \<open>Usage\<close>

record semantic_usage =
  input_tokens :: int
  output_tokens :: int
  cache_read_tokens :: int
  cache_write_tokens :: int
  reasoning_tokens :: int
  reported_reasoning_tokens :: "int option"

record partial_usage =
  upd_input :: "int option"
  upd_output :: "int option"
  upd_cache_read :: "int option"
  upd_cache_write :: "int option"
  upd_thinking :: "int option"

definition or_default :: "'a option \<Rightarrow> 'a \<Rightarrow> 'a" where
  "or_default v d = (case v of None \<Rightarrow> d | Some x \<Rightarrow> x)"

definition merge_messages_usage :: "semantic_usage \<Rightarrow> partial_usage \<Rightarrow> semantic_usage" where
  "merge_messages_usage current update =
     (let cache_read = or_default (upd_cache_read update) (cache_read_tokens current);
          cache_write = or_default (upd_cache_write update) (cache_write_tokens current);
          current_noncache = max 0 (input_tokens current - cache_read_tokens current
            - cache_write_tokens current)
      in \<lparr> input_tokens = or_default (upd_input update) current_noncache + cache_read + cache_write,
           output_tokens = or_default (upd_output update) (output_tokens current),
           cache_read_tokens = cache_read,
           cache_write_tokens = cache_write,
           reasoning_tokens = or_default (upd_thinking update) (reasoning_tokens current),
           reported_reasoning_tokens = (case upd_thinking update of
               None \<Rightarrow> reported_reasoning_tokens current
             | Some n \<Rightarrow> Some n) \<rparr>)"

text \<open>
  What the merged counts are meant to be: the latest report of each of the five wire counters.
  \<open>usage_of\<close> builds the record from them; a stream of updates, merged one by one, is the record of
  the latest reports.
\<close>

definition usage_of :: "partial_usage \<Rightarrow> semantic_usage" where
  "usage_of u = merge_messages_usage
     \<lparr> input_tokens = 0, output_tokens = 0, cache_read_tokens = 0, cache_write_tokens = 0,
       reasoning_tokens = 0, reported_reasoning_tokens = None \<rparr> u"

definition latest :: "partial_usage \<Rightarrow> partial_usage \<Rightarrow> partial_usage" where
  "latest u v =
     (let pick = (\<lambda>f. case f v of None \<Rightarrow> f u | Some n \<Rightarrow> Some (n :: int))
      in \<lparr> upd_input = pick upd_input, upd_output = pick upd_output,
           upd_cache_read = pick upd_cache_read, upd_cache_write = pick upd_cache_write,
           upd_thinking = pick upd_thinking \<rparr>)"

definition nonnegative_update :: "partial_usage \<Rightarrow> bool" where
  "nonnegative_update u \<longleftrightarrow> (\<forall>n. upd_input u = Some n \<longrightarrow> 0 \<le> n)"

lemma or_default_pick:
  "or_default (case v of None \<Rightarrow> u | Some n \<Rightarrow> Some n) d = or_default v (or_default u d)"
  by (simp add: or_default_def split: option.split)

lemma or_default_simps [simp]: "or_default None d = d" "or_default (Some x) d = x"
  by (simp_all add: or_default_def)

lemma nonnegative_input: "nonnegative_update u \<Longrightarrow> 0 \<le> or_default (upd_input u) 0"
  by (auto simp: nonnegative_update_def or_default_def split: option.split)

lemma merge_usage_of:
  assumes "nonnegative_update u"
  shows "merge_messages_usage (usage_of u) v = usage_of (latest u v)"
  using nonnegative_input [OF assms]
  by (cases "upd_thinking v"; cases "upd_thinking u")
    (simp_all add: merge_messages_usage_def usage_of_def latest_def or_default_pick Let_def max_def)

lemma nonnegative_latest:
  "nonnegative_update u \<Longrightarrow> nonnegative_update v \<Longrightarrow> nonnegative_update (latest u v)"
  by (cases "upd_input v") (simp_all add: nonnegative_update_def latest_def)

lemma merge_all_usage_of:
  "nonnegative_update u \<Longrightarrow> \<forall>v \<in> set vs. nonnegative_update v \<Longrightarrow>
   foldl merge_messages_usage (usage_of u) vs = usage_of (foldl latest u vs)"
  by (induction vs arbitrary: u) (simp_all add: merge_usage_of nonnegative_latest)

section \<open>Properties\<close>


text \<open>C39: the reported degradations are a canonical form of what was recorded: the same rules, each
  once, in one fixed order, so that two conversions that left out the same things report the same
  list, however often and in whatever order they recorded them.\<close>

theorem degradations_canonical:
  "set (canonicalize_degradations rules) = set rules \<and>
   distinct (canonicalize_degradations rules) \<and>
   (canonicalize_degradations rules = canonicalize_degradations other \<longleftrightarrow> set rules = set other) \<and>
   canonicalize_degradations (canonicalize_degradations rules) = canonicalize_degradations rules"
  by (simp add: canonicalize_degradations_eq) (simp add: canonicalize_degradations_def new_collector_set)



end
