(* ===== verification/Error_State.thy ===== *)
theory Error_State
  imports Gateway_Prelude
begin

text \<open>
  Stateful code that may throw: a computation takes the state of its object and either throws or
  returns a value and the next state. The classes of the conversion pipeline are written with it,
  one computation per method. A throw ends the conversion, so the half-updated object it leaves
  behind is not kept. The second half holds the two ways the development reasons about such code:
  triples (\<open>triple P m Q\<close>: from a state satisfying P, a return satisfies Q) and relations every
  returning computation stays inside (\<open>within R m\<close>, R a preorder).
\<close>

type_synonym ('e, 's, 'a) errst = "'s \<Rightarrow> 'e + 'a \<times> 's"

definition sreturn :: "'a \<Rightarrow> ('e, 's, 'a) errst" where
  "sreturn x s = Inr (x, s)"

definition sfail :: "'e \<Rightarrow> ('e, 's, 'a) errst" where
  "sfail e s = Inl e"

definition sbind :: "('e, 's, 'a) errst \<Rightarrow> ('a \<Rightarrow> ('e, 's, 'b) errst) \<Rightarrow> ('e, 's, 'b) errst" where
  "sbind m f s = ebind (m s) (\<lambda>(x, t). f x t)"

definition sthen :: "('e, 's, 'a) errst \<Rightarrow> ('e, 's, 'b) errst \<Rightarrow> ('e, 's, 'b) errst" where
  "sthen m n = sbind m (\<lambda>_. n)"

definition sget :: "('s \<Rightarrow> 'a) \<Rightarrow> ('e, 's, 'a) errst" where
  "sget f s = Inr (f s, s)"

definition smodify :: "('s \<Rightarrow> 's) \<Rightarrow> ('e, 's, unit) errst" where
  "smodify f s = Inr ((), f s)"

definition srequire :: "bool \<Rightarrow> 'e \<Rightarrow> ('e, 's, unit) errst" where
  "srequire b e = (if b then sreturn () else sfail e)"

definition slift :: "'e + 'a \<Rightarrow> ('e, 's, 'a) errst" where
  "slift r s = map_sum id (\<lambda>x. (x, s)) r"

definition swhen :: "bool \<Rightarrow> ('e, 's, unit) errst \<Rightarrow> ('e, 's, unit) errst" where
  "swhen b m = (if b then m else sreturn ())"

fun sfor :: "('x \<Rightarrow> ('e, 's, unit) errst) \<Rightarrow> 'x list \<Rightarrow> ('e, 's, unit) errst" where
  "sfor f [] = sreturn ()"
| "sfor f (x # xs) = sthen (f x) (sfor f xs)"

fun scollect :: "('x \<Rightarrow> ('e, 's, 'a list) errst) \<Rightarrow> 'x list \<Rightarrow> ('e, 's, 'a list) errst" where
  "scollect f [] = sreturn []"
| "scollect f (x # xs) = sbind (f x) (\<lambda>ys. sbind (scollect f xs) (\<lambda>zs. sreturn (ys @ zs)))"

lemmas errst_defs = sreturn_def sfail_def sbind_def sthen_def sget_def smodify_def srequire_def
  slift_def swhen_def

text \<open>Running a computation on a given state.\<close>

lemma errst_run:
  "sreturn x s = Inr (x, s)"
  "sfail e s = Inl e"
  "sget f s = Inr (f s, s)"
  "smodify g s = Inr ((), g s)"
  "sbind m k s = ebind (m s) (\<lambda>(x, t). k x t)"
  "sthen m n s = ebind (m s) (\<lambda>(x, t). n t)"
  "srequire b e s = (if b then Inr ((), s) else Inl e)"
  "swhen b u s = (if b then u s else Inr ((), s))"
  "slift r s = map_sum id (\<lambda>x. (x, s)) r"
  by (simp_all add: errst_defs)

lemma sbind_cong [fundef_cong]:
  "m s = m' s \<Longrightarrow> (\<And>x t. m' s = Inr (x, t) \<Longrightarrow> f x t = f' x t) \<Longrightarrow> s = s' \<Longrightarrow>
   sbind m f s = sbind m' f' s'"
  by (auto simp: sbind_def intro!: ebind_cong)

lemma errst_apply [simp]:
  "sreturn x s = Inr (x, s)"
  "sfail e s = Inl e"
  "sget f s = Inr (f s, s)"
  "smodify g s = Inr ((), g s)"
  by (simp_all add: errst_defs)

lemma sbind_Inr [simp]: "sbind m f s = Inr (y, u) \<longleftrightarrow> (\<exists>x t. m s = Inr (x, t) \<and> f x t = Inr (y, u))"
  by (auto simp: sbind_def ebind_eq_Inr)

lemma sthen_Inr [simp]: "sthen m n s = Inr (y, u) \<longleftrightarrow> (\<exists>x t. m s = Inr (x, t) \<and> n t = Inr (y, u))"
  by (simp add: sthen_def)

lemma srequire_Inr [simp]: "srequire b e s = Inr (y, u) \<longleftrightarrow> b \<and> u = s"
  by (auto simp: errst_defs)

lemma slift_Inr [simp]: "slift r s = Inr (y, u) \<longleftrightarrow> r = Inr y \<and> u = s"
  by (cases r) (auto simp: slift_def)

section \<open>Triples\<close>

definition triple :: "('s \<Rightarrow> bool) \<Rightarrow> ('e, 's, 'a) errst \<Rightarrow> ('a \<Rightarrow> 's \<Rightarrow> bool) \<Rightarrow> bool" where
  "triple P m Q \<longleftrightarrow> (\<forall>s x t. P s \<longrightarrow> m s = Inr (x, t) \<longrightarrow> Q x t)"

abbreviation keeps :: "('s \<Rightarrow> bool) \<Rightarrow> ('e, 's, 'a) errst \<Rightarrow> bool" where
  "keeps P m \<equiv> triple P m (\<lambda>_. P)"

lemma tripleI: "(\<And>s x t. P s \<Longrightarrow> m s = Inr (x, t) \<Longrightarrow> Q x t) \<Longrightarrow> triple P m Q"
  by (simp add: triple_def)

lemma tripleD: "triple P m Q \<Longrightarrow> m s = Inr (x, t) \<Longrightarrow> P s \<Longrightarrow> Q x t"
  unfolding triple_def by blast

lemma triple_bind: "triple P m R \<Longrightarrow> (\<And>x. triple (R x) (f x) Q) \<Longrightarrow> triple P (sbind m f) Q"
  unfolding triple_def sbind_Inr by blast

lemma triple_conseq: "triple P' m Q' \<Longrightarrow> (\<And>s. P s \<Longrightarrow> P' s) \<Longrightarrow> (\<And>x t. Q' x t \<Longrightarrow> Q x t) \<Longrightarrow> triple P m Q"
  unfolding triple_def by blast

lemma keeps_return: "keeps P (sreturn x)"
  and keeps_fail: "triple P (sfail e) Q"
  and keeps_get: "keeps P (sget f)"
  and keeps_require: "keeps P (srequire b e)"
  and keeps_lift: "keeps P (slift r)"
  by (auto intro!: tripleI)

lemma keeps_modify: "(\<And>s. P s \<Longrightarrow> P (g s)) \<Longrightarrow> keeps P (smodify g)"
  by (auto intro!: tripleI)

lemma keeps_bind: "keeps P m \<Longrightarrow> (\<And>x. keeps P (f x)) \<Longrightarrow> keeps P (sbind m f)"
  by (rule triple_bind)

lemma keeps_then: "keeps P m \<Longrightarrow> keeps P n \<Longrightarrow> keeps P (sthen m n)"
  unfolding sthen_def by (rule keeps_bind)

lemma keeps_when: "(b \<Longrightarrow> keeps P m) \<Longrightarrow> keeps P (swhen b m)"
  by (simp add: swhen_def keeps_return)

lemma keeps_if: "(b \<Longrightarrow> triple P m Q) \<Longrightarrow> (\<not> b \<Longrightarrow> triple P n Q) \<Longrightarrow> triple P (if b then m else n) Q"
  by simp

lemma keeps_option:
  "(x = None \<Longrightarrow> triple P m Q) \<Longrightarrow> (\<And>v. x = Some v \<Longrightarrow> triple P (n v) Q) \<Longrightarrow>
   triple P (case x of None \<Rightarrow> m | Some v \<Rightarrow> n v) Q"
  by (simp split: option.split)

lemma keeps_for: "(\<And>x. x \<in> set xs \<Longrightarrow> keeps P (f x)) \<Longrightarrow> keeps P (sfor f xs)"
  by (induction xs) (auto intro: keeps_return keeps_then)

lemma keeps_collect: "(\<And>x. x \<in> set xs \<Longrightarrow> keeps P (f x)) \<Longrightarrow> keeps P (scollect f xs)"
  by (induction xs) (auto intro!: keeps_return keeps_bind)

lemmas keeps_intros =
  keeps_return keeps_fail keeps_get keeps_require keeps_lift keeps_bind keeps_then keeps_when
  keeps_if keeps_option keeps_for keeps_collect

section \<open>Relations a computation stays inside\<close>

definition within_from :: "('s \<Rightarrow> bool) \<Rightarrow> ('s \<Rightarrow> 's \<Rightarrow> bool) \<Rightarrow> ('e, 's, 'a) errst \<Rightarrow> bool" where
  "within_from P R m \<longleftrightarrow> (\<forall>s x t. P s \<longrightarrow> m s = Inr (x, t) \<longrightarrow> R s t)"

abbreviation within :: "('s \<Rightarrow> 's \<Rightarrow> bool) \<Rightarrow> ('e, 's, 'a) errst \<Rightarrow> bool" where
  "within R m \<equiv> within_from (\<lambda>_. True) R m"

lemma within_fromI: "(\<And>s x t. P s \<Longrightarrow> m s = Inr (x, t) \<Longrightarrow> R s t) \<Longrightarrow> within_from P R m"
  by (simp add: within_from_def)

lemma within_fromD: "within_from P R m \<Longrightarrow> m s = Inr (x, t) \<Longrightarrow> P s \<Longrightarrow> R s t"
  unfolding within_from_def by blast

lemma withinD: "within R m \<Longrightarrow> m s = Inr (x, t) \<Longrightarrow> R s t"
  unfolding within_from_def by blast

lemma within_weaken: "within_from P' R m \<Longrightarrow> (\<And>s. P s \<Longrightarrow> P' s) \<Longrightarrow> within_from P R m"
  unfolding within_from_def by blast

locale evolution =
  fixes R :: "'s \<Rightarrow> 's \<Rightarrow> bool"
  assumes evolve_refl: "R s s"
    and evolve_trans: "R s t \<Longrightarrow> R t u \<Longrightarrow> R s u"
begin

lemma within_pure:
  "within_from P R (sreturn x)" "within_from P R (sfail e)" "within_from P R (sget f)"
  "within_from P R (srequire b e)" "within_from P R (slift r)"
  by (auto intro!: within_fromI evolve_refl)

lemma within_modify: "(\<And>s. P s \<Longrightarrow> R s (g s)) \<Longrightarrow> within_from P R (smodify g)"
  by (auto intro!: within_fromI)

text \<open>The general rule for sequences, and the one for steps that need nothing of each other.\<close>

lemma within_seq:
  "within_from P R m \<Longrightarrow> triple P m Q \<Longrightarrow> (\<And>x. within_from (Q x) R (f x)) \<Longrightarrow>
   within_from P R (sbind m f)"
  unfolding within_from_def triple_def sbind_Inr by (blast intro: evolve_trans)

lemma within_bind: "within_from P R m \<Longrightarrow> (\<And>x. within R (f x)) \<Longrightarrow> within_from P R (sbind m f)"
  by (rule within_seq [where Q = "\<lambda>_ _. True"]) (simp_all add: triple_def)

lemma within_get: "(\<And>x. within_from (\<lambda>s. P s \<and> x = f s) R (k x)) \<Longrightarrow> within_from P R (sbind (sget f) k)"
  unfolding within_from_def by auto

lemma within_then: "within_from P R m \<Longrightarrow> within R n \<Longrightarrow> within_from P R (sthen m n)"
  unfolding sthen_def by (rule within_bind)

lemma within_require: "(b \<Longrightarrow> within_from P R m) \<Longrightarrow> within_from P R (sthen (srequire b e) m)"
  unfolding within_from_def by auto

lemma within_when: "(b \<Longrightarrow> within_from P R m) \<Longrightarrow> within_from P R (swhen b m)"
  by (simp add: swhen_def within_pure)

lemma within_if:
  "(b \<Longrightarrow> within_from P R m) \<Longrightarrow> (\<not> b \<Longrightarrow> within_from P R n) \<Longrightarrow> within_from P R (if b then m else n)"
  by simp

lemma within_for: "(\<And>x. x \<in> set xs \<Longrightarrow> within R (f x)) \<Longrightarrow> within R (sfor f xs)"
  by (induction xs) (auto intro: within_pure within_then)

lemma within_collect: "(\<And>x. x \<in> set xs \<Longrightarrow> within R (f x)) \<Longrightarrow> within R (scollect f xs)"
  by (induction xs) (auto intro!: within_pure within_bind)

end

end
