(* ===== verification/Stream_Keys.thy ===== *)
theory Stream_Keys
  imports Wire_Writer
begin

text \<open>
  The model of \<open>src/src/protocols/conversion/stream_keys.ts\<close>: the textual keys under which the
  Responses decoder files the items and parts of a response, and the two expressions that read
  them back. Indexes are non-negative integers below \<open>2 ^ 53\<close>, where JavaScript's numbers are
  exact, so they are natural numbers here.
\<close>

section \<open>Printing\<close>

datatype content_kind = Text_kind | Refusal_kind

datatype presentation = Summary | Content

definition content_kind_name :: "content_kind \<Rightarrow> jsstr" where
  "content_kind_name k = (case k of Text_kind \<Rightarrow> js ''text'' | Refusal_kind \<Rightarrow> js ''refusal'')"

definition presentation_name :: "presentation \<Rightarrow> jsstr" where
  "presentation_name p = (case p of Summary \<Rightarrow> js ''summary'' | Content \<Rightarrow> js ''content'')"

definition number_text :: "nat \<Rightarrow> jsstr" where
  "number_text n = js (decimal n)"

definition response_tool_key :: "nat \<Rightarrow> jsstr" where
  "response_tool_key output_index = js ''responses:'' @ number_text output_index"

definition response_message_key :: "nat \<Rightarrow> jsstr" where
  "response_message_key output_index = js ''responses:'' @ number_text output_index @ js '':message''"

definition response_reasoning_key :: "nat \<Rightarrow> jsstr" where
  "response_reasoning_key output_index = js ''responses:'' @ number_text output_index @ js '':reasoning''"

definition response_message_part_key :: "nat \<Rightarrow> nat \<Rightarrow> content_kind \<Rightarrow> jsstr" where
  "response_message_part_key output_index content_index kind =
     js ''responses:'' @ number_text output_index @ js '':'' @ number_text content_index @ js '':''
     @ content_kind_name kind"

section \<open>Reading\<close>

definition strip_prefix :: "jsstr \<Rightarrow> jsstr \<Rightarrow> jsstr option" where
  "strip_prefix p s = (if take (length p) s = p then Some (drop (length p) s) else None)"

definition parse_int :: "jsstr \<Rightarrow> nat" where
  "parse_int s = foldl (\<lambda>n u. n * 10 + (unat u - 48)) 0 s"

text \<open>One or more digits, all that stand there, and what follows them.\<close>

definition read_digits :: "jsstr \<Rightarrow> (nat \<times> jsstr) option" where
  "read_digits s = (let ds = takeWhile js_digit s
     in if ds = [] then None else Some (parse_int ds, dropWhile js_digit s))"

definition response_output_index :: "jsstr \<Rightarrow> nat option" where
  "response_output_index key = (case strip_prefix (js ''responses:'') key of
       None \<Rightarrow> None
     | Some r \<Rightarrow> (case read_digits r of
         None \<Rightarrow> None
       | Some (n, rest) \<Rightarrow>
           if rest = [] \<or> rest = js '':message'' \<or> rest = js '':reasoning'' then Some n else None))"

definition response_message_part_position :: "jsstr \<Rightarrow> (nat \<times> nat \<times> content_kind) option" where
  "response_message_part_position key = (case strip_prefix (js ''responses:'') key of
       None \<Rightarrow> None
     | Some r \<Rightarrow> (case read_digits r of
         None \<Rightarrow> None
       | Some (n, rest) \<Rightarrow> (case strip_prefix (js '':'') rest of
           None \<Rightarrow> None
         | Some r' \<Rightarrow> (case read_digits r' of
             None \<Rightarrow> None
           | Some (c, rest') \<Rightarrow>
               if rest' = js '':text'' then Some (n, c, Text_kind)
               else if rest' = js '':refusal'' then Some (n, c, Refusal_kind)
               else None))))"

text \<open>The only key builder that checks its argument: a foreign item key makes it throw.\<close>

definition response_reasoning_part_key :: "jsstr \<Rightarrow> presentation \<Rightarrow> nat \<Rightarrow> jsstr option" where
  "response_reasoning_part_key item_key pres part_index = (case response_output_index item_key of
       None \<Rightarrow> None
     | Some output_index \<Rightarrow>
         if item_key \<noteq> response_reasoning_key output_index then None
         else Some (item_key @ js '':'' @ presentation_name pres @ js '':'' @ number_text part_index))"

section \<open>Printing, then reading\<close>

lemma strip_prefix_append [simp]: "strip_prefix p (p @ s) = Some s"
  by (simp add: strip_prefix_def)

lemma js_append: "js (s @ t) = js s @ js t"
  by (simp add: js_def)

lemma of_char_code: "m < 256 \<Longrightarrow> (of_char (char_of (m::nat)) :: jschar) = word_of_nat m"
  by (metis mod_less of_char_of of_nat_of_char)

lemma number_text_rec:
  "number_text n = (if n < 10 then [word_of_nat (48 + n)]
     else number_text (n div 10) @ [word_of_nat (48 + n mod 10)])"
  by (simp add: number_text_def decimal.simps [of n] js_append js_def of_char_code)

lemma digit_code:
  assumes "d < 10"
  shows "js_digit (word_of_nat (48 + d))" and "unat (word_of_nat (48 + d) :: jschar) = 48 + d"
proof -
  show "unat (word_of_nat (48 + d) :: jschar) = 48 + d"
    using assms by (simp add: unat_of_nat del: of_nat_add)
  then show "js_digit (word_of_nat (48 + d))"
    using assms by (simp add: js_digit_def word_le_nat_alt del: of_nat_add)
qed

lemma number_text_digits: "set (number_text n) \<subseteq> Collect js_digit"
proof (induction n rule: decimal.induct)
  case (1 n)
  then show ?case
    by (cases "n < 10") (simp_all add: number_text_rec [of n] digit_code del: of_nat_add)
qed

lemma number_text_nonempty: "number_text n \<noteq> []"
  by (simp add: number_text_rec [of n])

lemma parse_int_number_text [simp]: "parse_int (number_text n) = n"
proof (induction n rule: decimal.induct)
  case (1 n)
  then show ?case
    by (cases "n < 10") (simp_all add: number_text_rec [of n] parse_int_def digit_code del: of_nat_add)
qed

lemma read_digits_number_text:
  assumes "r = [] \<or> \<not> js_digit (hd r)"
  shows "read_digits (number_text n @ r) = Some (n, r)"
proof -
  from assms have r: "takeWhile js_digit r = []" "dropWhile js_digit r = r"
    by (cases r; auto)+
  have "takeWhile js_digit (number_text n @ r) = number_text n" "dropWhile js_digit (number_text n @ r) = r"
    using number_text_digits [of n] r by (simp_all add: subset_iff)
  then show ?thesis
    using number_text_nonempty [of n] unfolding read_digits_def by simp
qed

lemma js_digit_colon: "\<not> js_digit (hd (js (CHR '':'' # s)))"
  by (simp add: js_def js_digit_def word_le_nat_alt)

lemma js_Cons_ne [simp]: "js (c # s) \<noteq> []"
  by (simp add: js_def)

lemma read_digits_literal [simp]: "read_digits (number_text n @ js (CHR '':'' # s)) = Some (n, js (CHR '':'' # s))"
  by (rule read_digits_number_text) (simp add: js_digit_colon)

lemma read_digits_literal_more [simp]:
  "read_digits (number_text n @ js (CHR '':'' # s) @ t) = Some (n, js (CHR '':'' # s) @ t)"
  by (rule read_digits_number_text) (simp add: js_digit_colon)

lemma read_digits_end [simp]: "read_digits (number_text n) = Some (n, [])"
  using read_digits_number_text [of "[]" n] by simp

lemma output_index_of_keys [simp]:
  "response_output_index (response_tool_key n) = Some n"
  "response_output_index (response_message_key n) = Some n"
  "response_output_index (response_reasoning_key n) = Some n"
  by (simp_all add: response_output_index_def response_tool_key_def response_message_key_def
      response_reasoning_key_def)

lemma position_of_part_key [simp]:
  "response_message_part_position (response_message_part_key n c k) = Some (n, c, k)"
proof -
  have "js '':'' @ content_kind_name Text_kind = js '':text''"
    "js '':'' @ content_kind_name Refusal_kind = js '':refusal''" "js '':text'' \<noteq> js '':refusal''"
    by (simp_all add: js_append [symmetric] content_kind_name_def) (simp add: js_def)
  then show ?thesis
    by (cases k) (simp_all add: response_message_part_position_def response_message_part_key_def)
qed

end
