(* ===== verification/Item_Ledger.thy ===== *)
theory Item_Ledger
  imports Error_State Stream_Keys Canonical_Json
begin

text \<open>
  The model of \<open>src/src/protocols/conversion/ledger.ts\<close>: \<open>SemanticItemLedger\<close>, which assembles the
  messages, reasoning items and tool calls of one upstream response from its stream of deltas,
  within a budget of bytes. One computation of the error-state monad per method; the objects the
  methods mutate are entries of the ledger's maps. A state's own \<open>key\<close> field is its key in the map.
  The class's tools are a list in insertion order, as \<open>finishOpenTools\<close> walks them; the key of a new
  one is checked to be fresh, so \<open>Map.set\<close> appends.
\<close>

section \<open>State\<close>

datatype ledger_error =
    Invalid_upstream_response
  | Invalid_tool_arguments
  | Json_failure wire_error

datatype item_status = Completed | Incomplete | In_progress

record tool_state =
  tool_item_id :: "jsstr option"
  tool_call_id :: jsstr
  tool_name :: jsstr
  arguments_json :: jsstr
  tool_done :: bool

record message_state =
  part_keys :: "jsstr list"
  message_frozen :: bool

record message_part_state =
  group_key :: jsstr
  part_text :: jsstr
  part_refusal :: jsstr
  text_seen :: bool
  refusal_seen :: bool
  part_frozen :: bool

datatype messages_reasoning =
    Thinking jsstr jsstr
  | Redacted_thinking jsstr

type_synonym wire_members = "(jsstr \<times> wire_json) list"

datatype opaque_reasoning =
    Responses_item wire_members
  | Messages_block wire_members
  | Chat_state wire_members

record reasoning_state =
  reasoning_item_id :: "jsstr option"
  reasoning_part_keys :: "jsstr list"
  reasoning_status :: "item_status option"
  reasoning_frozen :: bool
  messages_state :: "messages_reasoning option"
  opaque_state :: "opaque_reasoning option"

record reasoning_part_state =
  item_key :: jsstr
  part_presentation :: presentation
  part_index :: nat
  reasoning_text :: jsstr
  reasoning_part_frozen :: bool

datatype item_kind = Message_kind | Reasoning_kind | Tool_kind

record ledger =
  byte_budget :: int
  used_bytes :: int
  tools :: "(jsstr \<times> tool_state) list"
  call_ids :: "jsstr set"
  messages :: "jsstr \<rightharpoonup> message_state"
  message_parts :: "jsstr \<rightharpoonup> message_part_state"
  reasonings :: "jsstr \<rightharpoonup> reasoning_state"
  reasoning_parts :: "jsstr \<rightharpoonup> reasoning_part_state"
  item_order :: "(item_kind \<times> jsstr) list"

definition new_ledger :: "int \<Rightarrow> ledger" where
  "new_ledger budget =
     \<lparr> byte_budget = budget, used_bytes = 0, tools = [], call_ids = {}, messages = Map.empty,
       message_parts = Map.empty, reasonings = Map.empty, reasoning_parts = Map.empty,
       item_order = [] \<rparr>"

type_synonym 'a ledger_op = "(ledger_error, ledger, 'a) errst"

definition invalid :: "'a ledger_op" where
  "invalid = sfail Invalid_upstream_response"

definition demand :: "bool \<Rightarrow> unit ledger_op" where
  "demand b = srequire b Invalid_upstream_response"

text \<open>Changing the object under a key, where there is one.\<close>

definition map_at :: "'k \<Rightarrow> ('v \<Rightarrow> 'v) \<Rightarrow> ('k \<rightharpoonup> 'v) \<Rightarrow> ('k \<rightharpoonup> 'v)" where
  "map_at k f m = (case m k of None \<Rightarrow> m | Some v \<Rightarrow> m(k \<mapsto> f v))"

fun update_entry :: "'k \<Rightarrow> ('v \<Rightarrow> 'v) \<Rightarrow> ('k \<times> 'v) list \<Rightarrow> ('k \<times> 'v) list" where
  "update_entry key f [] = []"
| "update_entry key f (e # es) = (if fst e = key then (fst e, f (snd e)) # es else e # update_entry key f es)"

definition on_tool :: "jsstr \<Rightarrow> (tool_state \<Rightarrow> tool_state) \<Rightarrow> ledger \<Rightarrow> ledger" where
  "on_tool key f s = s\<lparr>tools := update_entry key f (tools s)\<rparr>"

definition on_message :: "jsstr \<Rightarrow> (message_state \<Rightarrow> message_state) \<Rightarrow> ledger \<Rightarrow> ledger" where
  "on_message key f s = s\<lparr>messages := map_at key f (messages s)\<rparr>"

definition on_part :: "jsstr \<Rightarrow> (message_part_state \<Rightarrow> message_part_state) \<Rightarrow> ledger \<Rightarrow> ledger" where
  "on_part key f s = s\<lparr>message_parts := map_at key f (message_parts s)\<rparr>"

definition on_reasoning :: "jsstr \<Rightarrow> (reasoning_state \<Rightarrow> reasoning_state) \<Rightarrow> ledger \<Rightarrow> ledger" where
  "on_reasoning key f s = s\<lparr>reasonings := map_at key f (reasonings s)\<rparr>"

definition on_reasoning_part ::
  "jsstr \<Rightarrow> (reasoning_part_state \<Rightarrow> reasoning_part_state) \<Rightarrow> ledger \<Rightarrow> ledger" where
  "on_reasoning_part key f s = s\<lparr>reasoning_parts := map_at key f (reasoning_parts s)\<rparr>"

definition find_tool :: "jsstr \<Rightarrow> ledger \<Rightarrow> tool_state option" where
  "find_tool key s = map_of (tools s) key"

section \<open>The byte budget\<close>

definition reserve_bytes :: "int \<Rightarrow> unit ledger_op" where
  "reserve_bytes n = sthen (smodify (\<lambda>s. s\<lparr>used_bytes := used_bytes s + n\<rparr>))
     (sbind (sget (\<lambda>s. used_bytes s \<le> byte_budget s)) demand)"

definition reserve_text :: "jsstr \<Rightarrow> unit ledger_op" where
  "reserve_text v = reserve_bytes (int (utf8_length v))"

definition reserve_opt :: "jsstr option \<Rightarrow> unit ledger_op" where
  "reserve_opt v = (case v of None \<Rightarrow> sreturn () | Some s \<Rightarrow> reserve_text s)"

section \<open>Messages\<close>

definition new_message :: message_state where
  "new_message = \<lparr> part_keys = [], message_frozen = False \<rparr>"

definition new_part :: "jsstr \<Rightarrow> message_part_state" where
  "new_part grp = \<lparr> group_key = grp, part_text = [], part_refusal = [], text_seen = False,
     refusal_seen = False, part_frozen = False \<rparr>"

definition add_message :: "jsstr \<Rightarrow> ledger \<Rightarrow> ledger" where
  "add_message key s = s\<lparr>messages := (messages s)(key \<mapsto> new_message),
     item_order := item_order s @ [(Message_kind, key)]\<rparr>"

definition message_of :: "jsstr \<Rightarrow> message_state ledger_op" where
  "message_of key = sbind (sget (\<lambda>s. messages s key)) (\<lambda>found. case found of
       Some m \<Rightarrow> sreturn m
     | None \<Rightarrow> sthen (reserve_text key) (sthen (smodify (add_message key)) (sreturn new_message)))"

definition message_part :: "jsstr \<Rightarrow> jsstr \<Rightarrow> message_part_state ledger_op" where
  "message_part key grp = sbind (sget (\<lambda>s. message_parts s key)) (\<lambda>found. case found of
       Some part \<Rightarrow> sthen (demand (group_key part = grp)) (sreturn part)
     | None \<Rightarrow>
         sthen (swhen (key \<noteq> grp) (reserve_text key))
         (sthen (smodify (\<lambda>s. s\<lparr>message_parts := (message_parts s)(key \<mapsto> new_part grp)\<rparr>))
         (sthen (message_of grp)
         (sthen (smodify (on_message grp (\<lambda>m. m\<lparr>part_keys := part_keys m @ [key]\<rparr>)))
         (sreturn (new_part grp))))))"

definition start_message :: "jsstr \<Rightarrow> unit ledger_op" where
  "start_message key = sthen (message_of key) (sreturn ())"

text \<open>Whether a frozen message is asked for a part it does not have.\<close>

definition open_for :: "message_state \<Rightarrow> jsstr \<Rightarrow> unit ledger_op" where
  "open_for m key = sbind (sget (\<lambda>s. \<not> (message_frozen m \<and> message_parts s key = None))) demand"

definition observe_text :: "jsstr \<Rightarrow> jsstr \<Rightarrow> bool ledger_op" where
  "observe_text key order_key =
     sbind (message_of order_key) (\<lambda>m.
     sthen (open_for m key)
     (sbind (message_part key order_key) (\<lambda>part.
     sthen (smodify (on_part key (\<lambda>p. p\<lparr>text_seen := True\<rparr>)))
     (sreturn (\<not> text_seen part)))))"

definition append_text :: "jsstr \<Rightarrow> jsstr \<Rightarrow> jsstr \<Rightarrow> unit ledger_op" where
  "append_text key delta order_key =
     sthen (reserve_text delta)
     (sthen (observe_text key order_key)
     (sbind (message_part key order_key) (\<lambda>part.
     sthen (demand (\<not> part_frozen part))
     (smodify (on_part key (\<lambda>p. p\<lparr>part_text := part_text p @ delta\<rparr>))))))"

definition observe_refusal :: "jsstr \<Rightarrow> jsstr \<Rightarrow> bool ledger_op" where
  "observe_refusal key order_key =
     sbind (message_of order_key) (\<lambda>m.
     sthen (open_for m key)
     (sbind (message_part key order_key) (\<lambda>part.
     sthen (smodify (on_part key (\<lambda>p. p\<lparr>refusal_seen := True\<rparr>)))
     (sreturn (\<not> refusal_seen part)))))"

definition append_refusal :: "jsstr \<Rightarrow> jsstr \<Rightarrow> jsstr \<Rightarrow> unit ledger_op" where
  "append_refusal key delta order_key =
     sthen (reserve_text delta)
     (sthen (observe_refusal key order_key)
     (sbind (message_part key order_key) (\<lambda>part.
     sthen (demand (\<not> part_frozen part))
     (smodify (on_part key (\<lambda>p. p\<lparr>part_refusal := part_refusal p @ delta\<rparr>))))))"

definition finish_content :: "jsstr \<Rightarrow> unit ledger_op" where
  "finish_content key = sbind (sget (\<lambda>s. message_parts s key)) (\<lambda>found. case found of
       None \<Rightarrow> invalid
     | Some _ \<Rightarrow> smodify (on_part key (\<lambda>p. p\<lparr>part_frozen := True\<rparr>)))"

definition freeze_part :: "jsstr \<Rightarrow> ledger \<Rightarrow> ledger" where
  "freeze_part key = on_part key (\<lambda>p. p\<lparr>part_frozen := True\<rparr>)"

definition finish_message :: "jsstr \<Rightarrow> unit ledger_op" where
  "finish_message key =
     sbind (message_of key) (\<lambda>m.
     sthen (smodify (on_message key (\<lambda>m. m\<lparr>message_frozen := True\<rparr>)))
     (smodify (fold freeze_part (part_keys m))))"

definition text_value :: "jsstr \<Rightarrow> ledger \<Rightarrow> jsstr" where
  "text_value key s = (case message_parts s key of None \<Rightarrow> [] | Some p \<Rightarrow> part_text p)"

definition refusal_value :: "jsstr \<Rightarrow> ledger \<Rightarrow> jsstr" where
  "refusal_value key s = (case message_parts s key of None \<Rightarrow> [] | Some p \<Rightarrow> part_refusal p)"

section \<open>Opaque reasoning state\<close>

definition opaque_members :: "opaque_reasoning \<Rightarrow> wire_members" where
  "opaque_members st = (case st of
     Responses_item ms \<Rightarrow> ms | Messages_block ms \<Rightarrow> ms | Chat_state ms \<Rightarrow> ms)"

definition canonical_bytes :: "wire_json \<Rightarrow> ledger_error + bytes" where
  "canonical_bytes v = map_sum Json_failure id (canonicalize_wire_json v)"

definition same_wire_json :: "wire_json \<Rightarrow> wire_json \<Rightarrow> ledger_error + bool" where
  "same_wire_json left right =
     ebind (canonical_bytes left) (\<lambda>l. ebind (canonical_bytes right) (\<lambda>r. Inr (l = r)))"

definition normalized_response_item :: "wire_members \<Rightarrow> wire_members" where
  "normalized_response_item ms = filter (\<lambda>m. fst m \<noteq> js ''id'' \<and> fst m \<noteq> js ''status'') ms"

definition same_opaque_state :: "opaque_reasoning \<Rightarrow> opaque_reasoning \<Rightarrow> ledger_error + bool" where
  "same_opaque_state left right = (case (left, right) of
       (Responses_item l, Responses_item r) \<Rightarrow>
         same_wire_json (WObject (normalized_response_item l)) (WObject (normalized_response_item r))
     | (Messages_block l, Messages_block r) \<Rightarrow> same_wire_json (WObject l) (WObject r)
     | (Chat_state l, Chat_state r) \<Rightarrow> same_wire_json (WObject l) (WObject r)
     | _ \<Rightarrow> Inr False)"

definition opaque_length :: "opaque_reasoning \<Rightarrow> ledger_error + int" where
  "opaque_length st = map_sum id (\<lambda>bs. int (length bs)) (canonical_bytes (WObject (opaque_members st)))"

fun any_same :: "wire_json \<Rightarrow> wire_json list \<Rightarrow> ledger_error + bool" where
  "any_same v [] = Inr False"
| "any_same v (c # cs) = ebind (same_wire_json v c) (\<lambda>same. if same then Inr True else any_same v cs)"

definition starts_with :: "jsstr \<Rightarrow> jsstr \<Rightarrow> bool" where
  "starts_with s p \<longleftrightarrow> take (length p) s = p"

fun extended_string :: "wire_json \<Rightarrow> wire_json \<Rightarrow> bool" where
  "extended_string (WString v) (WString c) = starts_with c v"
| "extended_string _ _ = False"

fun extends_members :: "wire_members \<Rightarrow> wire_members \<Rightarrow> ledger_error + bool" where
  "extends_members [] incoming = Inr True"
| "extends_members ((key, v) # ms) incoming =
     (let candidates = member_values incoming key
      in if candidates = [] then Inr False
         else ebind (if key = js ''reasoning_content''
                     then Inr (\<exists>c \<in> set candidates. extended_string v c)
                     else any_same v candidates)
                (\<lambda>accepted. if accepted then extends_members ms incoming else Inr False))"

definition extends_chat_state :: "opaque_reasoning \<Rightarrow> opaque_reasoning \<Rightarrow> ledger_error + bool" where
  "extends_chat_state existing incoming = (case (existing, incoming) of
       (Chat_state old, Chat_state new) \<Rightarrow> extends_members old new
     | _ \<Rightarrow> Inr False)"

definition reserve_opaque :: "opaque_reasoning \<Rightarrow> unit ledger_op" where
  "reserve_opaque st = sbind (slift (opaque_length st)) reserve_bytes"

definition rebind_opaque :: "opaque_reasoning \<Rightarrow> opaque_reasoning \<Rightarrow> unit ledger_op" where
  "rebind_opaque previous next_state =
     sbind (slift (opaque_length previous)) (\<lambda>n.
     sthen (smodify (\<lambda>s. s\<lparr>used_bytes := used_bytes s - n\<rparr>))
     (reserve_opaque next_state))"

definition reserve_messages_state :: "messages_reasoning \<Rightarrow> unit ledger_op" where
  "reserve_messages_state st = (case st of
       Thinking thinking signature \<Rightarrow> sthen (reserve_text thinking) (reserve_text signature)
     | Redacted_thinking d \<Rightarrow> reserve_text d)"

fun is_responses_item :: "opaque_reasoning \<Rightarrow> bool" where
  "is_responses_item (Responses_item _) = True"
| "is_responses_item _ = False"

section \<open>Reasoning items\<close>

definition add_reasoning ::
  "jsstr \<Rightarrow> jsstr option \<Rightarrow> messages_reasoning option \<Rightarrow> opaque_reasoning option \<Rightarrow> ledger \<Rightarrow> ledger" where
  "add_reasoning key item_id ms os s =
     s\<lparr>reasonings := (reasonings s)(key \<mapsto>
         \<lparr> reasoning_item_id = item_id, reasoning_part_keys = [], reasoning_status = None,
           reasoning_frozen = False, messages_state = ms, opaque_state = os \<rparr>),
       item_order := item_order s @ [(Reasoning_kind, key)]\<rparr>"

definition create_reasoning ::
  "jsstr \<Rightarrow> jsstr option \<Rightarrow> messages_reasoning option \<Rightarrow> opaque_reasoning option \<Rightarrow> unit ledger_op" where
  "create_reasoning key item_id ms os =
     sthen (reserve_text key)
     (sthen (reserve_opt item_id)
     (sthen (case ms of None \<Rightarrow> sreturn () | Some m \<Rightarrow> reserve_messages_state m)
     (sthen (case os of None \<Rightarrow> sreturn () | Some st \<Rightarrow> reserve_opaque st)
     (smodify (add_reasoning key item_id ms os)))))"

definition update_messages_state ::
  "jsstr \<Rightarrow> reasoning_state \<Rightarrow> messages_reasoning option \<Rightarrow> unit ledger_op" where
  "update_messages_state key r ms = (case ms of
       None \<Rightarrow> sreturn ()
     | Some m \<Rightarrow>
         sthen (demand (messages_state r = None \<or> messages_state r = Some m))
         (sthen (swhen (messages_state r = None) (reserve_messages_state m))
         (smodify (on_reasoning key (\<lambda>r. r\<lparr>messages_state := Some m\<rparr>)))))"

definition update_opaque_state ::
  "jsstr \<Rightarrow> reasoning_state \<Rightarrow> opaque_reasoning option \<Rightarrow> unit ledger_op" where
  "update_opaque_state key r os = (case os of
       None \<Rightarrow> sreturn ()
     | Some st \<Rightarrow>
         sthen (case opaque_state r of
             None \<Rightarrow> reserve_opaque st
           | Some old \<Rightarrow> sbind (slift (same_opaque_state old st)) (\<lambda>same.
               if same then sreturn ()
               else if reasoning_frozen r \<and> is_responses_item st then reserve_opaque st
               else if reasoning_frozen r then
                 sbind (slift (extends_chat_state old st)) (\<lambda>extends.
                   if extends then rebind_opaque old st else invalid)
               else invalid))
         (smodify (on_reasoning key (\<lambda>r. r\<lparr>opaque_state := Some st\<rparr>))))"

definition current_reasoning :: "jsstr \<Rightarrow> reasoning_state ledger_op" where
  "current_reasoning key = sbind (sget (\<lambda>s. reasonings s key)) (\<lambda>found. case found of
     None \<Rightarrow> invalid | Some r \<Rightarrow> sreturn r)"

definition reasoning_of ::
  "jsstr \<Rightarrow> jsstr option \<Rightarrow> messages_reasoning option \<Rightarrow> opaque_reasoning option
     \<Rightarrow> reasoning_state ledger_op" where
  "reasoning_of key item_id ms os =
     sbind (sget (\<lambda>s. reasonings s key)) (\<lambda>found.
     sthen (case found of
         None \<Rightarrow> create_reasoning key item_id ms os
       | Some r \<Rightarrow>
           sthen (demand (reasoning_item_id r = item_id)) (update_messages_state key r ms))
     (sbind (current_reasoning key) (\<lambda>r.
     sthen (update_opaque_state key r os)
     (current_reasoning key))))"

definition start_reasoning ::
  "jsstr \<Rightarrow> jsstr option \<Rightarrow> messages_reasoning option \<Rightarrow> opaque_reasoning option \<Rightarrow> unit ledger_op" where
  "start_reasoning key item_id ms os = sthen (reasoning_of key item_id ms os) (sreturn ())"

definition reasoning_part ::
  "jsstr \<Rightarrow> jsstr \<Rightarrow> jsstr option \<Rightarrow> presentation \<Rightarrow> nat \<Rightarrow> reasoning_part_state ledger_op" where
  "reasoning_part key part_key item_id pres index =
     sbind (reasoning_of key item_id None None) (\<lambda>r.
     sthen (demand (\<not> reasoning_frozen r))
     (sbind (sget (\<lambda>s. reasoning_parts s part_key)) (\<lambda>found. case found of
         Some part \<Rightarrow>
           sthen (demand (item_key part = key \<and> part_presentation part = pres \<and> part_index part = index))
             (sreturn part)
       | None \<Rightarrow>
           let part = \<lparr> item_key = key, part_presentation = pres, part_index = index,
                        reasoning_text = [], reasoning_part_frozen = False \<rparr>
           in sthen (swhen (part_key \<noteq> key) (reserve_text part_key))
              (sthen (smodify (\<lambda>s. s\<lparr>reasoning_parts := (reasoning_parts s)(part_key \<mapsto> part)\<rparr>))
              (sthen (smodify (on_reasoning key
                  (\<lambda>r. r\<lparr>reasoning_part_keys := reasoning_part_keys r @ [part_key]\<rparr>)))
              (sreturn part))))))"

definition append_reasoning ::
  "jsstr \<Rightarrow> jsstr \<Rightarrow> jsstr option \<Rightarrow> presentation \<Rightarrow> nat \<Rightarrow> jsstr \<Rightarrow> unit ledger_op" where
  "append_reasoning key part_key item_id pres index delta =
     sthen (reserve_text delta)
     (sbind (reasoning_part key part_key item_id pres index) (\<lambda>part.
     sthen (demand (\<not> reasoning_part_frozen part))
     (smodify (on_reasoning_part part_key (\<lambda>p. p\<lparr>reasoning_text := reasoning_text p @ delta\<rparr>)))))"

definition reasoning_value :: "jsstr \<Rightarrow> ledger \<Rightarrow> jsstr" where
  "reasoning_value part_key s =
     (case reasoning_parts s part_key of None \<Rightarrow> [] | Some p \<Rightarrow> reasoning_text p)"

text \<open>The item that leaves the ledger: its parts summaries first, then by index.\<close>

record reasoning_out_part =
  out_key :: jsstr
  out_presentation :: presentation
  out_index :: nat
  out_text :: jsstr

record reasoning_out =
  out_item_key :: jsstr
  out_item_id :: "jsstr option"
  out_parts :: "reasoning_out_part list"
  out_status :: "item_status option"
  has_opaque_state :: bool
  out_messages_state :: "messages_reasoning option"
  out_opaque_state :: "opaque_reasoning option"

definition compare_reasoning_parts :: "reasoning_out_part \<Rightarrow> reasoning_out_part \<Rightarrow> int" where
  "compare_reasoning_parts left right =
     (if out_presentation left \<noteq> out_presentation right
      then (if out_presentation left = Summary then -1 else 1)
      else int (out_index left) - int (out_index right))"

fun out_parts_of :: "jsstr list \<Rightarrow> reasoning_out_part list ledger_op" where
  "out_parts_of [] = sreturn []"
| "out_parts_of (key # keys) = sbind (sget (\<lambda>s. reasoning_parts s key)) (\<lambda>found. case found of
       None \<Rightarrow> invalid
     | Some p \<Rightarrow> sbind (out_parts_of keys) (\<lambda>ps. sreturn
         (\<lparr> out_key = key, out_presentation = part_presentation p, out_index = part_index p,
            out_text = reasoning_text p \<rparr> # ps)))"

definition reasoning_item :: "jsstr \<Rightarrow> reasoning_state \<Rightarrow> reasoning_out ledger_op" where
  "reasoning_item key r = sbind (out_parts_of (reasoning_part_keys r)) (\<lambda>ps. sreturn
     \<lparr> out_item_key = key, out_item_id = reasoning_item_id r,
       out_parts = js_sort compare_reasoning_parts ps, out_status = reasoning_status r,
       has_opaque_state = (opaque_state r \<noteq> None), out_messages_state = messages_state r,
       out_opaque_state = opaque_state r \<rparr>)"

definition freeze_reasoning_part :: "jsstr \<Rightarrow> ledger \<Rightarrow> ledger" where
  "freeze_reasoning_part key = on_reasoning_part key (\<lambda>p. p\<lparr>reasoning_part_frozen := True\<rparr>)"

definition freeze_reasoning :: "jsstr \<Rightarrow> item_status \<Rightarrow> reasoning_state \<Rightarrow> reasoning_state ledger_op" where
  "freeze_reasoning key status r =
     sthen (smodify (on_reasoning key (\<lambda>r. r\<lparr>reasoning_frozen := True, reasoning_status := Some status\<rparr>)))
     (sthen (smodify (fold freeze_reasoning_part (reasoning_part_keys r)))
     (sreturn (r\<lparr>reasoning_frozen := True, reasoning_status := Some status\<rparr>)))"

definition finish_reasoning :: "jsstr \<Rightarrow> item_status \<Rightarrow> reasoning_out ledger_op" where
  "finish_reasoning key status = sbind (current_reasoning key) (\<lambda>r.
     if reasoning_frozen r then
       sthen (demand (reasoning_status r = Some status)) (reasoning_item key r)
     else sbind (freeze_reasoning key status r) (reasoning_item key))"

definition finish_open_entry :: "item_status \<Rightarrow> item_kind \<times> jsstr \<Rightarrow> reasoning_out list ledger_op" where
  "finish_open_entry status entry =
     (if fst entry \<noteq> Reasoning_kind then sreturn []
      else sbind (sget (\<lambda>s. reasonings s (snd entry))) (\<lambda>found. case found of
          None \<Rightarrow> sreturn []
        | Some r \<Rightarrow> if reasoning_frozen r then sreturn []
            else sbind (finish_reasoning (snd entry) status) (\<lambda>item. sreturn [item])))"

definition finish_open_reasoning :: "item_status \<Rightarrow> reasoning_out list ledger_op" where
  "finish_open_reasoning status = sbind (sget item_order) (scollect (finish_open_entry status))"

section \<open>Tool calls\<close>

text \<open>\<open>TextEncoder.encode\<close>: the UTF-8 of the code points, a lone surrogate as U+FFFD.\<close>

definition encode_text :: "jsstr \<Rightarrow> bytes" where
  "encode_text s = concat (map (\<lambda>cp. utf8_bytes (if 0xd800 \<le> cp \<and> cp \<le> 0xdfff then 0xfffd else cp))
     (code_points s))"

definition validate_arguments :: "jsstr \<Rightarrow> ledger_error + wire_members" where
  "validate_arguments v =
     (let bs = encode_text v
      in case parse_wire_json bs \<lparr> max_bytes = max 1 (length bs), max_depth = 32 \<rparr> of
           Inl _ \<Rightarrow> Inl Invalid_tool_arguments
         | Inr (WObject ms) \<Rightarrow> Inr ms
         | Inr _ \<Rightarrow> Inl Invalid_upstream_response)"

definition check_arguments :: "jsstr \<Rightarrow> unit ledger_op" where
  "check_arguments v = sthen (slift (validate_arguments v)) (sreturn ())"

definition start_tool :: "jsstr \<Rightarrow> jsstr option \<Rightarrow> jsstr \<Rightarrow> jsstr \<Rightarrow> unit ledger_op" where
  "start_tool key item_id call_id name =
     sbind (sget (\<lambda>s. find_tool key s = None \<and> call_id \<notin> call_ids s \<and> call_id \<noteq> [] \<and> name \<noteq> []))
     (\<lambda>fresh.
     sthen (demand fresh)
     (sthen (reserve_text key)
     (sthen (reserve_opt item_id)
     (sthen (reserve_text call_id)
     (sthen (reserve_text name)
     (smodify (\<lambda>s. s\<lparr>call_ids := insert call_id (call_ids s),
        tools := tools s @ [(key, \<lparr> tool_item_id = item_id, tool_call_id = call_id,
          tool_name = name, arguments_json = [], tool_done = False \<rparr>)],
        item_order := item_order s @ [(Tool_kind, key)]\<rparr>)))))))"

definition tool_of :: "jsstr \<Rightarrow> tool_state ledger_op" where
  "tool_of key = sbind (sget (find_tool key)) (\<lambda>found. case found of
     None \<Rightarrow> invalid | Some t \<Rightarrow> sreturn t)"

definition append_tool_arguments :: "jsstr \<Rightarrow> jsstr \<Rightarrow> unit ledger_op" where
  "append_tool_arguments key delta = sbind (tool_of key) (\<lambda>t.
     sthen (demand (\<not> tool_done t))
     (sthen (reserve_text delta)
     (smodify (on_tool key (\<lambda>t. t\<lparr>arguments_json := arguments_json t @ delta\<rparr>)))))"

definition apply_snapshot :: "jsstr \<Rightarrow> tool_state \<Rightarrow> jsstr \<Rightarrow> jsstr ledger_op" where
  "apply_snapshot key t snapshot =
     sthen (demand (starts_with snapshot (arguments_json t)))
     (let suffix = drop (length (arguments_json t)) snapshot
      in sthen (reserve_text suffix)
         (sthen (smodify (on_tool key (\<lambda>t. t\<lparr>arguments_json := snapshot\<rparr>)))
         (sreturn suffix)))"

definition finish_tool :: "jsstr \<Rightarrow> jsstr option \<Rightarrow> bool \<Rightarrow> bool \<Rightarrow> jsstr ledger_op" where
  "finish_tool key snapshot completed validate_completed = sbind (tool_of key) (\<lambda>t.
     if tool_done t then
       (if snapshot = None \<or> snapshot = Some (arguments_json t)
        then sthen (swhen (completed \<and> validate_completed) (check_arguments (arguments_json t)))
               (sreturn [])
        else invalid)
     else
       sbind (case snapshot of None \<Rightarrow> sreturn [] | Some v \<Rightarrow> apply_snapshot key t v) (\<lambda>suffix.
       sthen (swhen (completed \<and> validate_completed)
                (check_arguments (case snapshot of None \<Rightarrow> arguments_json t | Some v \<Rightarrow> v)))
       (sthen (smodify (on_tool key (\<lambda>t. t\<lparr>tool_done := True\<rparr>)))
       (sreturn suffix))))"

definition finish_open_tool :: "(jsstr \<Rightarrow> bool) \<Rightarrow> jsstr \<times> tool_state \<Rightarrow> unit ledger_op" where
  "finish_open_tool validates entry =
     sthen (swhen (validates (tool_name (snd entry))) (check_arguments (arguments_json (snd entry))))
     (smodify (on_tool (fst entry) (\<lambda>t. t\<lparr>tool_done := True\<rparr>)))"

definition finish_open_tools :: "(jsstr \<Rightarrow> bool) \<Rightarrow> unit ledger_op" where
  "finish_open_tools validates = sbind (sget tools) (sfor (finish_open_tool validates))"

definition tool_keys :: "ledger \<Rightarrow> jsstr list" where
  "tool_keys s = map snd (filter (\<lambda>entry. fst entry = Tool_kind) (item_order s))"

section \<open>The assembled items\<close>

datatype response_part = Text_part jsstr | Refusal_part jsstr

datatype response_item =
    Message_item jsstr "jsstr list" "response_part list"
  | Reasoning_item reasoning_out
  | Tool_item jsstr "jsstr option" jsstr jsstr jsstr

definition compare_item_keys :: "item_kind \<times> jsstr \<Rightarrow> item_kind \<times> jsstr \<Rightarrow> int" where
  "compare_item_keys left right =
     (case (response_output_index (snd left), response_output_index (snd right)) of
        (Some l, Some r) \<Rightarrow> int l - int r
      | _ \<Rightarrow> 0)"

definition compare_part_keys :: "jsstr \<Rightarrow> jsstr \<Rightarrow> int" where
  "compare_part_keys left right =
     (case (response_message_part_position left, response_message_part_position right) of
        (Some l, Some r) \<Rightarrow> int (fst (snd l)) - int (fst (snd r))
      | _ \<Rightarrow> 0)"

definition part_entries :: "jsstr \<Rightarrow> (jsstr \<times> response_part) list ledger_op" where
  "part_entries key = sbind (sget (\<lambda>s. message_parts s key)) (\<lambda>found. case found of
       None \<Rightarrow> invalid
     | Some p \<Rightarrow> sreturn
         ((if text_seen p then [(key, Text_part (part_text p))] else [])
          @ (if refusal_seen p then [(key, Refusal_part (part_refusal p))] else [])))"

definition message_items :: "jsstr \<Rightarrow> response_item list ledger_op" where
  "message_items key = sbind (sget (\<lambda>s. messages s key)) (\<lambda>found. case found of
       None \<Rightarrow> invalid
     | Some m \<Rightarrow> sbind (scollect part_entries (js_sort compare_part_keys (part_keys m))) (\<lambda>entries.
         sreturn (if entries \<noteq> [] \<or> message_frozen m
                  then [Message_item key (map fst entries) (map snd entries)] else [])))"

definition reasoning_items :: "item_status \<Rightarrow> jsstr \<Rightarrow> response_item list ledger_op" where
  "reasoning_items status key = sbind (current_reasoning key) (\<lambda>r.
     sbind (if reasoning_frozen r then sreturn r else freeze_reasoning key status r) (\<lambda>r.
     sbind (reasoning_item key r) (\<lambda>item. sreturn [Reasoning_item item])))"

definition tool_items :: "item_status \<Rightarrow> jsstr \<Rightarrow> response_item list ledger_op" where
  "tool_items status key = sbind (tool_of key) (\<lambda>t.
     sthen (demand (tool_done t \<or> status \<noteq> Completed))
     (sreturn [Tool_item key (tool_item_id t) (tool_call_id t) (tool_name t) (arguments_json t)]))"

definition entry_items :: "item_status \<Rightarrow> item_kind \<times> jsstr \<Rightarrow> response_item list ledger_op" where
  "entry_items status entry = (case fst entry of
       Message_kind \<Rightarrow> message_items (snd entry)
     | Reasoning_kind \<Rightarrow> reasoning_items status (snd entry)
     | Tool_kind \<Rightarrow> tool_items status (snd entry))"

definition items :: "item_status \<Rightarrow> response_item list ledger_op" where
  "items status = sbind (sget (\<lambda>s. js_sort compare_item_keys (item_order s)))
     (scollect (entry_items status))"

end
