(* ===== verification/Ledger_Changes.thy ===== *)
theory Ledger_Changes
  imports Item_Ledger
begin

text \<open>
  The ways a ledger changes. \<open>change\<close> lists the elementary updates with the conditions under which
  the class makes them; every method of the ledger that returns is a sequence of such changes, so a
  fact about all the methods is proved once for each change.
\<close>

section \<open>Maps of objects\<close>

lemma map_at_apply: "map_at k f m x = (if x = k then map_option f (m k) else m x)"
  by (simp add: map_at_def split: option.split)

definition map_all :: "'k list \<Rightarrow> ('v \<Rightarrow> 'v) \<Rightarrow> ('k \<rightharpoonup> 'v) \<Rightarrow> ('k \<rightharpoonup> 'v)" where
  "map_all ks f m = fold (\<lambda>k. map_at k f) ks m"

lemma map_all_apply:
  "(\<And>v. f (f v) = f v) \<Longrightarrow> map_all ks f m x = (if x \<in> set ks then map_option f (m x) else m x)"
  unfolding map_all_def
  by (induction ks arbitrary: m) (auto simp: map_at_apply option.map_comp comp_def)

lemma fold_freeze_part:
  "fold freeze_part ks s =
   s\<lparr>message_parts := map_all ks (\<lambda>p. p\<lparr>part_frozen := True\<rparr>) (message_parts s)\<rparr>"
  unfolding map_all_def by (induction ks arbitrary: s) (simp_all add: freeze_part_def on_part_def)

lemma fold_freeze_reasoning_part:
  "fold freeze_reasoning_part ks s =
   s\<lparr>reasoning_parts := map_all ks (\<lambda>p. p\<lparr>reasoning_part_frozen := True\<rparr>) (reasoning_parts s)\<rparr>"
  unfolding map_all_def
  by (induction ks arbitrary: s) (simp_all add: freeze_reasoning_part_def on_reasoning_part_def)

lemma map_of_update_entry:
  "map_of (update_entry key f es) k = (if k = key then map_option f (map_of es k) else map_of es k)"
  by (induction es) auto

lemma update_entry_const: "map_of es key = Some v \<Longrightarrow> update_entry key f es = update_entry key (\<lambda>_. f v) es"
  by (induction es) (auto split: if_splits)

lemma map_update_entry: "(\<And>v. g (k, f v) = g (k, v)) \<Longrightarrow> map g (update_entry k f es) = map g es"
  by (induction es) auto

lemma find_on_tool:
  "find_tool k (on_tool key f s) = (if k = key then map_option f (find_tool k s) else find_tool k s)"
  by (simp add: find_tool_def on_tool_def map_of_update_entry)

lemma on_tool_const: "find_tool key s = Some t \<Longrightarrow> on_tool key f s = on_tool key (\<lambda>_. f t) s"
  by (auto simp: find_tool_def on_tool_def dest: update_entry_const [where f = f])

section \<open>Elementary changes\<close>

definition add_part :: "jsstr \<Rightarrow> jsstr \<Rightarrow> ledger \<Rightarrow> ledger" where
  "add_part key grp s = on_message grp (\<lambda>m. m\<lparr>part_keys := part_keys m @ [key]\<rparr>)
     (s\<lparr>message_parts := (message_parts s)(key \<mapsto> new_part grp)\<rparr>)"

definition seal_message :: "jsstr \<Rightarrow> jsstr list \<Rightarrow> ledger \<Rightarrow> ledger" where
  "seal_message key keys s = fold freeze_part keys (on_message key (\<lambda>m. m\<lparr>message_frozen := True\<rparr>) s)"

definition add_reasoning_part :: "jsstr \<Rightarrow> jsstr \<Rightarrow> reasoning_part_state \<Rightarrow> ledger \<Rightarrow> ledger" where
  "add_reasoning_part key part_key part s =
     on_reasoning key (\<lambda>r. r\<lparr>reasoning_part_keys := reasoning_part_keys r @ [part_key]\<rparr>)
       (s\<lparr>reasoning_parts := (reasoning_parts s)(part_key \<mapsto> part)\<rparr>)"

definition seal_reasoning :: "jsstr \<Rightarrow> item_status \<Rightarrow> jsstr list \<Rightarrow> ledger \<Rightarrow> ledger" where
  "seal_reasoning key status keys s = fold freeze_reasoning_part keys
     (on_reasoning key (\<lambda>r. r\<lparr>reasoning_frozen := True, reasoning_status := Some status\<rparr>) s)"

definition add_tool :: "jsstr \<Rightarrow> jsstr option \<Rightarrow> jsstr \<Rightarrow> jsstr \<Rightarrow> ledger \<Rightarrow> ledger" where
  "add_tool key item_id call_id name s = s\<lparr>call_ids := insert call_id (call_ids s),
        tools := tools s @ [(key, \<lparr> tool_item_id = item_id, tool_call_id = call_id,
          tool_name = name, arguments_json = [], tool_done = False \<rparr>)],
        item_order := item_order s @ [(Tool_kind, key)]\<rparr>"

inductive change :: "ledger \<Rightarrow> ledger \<Rightarrow> bool" where
  charge: "used_bytes s + n \<le> byte_budget s \<Longrightarrow> change s (s\<lparr>used_bytes := used_bytes s + n\<rparr>)"
| file_message: "messages s key = None \<Longrightarrow> change s (add_message key s)"
| file_part: "messages s grp = Some m \<Longrightarrow> \<not> message_frozen m \<Longrightarrow> message_parts s key = None \<Longrightarrow>
    change s (add_part key grp s)"
| see_text: "change s (on_part key (\<lambda>p. p\<lparr>text_seen := True\<rparr>) s)"
| see_refusal: "change s (on_part key (\<lambda>p. p\<lparr>refusal_seen := True\<rparr>) s)"
| grow_text: "message_parts s key = Some p \<Longrightarrow> \<not> part_frozen p \<Longrightarrow>
    change s (on_part key (\<lambda>p. p\<lparr>part_text := part_text p @ delta\<rparr>) s)"
| grow_refusal: "message_parts s key = Some p \<Longrightarrow> \<not> part_frozen p \<Longrightarrow>
    change s (on_part key (\<lambda>p. p\<lparr>part_refusal := part_refusal p @ delta\<rparr>) s)"
| seal_part: "change s (freeze_part key s)"
| seal_message: "messages s key = Some m \<Longrightarrow> change s (seal_message key (part_keys m) s)"
| file_reasoning: "reasonings s key = None \<Longrightarrow> change s (add_reasoning key item_id ms os s)"
| set_messages_state: "reasonings s key = Some r \<Longrightarrow> messages_state r = None \<or> messages_state r = Some m \<Longrightarrow>
    change s (on_reasoning key (\<lambda>r. r\<lparr>messages_state := Some m\<rparr>) s)"
| set_opaque_state: "change s (on_reasoning key (\<lambda>r. r\<lparr>opaque_state := Some os\<rparr>) s)"
| file_reasoning_part: "reasonings s key = Some r \<Longrightarrow> \<not> reasoning_frozen r \<Longrightarrow>
    reasoning_parts s part_key = None \<Longrightarrow> item_key part = key \<Longrightarrow> \<not> reasoning_part_frozen part \<Longrightarrow>
    change s (add_reasoning_part key part_key part s)"
| grow_reasoning: "reasoning_parts s key = Some p \<Longrightarrow> \<not> reasoning_part_frozen p \<Longrightarrow>
    change s (on_reasoning_part key (\<lambda>p. p\<lparr>reasoning_text := reasoning_text p @ delta\<rparr>) s)"
| seal_reasoning: "reasonings s key = Some r \<Longrightarrow> \<not> reasoning_frozen r \<Longrightarrow>
    change s (seal_reasoning key status (reasoning_part_keys r) s)"
| file_tool: "find_tool key s = None \<Longrightarrow> call_id \<notin> call_ids s \<Longrightarrow> call_id \<noteq> [] \<Longrightarrow> name \<noteq> [] \<Longrightarrow>
    change s (add_tool key item_id call_id name s)"
| grow_arguments: "find_tool key s = Some t \<Longrightarrow> \<not> tool_done t \<Longrightarrow>
    change s (on_tool key (\<lambda>t. t\<lparr>arguments_json := arguments_json t @ delta\<rparr>) s)"
| seal_tool: "change s (on_tool key (\<lambda>t. t\<lparr>tool_done := True\<rparr>) s)"

abbreviation changes :: "ledger \<Rightarrow> ledger \<Rightarrow> bool" where
  "changes \<equiv> change\<^sup>*\<^sup>*"

interpretation led: evolution changes
  by unfold_locales (auto intro: rtranclp_trans)

named_theorems changes_intros \<open>the methods of the ledger are sequences of changes\<close>

lemma change_modify: "(\<And>s. P s \<Longrightarrow> change s (g s)) \<Longrightarrow> within_from P changes (smodify g)"
  by (auto intro!: led.within_modify)

section \<open>Messages\<close>

lemma changes_charge:
  "used_bytes s + n \<le> byte_budget s \<Longrightarrow> changes s (s\<lparr>used_bytes := used_bytes s + n\<rparr>)"
  by (rule r_into_rtranclp) (rule charge)

lemma within_reserve_bytes [changes_intros]: "within_from P changes (reserve_bytes n)"
  by (rule within_fromI) (auto simp: reserve_bytes_def demand_def intro: changes_charge)

lemma within_reserve_text [changes_intros]: "within_from P changes (reserve_text v)"
  by (simp add: reserve_text_def within_reserve_bytes)

lemma within_reserve_opt [changes_intros]: "within_from P changes (reserve_opt v)"
  by (cases v) (simp_all add: reserve_opt_def within_reserve_text led.within_pure)

text \<open>What \<open>reserve\<close> leaves untouched.\<close>

lemma reserve_text_Inr [simp]:
  "reserve_text v s = Inr (x, t) \<longleftrightarrow> t = s\<lparr>used_bytes := used_bytes s + int (utf8_length v)\<rparr> \<and>
     used_bytes s + int (utf8_length v) \<le> byte_budget s"
  by (auto simp: reserve_text_def reserve_bytes_def demand_def)

lemma message_of_found: "triple (\<lambda>_. True) (message_of key) (\<lambda>m s. messages s key = Some m)"
  by (auto intro!: tripleI simp: message_of_def add_message_def split: option.splits)

lemma message_of_present: "triple (\<lambda>s. messages s key = Some m) (message_of key) (\<lambda>m' s. m' = m \<and> messages s key = Some m)"
  by (auto intro!: tripleI simp: message_of_def)

lemma message_of_cases:
  "message_of key s = Inr (m, t) \<longleftrightarrow> (messages s key = Some m \<and> t = s) \<or>
     (messages s key = None \<and> m = new_message \<and> used_bytes s + int (utf8_length key) \<le> byte_budget s \<and>
      t = add_message key (s\<lparr>used_bytes := used_bytes s + int (utf8_length key)\<rparr>))"
  by (auto simp: message_of_def split: option.splits)

lemma charge_then:
  "used_bytes s + n \<le> byte_budget s \<Longrightarrow> change (s\<lparr>used_bytes := used_bytes s + n\<rparr>) t \<Longrightarrow> changes s t"
  by (rule rtranclp.rtrancl_into_rtrancl [OF changes_charge])

lemma within_message_of [changes_intros]: "within_from P changes (message_of key)"
proof (rule within_fromI)
  fix s m t
  assume "message_of key s = Inr (m, t)"
  then show "changes s t"
    unfolding message_of_cases by (elim disjE conjE) (simp, simp only:, erule charge_then, simp add: file_message)
qed

lemma within_message_part:
  "within_from (\<lambda>s. \<exists>m. messages s grp = Some m \<and> (message_parts s key = None \<longrightarrow> \<not> message_frozen m)) changes
     (message_part key grp)"
proof (rule within_fromI, elim exE conjE)
  fix s x t m
  assume m: "messages s grp = Some m" and frozen: "message_parts s key = None \<longrightarrow> \<not> message_frozen m"
    and ok: "message_part key grp s = Inr (x, t)"
  show "changes s t"
  proof (cases "message_parts s key")
    case None
    define n where "n = (if key \<noteq> grp then int (utf8_length key) else 0)"
    define u where "u = s\<lparr>used_bytes := used_bytes s + n\<rparr>"
    have "changes s u"
      using ok None by (auto simp: u_def n_def message_part_def swhen_def intro!: changes_charge split: if_splits)
    moreover have "t = add_part key grp u"
      using ok None m by (auto simp: u_def n_def message_part_def swhen_def add_part_def message_of_cases
          split: if_splits)
    moreover have "change u (add_part key grp u)"
      using m frozen None by (auto simp: u_def intro!: file_part)
    ultimately show ?thesis by (meson rtranclp.rtrancl_into_rtrancl)
  next
    case (Some p)
    then show ?thesis using ok by (simp add: message_part_def demand_def)
  qed
qed

lemma message_part_result:
  "triple (\<lambda>s. \<exists>m. messages s grp = Some m) (message_part key grp)
     (\<lambda>p s. message_parts s key = Some p \<and> (\<exists>m. messages s grp = Some m))"
  by (rule tripleI)
    (auto simp: message_part_def demand_def message_of_cases on_message_def map_at_apply swhen_def
      split: option.splits if_splits)

text \<open>The prefix the observers and the appenders share: the part of an open group, filed if new.\<close>

definition open_part :: "jsstr \<Rightarrow> jsstr \<Rightarrow> message_part_state ledger_op" where
  "open_part key order_key =
     sbind (message_of order_key) (\<lambda>m. sthen (open_for m key) (message_part key order_key))"

lemma sbind_assoc: "sbind (sbind m f) g = sbind m (\<lambda>x. sbind (f x) g)"
  by (auto simp: sbind_def fun_eq_iff ebind_def split: sum.splits)

lemma sthen_assoc: "sbind (sthen m n) g = sthen m (sbind n g)"
  by (simp add: sthen_def sbind_assoc)

lemma observe_text_open:
  "observe_text key order_key = sbind (open_part key order_key) (\<lambda>part.
     sthen (smodify (on_part key (\<lambda>p. p\<lparr>text_seen := True\<rparr>))) (sreturn (\<not> text_seen part)))"
  by (simp add: observe_text_def open_part_def sbind_assoc sthen_assoc)

lemma observe_refusal_open:
  "observe_refusal key order_key = sbind (open_part key order_key) (\<lambda>part.
     sthen (smodify (on_part key (\<lambda>p. p\<lparr>refusal_seen := True\<rparr>))) (sreturn (\<not> refusal_seen part)))"
  by (simp add: observe_refusal_def open_part_def sbind_assoc sthen_assoc)

lemma within_open_part [changes_intros]: "within_from P changes (open_part key order_key)"
  unfolding open_part_def
proof (rule led.within_seq [OF within_message_of])
  show "triple P (message_of order_key) (\<lambda>m s. messages s order_key = Some m)"
    by (rule triple_conseq [OF message_of_found]) auto
  show "within_from (\<lambda>s. messages s order_key = Some m) changes
      (sthen (open_for m key) (message_part key order_key))" for m
    by (rule within_fromI) (auto simp: open_for_def demand_def intro!: within_fromD [OF within_message_part])
qed

lemma open_part_result:
  "triple (\<lambda>_. True) (open_part key order_key)
     (\<lambda>p s. message_parts s key = Some p \<and> (\<exists>m. messages s order_key = Some m))"
proof -
  have "triple (\<lambda>s. messages s order_key = Some m) (sthen (open_for m key) (message_part key order_key))
      (\<lambda>p s. message_parts s key = Some p \<and> (\<exists>m. messages s order_key = Some m))" for m
    by (rule tripleI) (auto simp: open_for_def demand_def dest!: tripleD [OF message_part_result])
  then show ?thesis
    unfolding open_part_def by (rule triple_bind [OF message_of_found])
qed

lemma within_see [changes_intros]:
  "within changes (smodify (on_part key (\<lambda>p. p\<lparr>text_seen := True\<rparr>)))"
  "within changes (smodify (on_part key (\<lambda>p. p\<lparr>refusal_seen := True\<rparr>)))"
  by (rule change_modify, rule see_text) (rule change_modify, rule see_refusal)

lemma within_observe [changes_intros]:
  "within changes (observe_text key order_key)"
  "within changes (observe_refusal key order_key)"
  unfolding observe_text_open observe_refusal_open
  by (intro led.within_bind led.within_then led.within_pure changes_intros)+

lemma observe_result:
  "triple (\<lambda>_. True) (observe_text key order_key) (\<lambda>_ s. message_parts s key \<noteq> None \<and> messages s order_key \<noteq> None)"
  "triple (\<lambda>_. True) (observe_refusal key order_key) (\<lambda>_ s. message_parts s key \<noteq> None \<and> messages s order_key \<noteq> None)"
  unfolding observe_text_open observe_refusal_open
  by (rule triple_bind [OF open_part_result]; rule tripleI; auto simp: on_part_def map_at_apply)+

text \<open>Appending to an open part: the second look-up finds what the observer has filed.\<close>

lemma within_append_part:
  assumes "\<And>s p. message_parts s key = Some p \<Longrightarrow> \<not> part_frozen p \<Longrightarrow> change s (g s)"
    and "triple (\<lambda>_. True) m (\<lambda>_ s. message_parts s key \<noteq> None \<and> messages s grp \<noteq> None)"
    and "within changes m"
  shows "within changes (sthen m (sbind (message_part key grp) (\<lambda>part.
           sthen (demand (\<not> part_frozen part)) (smodify g))))"
  unfolding sthen_def [of m]
proof (rule led.within_seq [OF assms(3,2)])
  show "within_from (\<lambda>s. message_parts s key \<noteq> None \<and> messages s grp \<noteq> None) changes
      (sbind (message_part key grp) (\<lambda>part. sthen (demand (\<not> part_frozen part)) (smodify g)))"
    by (rule within_fromI) (auto simp: message_part_def demand_def intro!: r_into_rtranclp assms(1))
qed

lemma within_append [changes_intros]:
  "within changes (append_text key delta order_key)"
  "within changes (append_refusal key delta order_key)"
  unfolding append_text_def append_refusal_def
  by (rule led.within_then [OF within_reserve_text], rule within_append_part,
      (rule grow_text grow_refusal; assumption), rule observe_result, rule within_observe)+

lemma within_start_message [changes_intros]: "within changes (start_message key)"
  unfolding start_message_def by (intro led.within_then led.within_pure changes_intros)

lemma within_finish_content [changes_intros]: "within changes (finish_content key)"
  by (rule within_fromI) (auto simp: finish_content_def invalid_def split: option.splits
      intro!: r_into_rtranclp seal_part [unfolded freeze_part_def])

lemma within_finish_message [changes_intros]: "within changes (finish_message key)"
  unfolding finish_message_def
  by (rule led.within_seq [OF within_message_of message_of_found], rule within_fromI)
    (auto simp: seal_message_def [symmetric] intro!: r_into_rtranclp seal_message)

section \<open>Reasoning\<close>

lemma within_reserve_opaque [changes_intros]: "within_from P changes (reserve_opaque st)"
  unfolding reserve_opaque_def by (intro led.within_bind led.within_pure changes_intros)

lemma within_reserve_messages_state [changes_intros]: "within_from P changes (reserve_messages_state st)"
  by (cases st) (auto simp: reserve_messages_state_def intro!: led.within_then changes_intros)

lemma within_rebind [changes_intros]: "within_from P changes (rebind_opaque old st)"
proof (rule within_fromI)
  fix s x t
  assume "rebind_opaque old st s = Inr (x, t)"
  then obtain n k where "t = s\<lparr>used_bytes := used_bytes s + (k - n)\<rparr>" "used_bytes s + (k - n) \<le> byte_budget s"
    by (auto simp: rebind_opaque_def reserve_opaque_def reserve_bytes_def demand_def algebra_simps)
  then show "changes s t" by (simp only: changes_charge)
qed

lemma charges_keep:
  "keeps (\<lambda>s. Q (reasonings s)) (reserve_text v)"
  "keeps (\<lambda>s. Q (reasonings s)) (reserve_opt i)"
  "keeps (\<lambda>s. Q (reasonings s)) (reserve_opaque st)"
  "keeps (\<lambda>s. Q (reasonings s)) (rebind_opaque old st)"
  "keeps (\<lambda>s. Q (reasonings s)) (reserve_messages_state ms)"
  by (auto intro!: tripleI simp: reserve_opt_def reserve_opaque_def reserve_bytes_def demand_def
      rebind_opaque_def reserve_messages_state_def split: option.splits messages_reasoning.splits)

lemma within_create_reasoning:
  "within_from (\<lambda>s. reasonings s key = None) changes (create_reasoning key item_id ms os)"
proof -
  let ?none = "\<lambda>s. reasonings s key = None"
  have keep: "keeps ?none (reserve_text v)" "keeps ?none (reserve_opt i)"
    "keeps ?none (case ms of None \<Rightarrow> sreturn () | Some m \<Rightarrow> reserve_messages_state m)"
    "keeps ?none (case os of None \<Rightarrow> sreturn () | Some st \<Rightarrow> reserve_opaque st)" for v i
    using charges_keep [where Q = "\<lambda>m. m key = None"]
    by (auto split: option.split intro: keeps_return)
  have wit: "within_from ?none changes (case ms of None \<Rightarrow> sreturn () | Some m \<Rightarrow> reserve_messages_state m)"
    "within_from ?none changes (case os of None \<Rightarrow> sreturn () | Some st \<Rightarrow> reserve_opaque st)"
    by (auto split: option.split intro: led.within_pure changes_intros)
  have "within_from ?none changes (smodify (add_reasoning key item_id ms os))"
    by (rule change_modify, rule file_reasoning)
  then show ?thesis
    unfolding create_reasoning_def sthen_def
    by (intro led.within_seq [where Q = "\<lambda>_. ?none"] keep wit within_reserve_text within_reserve_opt)
qed

lemma within_update_messages_state:
  "within_from (\<lambda>s. reasonings s key = Some r) changes (update_messages_state key r ms)"
proof (cases ms)
  case (Some m)
  let ?here = "\<lambda>s. reasonings s key = Some r"
  have "within_from ?here changes (sthen (swhen (messages_state r = None) (reserve_messages_state m))
      (smodify (on_reasoning key (\<lambda>r. r\<lparr>messages_state := Some m\<rparr>))))"
    if "messages_state r = None \<or> messages_state r = Some m"
    unfolding sthen_def
  proof (rule led.within_seq [where Q = "\<lambda>_. ?here"])
    show "keeps ?here (swhen (messages_state r = None) (reserve_messages_state m))"
      by (rule keeps_when, rule charges_keep [where Q = "\<lambda>m. m key = Some r"])
    show "within_from ?here changes (smodify (on_reasoning key (\<lambda>r. r\<lparr>messages_state := Some m\<rparr>)))"
      by (rule change_modify) (rule set_messages_state, assumption, rule that)
  qed (intro led.within_when changes_intros)
  then show ?thesis
    unfolding update_messages_state_def demand_def Some by (simp add: led.within_require)
qed (simp add: update_messages_state_def led.within_pure)

lemma within_update_opaque [changes_intros]: "within changes (update_opaque_state key r os)"
proof (cases os)
  case (Some st)
  have "within changes (smodify (on_reasoning key (\<lambda>r. r\<lparr>opaque_state := Some st\<rparr>)))"
    by (rule change_modify) (rule set_opaque_state)
  then show ?thesis
    unfolding update_opaque_state_def Some option.case
    by (cases "opaque_state r")
      (auto simp: invalid_def intro!: led.within_then led.within_bind led.within_if led.within_pure changes_intros)
qed (simp add: update_opaque_state_def led.within_pure)

lemma within_current [changes_intros]: "within changes (current_reasoning key)"
  by (rule within_fromI) (auto simp: current_reasoning_def invalid_def split: option.splits)

lemma current_found: "triple (\<lambda>_. True) (current_reasoning key) (\<lambda>r s. reasonings s key = Some r)"
  by (rule tripleI) (auto simp: current_reasoning_def invalid_def split: option.splits)

lemma within_reasoning_of [changes_intros]: "within changes (reasoning_of key item_id ms os)"
  unfolding reasoning_of_def
proof (rule led.within_get, unfold sthen_def, rule led.within_bind)
  fix found
  show "within_from (\<lambda>s. True \<and> found = reasonings s key) changes
      (case found of None \<Rightarrow> create_reasoning key item_id ms os
       | Some r \<Rightarrow> sbind (demand (reasoning_item_id r = item_id)) (\<lambda>_. update_messages_state key r ms))"
  proof (cases found)
    case None
    then show ?thesis by (auto intro: within_weaken [OF within_create_reasoning])
  next
    case (Some r)
    have "within_from (\<lambda>s. reasonings s key = Some r) changes
        (sthen (demand (reasoning_item_id r = item_id)) (update_messages_state key r ms))"
      unfolding demand_def by (intro led.within_require within_update_messages_state)
    then show ?thesis unfolding Some sthen_def by (simp, rule within_weaken) simp_all
  qed
qed (intro led.within_bind changes_intros)

lemma reasoning_of_found: "triple (\<lambda>_. True) (reasoning_of key item_id ms os) (\<lambda>r s. reasonings s key = Some r)"
  by (rule tripleI) (auto simp: reasoning_of_def dest: tripleD [OF current_found])

lemma within_start_reasoning [changes_intros]: "within changes (start_reasoning key item_id ms os)"
  unfolding start_reasoning_def by (intro led.within_then led.within_pure changes_intros)

lemma within_reasoning_part [changes_intros]: "within changes (reasoning_part key part_key item_id pres index)"
  unfolding reasoning_part_def
proof (rule led.within_seq [OF within_reasoning_of reasoning_of_found], rule within_fromI)
  fix r :: reasoning_state and s t :: ledger and x
  assume r: "reasonings s key = Some r"
  let ?part = "\<lparr> item_key = key, part_presentation = pres, part_index = index, reasoning_text = [],
      reasoning_part_frozen = False \<rparr>"
  assume ok: "sthen (demand (\<not> reasoning_frozen r)) (sbind (sget (\<lambda>s. reasoning_parts s part_key))
    (\<lambda>found. case found of
         Some part \<Rightarrow>
           sthen (demand (item_key part = key \<and> part_presentation part = pres \<and> part_index part = index))
             (sreturn part)
       | None \<Rightarrow> let part = ?part
           in sthen (swhen (part_key \<noteq> key) (reserve_text part_key))
              (sthen (smodify (\<lambda>s. s\<lparr>reasoning_parts := (reasoning_parts s)(part_key \<mapsto> part)\<rparr>))
              (sthen (smodify (on_reasoning key
                  (\<lambda>r. r\<lparr>reasoning_part_keys := reasoning_part_keys r @ [part_key]\<rparr>)))
              (sreturn part))))) s = Inr (x, t)"
  show "changes s t"
  proof (cases "reasoning_parts s part_key")
    case None
    define n where "n = (if part_key \<noteq> key then int (utf8_length part_key) else 0)"
    define u where "u = s\<lparr>used_bytes := used_bytes s + n\<rparr>"
    have "changes s u"
      using ok None by (auto simp: u_def n_def swhen_def demand_def Let_def intro!: changes_charge split: if_splits)
    moreover have "t = add_reasoning_part key part_key ?part u"
      using ok None by (auto simp: u_def n_def swhen_def demand_def Let_def add_reasoning_part_def split: if_splits)
    moreover have "change u (add_reasoning_part key part_key ?part u)"
      using ok None r by (auto simp: u_def demand_def intro!: file_reasoning_part)
    ultimately show ?thesis by (meson rtranclp.rtrancl_into_rtrancl)
  next
    case (Some p)
    then show ?thesis using ok by (simp add: demand_def)
  qed
qed

lemma reasoning_part_found:
  "triple (\<lambda>_. True) (reasoning_part key part_key item_id pres index) (\<lambda>p s. reasoning_parts s part_key = Some p)"
  by (rule tripleI)
    (auto simp: reasoning_part_def demand_def swhen_def on_reasoning_def Let_def split: option.splits if_splits)

lemma within_append_reasoning [changes_intros]:
  "within changes (append_reasoning key part_key item_id pres index delta)"
  unfolding append_reasoning_def
proof (rule led.within_then [OF within_reserve_text],
    rule led.within_seq [OF within_reasoning_part reasoning_part_found])
  fix part
  show "within_from (\<lambda>s. reasoning_parts s part_key = Some part) changes
      (sthen (demand (\<not> reasoning_part_frozen part))
        (smodify (on_reasoning_part part_key (\<lambda>p. p\<lparr>reasoning_text := reasoning_text p @ delta\<rparr>))))"
    unfolding demand_def by (intro led.within_require change_modify) (rule grow_reasoning)
qed

lemma within_out_parts [changes_intros]: "within changes (out_parts_of ks)"
proof (induction ks)
  case (Cons k ks)
  have "within changes (case found of None \<Rightarrow> invalid | Some p \<Rightarrow> sbind (out_parts_of ks) (\<lambda>ps. sreturn (f p ps)))"
    for found and f :: "reasoning_part_state \<Rightarrow> reasoning_out_part list \<Rightarrow> reasoning_out_part list"
    using Cons.IH by (cases found) (auto simp: invalid_def intro!: led.within_pure led.within_bind)
  then show ?case unfolding out_parts_of.simps by (intro led.within_bind led.within_pure)
next
  case Nil
  show ?case unfolding out_parts_of.simps by (rule led.within_pure)
qed

lemma within_reasoning_item [changes_intros]: "within changes (reasoning_item key r)"
  unfolding reasoning_item_def by (intro led.within_bind led.within_pure changes_intros)

lemma within_freeze_reasoning:
  "within_from (\<lambda>s. reasonings s key = Some r \<and> \<not> reasoning_frozen r) changes (freeze_reasoning key status r)"
  by (rule within_fromI)
    (auto simp: freeze_reasoning_def seal_reasoning_def [symmetric] intro!: r_into_rtranclp seal_reasoning)

lemma within_finish_reasoning [changes_intros]: "within changes (finish_reasoning key status)"
  unfolding finish_reasoning_def
proof (rule led.within_seq [OF within_current current_found], rule led.within_if)
  fix r
  show "within_from (\<lambda>s. reasonings s key = Some r) changes
      (sthen (demand (reasoning_status r = Some status)) (reasoning_item key r))"
    unfolding demand_def by (intro led.within_then led.within_pure changes_intros)
  assume "\<not> reasoning_frozen r"
  then show "within_from (\<lambda>s. reasonings s key = Some r) changes
      (sbind (freeze_reasoning key status r) (reasoning_item key))"
    by (intro led.within_bind within_weaken [OF within_freeze_reasoning] changes_intros) auto
qed

lemma within_finish_open_reasoning [changes_intros]: "within changes (finish_open_reasoning status)"
proof -
  have "within changes (finish_open_entry status e)" for e
    unfolding finish_open_entry_def
    by (intro led.within_if led.within_pure led.within_bind)
      (auto split: option.split intro!: led.within_if led.within_pure led.within_bind changes_intros)
  then show ?thesis
    unfolding finish_open_reasoning_def by (intro led.within_bind led.within_pure led.within_collect)
qed

section \<open>Tools\<close>

lemma charges_keep_tools:
  "keeps (\<lambda>s. Q (tools s) (call_ids s)) (reserve_text v)"
  "keeps (\<lambda>s. Q (tools s) (call_ids s)) (reserve_opt i)"
  by (auto intro!: tripleI simp: reserve_opt_def split: option.splits)

lemma within_start_tool [changes_intros]: "within changes (start_tool key item_id call_id name)"
proof -
  let ?new = "\<lambda>s. find_tool key s = None \<and> call_id \<notin> call_ids s"
  have keep: "keeps ?new (reserve_text v)" "keeps ?new (reserve_opt i)" for v i
    using charges_keep_tools [where Q = "\<lambda>ts cs. map_of ts key = None \<and> call_id \<notin> cs"]
    by (simp_all add: find_tool_def)
  have "within_from ?new changes (smodify (add_tool key item_id call_id name))"
    if "call_id \<noteq> []" "name \<noteq> []"
    by (rule change_modify) (rule file_tool; simp add: that)
  then have "within_from ?new changes (sthen (reserve_text key) (sthen (reserve_opt item_id)
      (sthen (reserve_text call_id) (sthen (reserve_text name)
        (smodify (add_tool key item_id call_id name))))))"
    if "call_id \<noteq> []" "name \<noteq> []"
    using that unfolding sthen_def
    by (intro led.within_seq [where Q = "\<lambda>_. ?new"] keep within_reserve_text within_reserve_opt)
  then show ?thesis
    unfolding start_tool_def add_tool_def [abs_def] demand_def within_from_def by auto
qed

lemma within_tool_of [changes_intros]: "within changes (tool_of key)"
  by (rule within_fromI) (auto simp: tool_of_def invalid_def split: option.splits)

lemma tool_found: "triple (\<lambda>_. True) (tool_of key) (\<lambda>t s. find_tool key s = Some t)"
  by (rule tripleI) (auto simp: tool_of_def invalid_def split: option.splits)

lemma within_reserve_then_tool:
  assumes "\<And>s. find_tool key s = Some t \<Longrightarrow> change s (g s)"
  shows "within_from (\<lambda>s. find_tool key s = Some t) changes (sthen (reserve_text v) (smodify g))"
  unfolding sthen_def
proof (rule led.within_seq [OF within_reserve_text])
  show "keeps (\<lambda>s. find_tool key s = Some t) (reserve_text v)"
    using charges_keep_tools(1) [where Q = "\<lambda>ts cs. map_of ts key = Some t"] by (simp add: find_tool_def)
qed (rule change_modify, rule assms)

lemma within_append_arguments [changes_intros]: "within changes (append_tool_arguments key delta)"
  unfolding append_tool_arguments_def demand_def
  by (rule led.within_seq [OF within_tool_of tool_found], intro led.within_require within_reserve_then_tool)
    (rule grow_arguments)

lemma within_apply_snapshot:
  "within_from (\<lambda>s. find_tool key s = Some t \<and> \<not> tool_done t) changes (apply_snapshot key t v)"
proof (rule within_fromI, elim conjE)
  fix s x u
  assume t: "find_tool key s = Some t" "\<not> tool_done t" and ok: "apply_snapshot key t v s = Inr (x, u)"
  define d where "d = drop (length (arguments_json t)) v"
  have v: "v = arguments_json t @ d"
    using ok by (auto simp: apply_snapshot_def demand_def starts_with_def d_def) (metis append_take_drop_id)
  define w where "w = s\<lparr>used_bytes := used_bytes s + int (utf8_length d)\<rparr>"
  have "changes s w"
    using ok by (auto simp: apply_snapshot_def demand_def w_def d_def Let_def intro!: changes_charge)
  moreover have "change w (on_tool key (\<lambda>t. t\<lparr>arguments_json := arguments_json t @ d\<rparr>) w)"
    by (rule grow_arguments [of _ _ t]) (use t in \<open>simp_all add: w_def find_tool_def\<close>)
  moreover have "on_tool key (\<lambda>t. t\<lparr>arguments_json := arguments_json t @ d\<rparr>) w = u"
  proof -
    have w_t: "find_tool key w = Some t" using t by (simp add: w_def find_tool_def)
    have "u = on_tool key (\<lambda>t. t\<lparr>arguments_json := v\<rparr>) w"
      using ok by (auto simp: apply_snapshot_def demand_def w_def d_def Let_def)
    also have "\<dots> = on_tool key (\<lambda>_. t\<lparr>arguments_json := v\<rparr>) w" by (rule on_tool_const [OF w_t])
    also have "\<dots> = on_tool key (\<lambda>t. t\<lparr>arguments_json := arguments_json t @ d\<rparr>) w"
      unfolding v by (rule on_tool_const [OF w_t, symmetric])
    finally show ?thesis by (rule sym)
  qed
  ultimately show "changes s u" by (simp add: rtranclp.rtrancl_into_rtrancl)
qed

lemma within_check_arguments [changes_intros]: "within_from P changes (check_arguments v)"
  unfolding check_arguments_def by (intro led.within_then led.within_pure)

lemma within_seal_tool [changes_intros]: "within_from P changes (smodify (on_tool key (\<lambda>t. t\<lparr>tool_done := True\<rparr>)))"
  by (rule change_modify) (rule seal_tool)

lemma within_finish_tool [changes_intros]: "within changes (finish_tool key snapshot completed validate_completed)"
  unfolding finish_tool_def
proof (rule led.within_seq [OF within_tool_of tool_found], rule led.within_if)
  fix t
  show "within_from (\<lambda>s. find_tool key s = Some t) changes
      (if snapshot = None \<or> snapshot = Some (arguments_json t)
       then sthen (swhen (completed \<and> validate_completed) (check_arguments (arguments_json t))) (sreturn [])
       else invalid)"
    unfolding invalid_def by (intro led.within_if led.within_then led.within_when led.within_pure changes_intros)
  assume "\<not> tool_done t"
  then have "within_from (\<lambda>s. find_tool key s = Some t) changes
      (case snapshot of None \<Rightarrow> sreturn [] | Some v \<Rightarrow> apply_snapshot key t v)"
    by (auto split: option.split intro: led.within_pure within_weaken [OF within_apply_snapshot])
  then show "within_from (\<lambda>s. find_tool key s = Some t) changes
      (sbind (case snapshot of None \<Rightarrow> sreturn [] | Some v \<Rightarrow> apply_snapshot key t v) (\<lambda>suffix.
         sthen (swhen (completed \<and> validate_completed)
                  (check_arguments (case snapshot of None \<Rightarrow> arguments_json t | Some v \<Rightarrow> v)))
         (sthen (smodify (on_tool key (\<lambda>t. t\<lparr>tool_done := True\<rparr>))) (sreturn suffix))))"
    by (intro led.within_bind led.within_then led.within_when led.within_pure changes_intros)
qed

lemma within_finish_open_tools [changes_intros]: "within changes (finish_open_tools validates)"
  unfolding finish_open_tools_def finish_open_tool_def
  by (intro led.within_bind led.within_pure led.within_for led.within_then led.within_when changes_intros)

section \<open>The assembled items\<close>

lemma within_entry_items: "within changes (entry_items status e)"
proof -
  have entries: "within changes (part_entries k)" for k
    by (rule within_fromI) (auto simp: part_entries_def invalid_def split: option.splits)
  have messages: "within changes (message_items k)" for k
    unfolding message_items_def
    by (intro led.within_bind led.within_pure)
      (auto simp: invalid_def split: option.split intro!: led.within_pure led.within_bind led.within_collect entries)
  have reasoning: "within changes (reasoning_items status k)" for k
    unfolding reasoning_items_def
  proof (rule led.within_seq [OF within_current current_found])
    fix r
    have "within_from (\<lambda>s. reasonings s k = Some r) changes
        (if reasoning_frozen r then sreturn r else freeze_reasoning k status r)"
      by (auto intro: led.within_pure within_weaken [OF within_freeze_reasoning])
    then show "within_from (\<lambda>s. reasonings s k = Some r) changes
       (sbind (if reasoning_frozen r then sreturn r else freeze_reasoning k status r) (\<lambda>r.
        sbind (reasoning_item k r) (\<lambda>item. sreturn [Reasoning_item item])))"
      by (intro led.within_bind led.within_pure changes_intros)
  qed
  have tools: "within changes (tool_items status k)" for k
    unfolding tool_items_def demand_def by (intro led.within_bind led.within_then led.within_pure changes_intros)
  show ?thesis
    using messages reasoning tools by (auto simp: entry_items_def split: item_kind.split)
qed

lemma within_items [changes_intros]: "within changes (items status)"
  unfolding items_def by (intro led.within_bind led.within_pure led.within_collect within_entry_items)

section \<open>Runs\<close>

text \<open>One call of a public method that returns.\<close>

inductive ledger_step :: "ledger \<Rightarrow> ledger \<Rightarrow> bool" where
  "start_message key s = Inr (a, t) \<Longrightarrow> ledger_step s t"
| "append_text key delta order_key s = Inr (a, t) \<Longrightarrow> ledger_step s t"
| "observe_text key order_key s = Inr (b, t) \<Longrightarrow> ledger_step s t"
| "append_refusal key delta order_key s = Inr (a, t) \<Longrightarrow> ledger_step s t"
| "observe_refusal key order_key s = Inr (b, t) \<Longrightarrow> ledger_step s t"
| "finish_content key s = Inr (a, t) \<Longrightarrow> ledger_step s t"
| "finish_message key s = Inr (a, t) \<Longrightarrow> ledger_step s t"
| "start_reasoning key item_id ms os s = Inr (a, t) \<Longrightarrow> ledger_step s t"
| "append_reasoning key part_key item_id pres index delta s = Inr (a, t) \<Longrightarrow> ledger_step s t"
| "finish_reasoning key status s = Inr (item, t) \<Longrightarrow> ledger_step s t"
| "finish_open_reasoning status s = Inr (reasoning_outs, t) \<Longrightarrow> ledger_step s t"
| "start_tool key item_id call_id name s = Inr (a, t) \<Longrightarrow> ledger_step s t"
| "append_tool_arguments key delta s = Inr (a, t) \<Longrightarrow> ledger_step s t"
| "finish_tool key snapshot completed validate_completed s = Inr (suffix, t) \<Longrightarrow> ledger_step s t"
| "finish_open_tools validates s = Inr (a, t) \<Longrightarrow> ledger_step s t"
| "items status s = Inr (outs, t) \<Longrightarrow> ledger_step s t"

lemma step_changes: "ledger_step s t \<Longrightarrow> changes s t"
  by (induction rule: ledger_step.induct) (rule withinD, rule changes_intros, assumption)+

lemma run_changes: "ledger_step\<^sup>*\<^sup>* s t \<Longrightarrow> changes s t"
  by (induction rule: rtranclp_induct) (auto dest: step_changes)

end
