(* ===== verification/Ledger_Safety.thy ===== *)
theory Ledger_Safety
  imports Ledger_Changes
begin

text \<open>
  The invariant of the ledger and the ways it may grow: \<open>ledger_ok\<close> holds of a new ledger and every
  change keeps it, \<open>ledger_grows\<close> relates a ledger to every later one.
\<close>

section \<open>The well-formed ledger\<close>

definition order_ok :: "ledger \<Rightarrow> bool" where
  "order_ok s \<longleftrightarrow> distinct (item_order s) \<and>
     (\<forall>k. (Message_kind, k) \<in> set (item_order s) \<longleftrightarrow> messages s k \<noteq> None) \<and>
     (\<forall>k. (Reasoning_kind, k) \<in> set (item_order s) \<longleftrightarrow> reasonings s k \<noteq> None) \<and>
     (\<forall>k. (Tool_kind, k) \<in> set (item_order s) \<longleftrightarrow> find_tool k s \<noteq> None)"

definition tools_ok :: "ledger \<Rightarrow> bool" where
  "tools_ok s \<longleftrightarrow> distinct (map fst (tools s)) \<and>
     distinct (map (\<lambda>e. tool_call_id (snd e)) (tools s)) \<and>
     call_ids s = set (map (\<lambda>e. tool_call_id (snd e)) (tools s)) \<and>
     [] \<notin> set (map (\<lambda>e. tool_call_id (snd e)) (tools s)) \<and>
     [] \<notin> set (map (\<lambda>e. tool_name (snd e)) (tools s))"

text \<open>
  Messages and reasoning items keep their parts the same way: a group lists the keys of its parts,
  a part names its group, and a group and its parts agree on what is frozen.
\<close>

definition filed ::
  "('m \<Rightarrow> 'k list) \<Rightarrow> ('p \<Rightarrow> 'g) \<Rightarrow> ('m \<Rightarrow> 'p \<Rightarrow> bool) \<Rightarrow> ('g \<rightharpoonup> 'm) \<Rightarrow> ('k \<rightharpoonup> 'p) \<Rightarrow> bool" where
  "filed keys owner agree ms ps \<longleftrightarrow>
     (\<forall>g m. ms g = Some m \<longrightarrow> distinct (keys m) \<and>
        (\<forall>p \<in> set (keys m). \<exists>q. ps p = Some q \<and> owner q = g \<and> agree m q)) \<and>
     (\<forall>p q. ps p = Some q \<longrightarrow> (\<exists>m. ms (owner q) = Some m \<and> p \<in> set (keys m)))"

lemma filed_part:
  "filed keys owner agree ms ps \<Longrightarrow> ms g = Some m \<Longrightarrow> p \<in> set (keys m) \<Longrightarrow>
   \<exists>q. ps p = Some q \<and> owner q = g \<and> agree m q"
  unfolding filed_def by blast

lemma filed_owner:
  "filed keys owner agree ms ps \<Longrightarrow> ps p = Some q \<Longrightarrow> \<exists>m. ms (owner q) = Some m \<and> p \<in> set (keys m)"
  unfolding filed_def by blast

lemma filed_distinct: "filed keys owner agree ms ps \<Longrightarrow> ms g = Some m \<Longrightarrow> distinct (keys m)"
  unfolding filed_def by blast

lemma filed_new_group:
  assumes f: "filed keys owner agree ms ps" and "ms g = None" and "keys v = []"
  shows "filed keys owner agree (ms(g \<mapsto> v)) ps"
  using assms(2,3) filed_part [OF f] filed_owner [OF f] filed_distinct [OF f]
  unfolding filed_def [of _ _ _ "ms(g \<mapsto> v)"] by (auto split: if_splits) (metis option.discI)+

lemma map_at_Some: "map_at k f m x = Some w \<longleftrightarrow> (\<exists>v. m x = Some v \<and> w = (if x = k then f v else v))"
  by (auto simp: map_at_apply)

lemma filed_on_part:
  assumes f: "filed keys owner agree ms ps"
    and h: "\<And>q. owner (h q) = owner q" "\<And>m q. agree m q \<Longrightarrow> agree m (h q)"
  shows "filed keys owner agree ms (map_at p h ps)"
  unfolding filed_def
proof (intro conjI allI impI ballI)
  fix g m assume m: "ms g = Some m"
  then show "distinct (keys m)" by (rule filed_distinct [OF f])
  fix p' assume "p' \<in> set (keys m)"
  then show "\<exists>q. map_at p h ps p' = Some q \<and> owner q = g \<and> agree m q"
    using filed_part [OF f m, of p'] h by (cases "p' = p") (auto simp: map_at_apply)
next
  fix p' q assume "map_at p h ps p' = Some q"
  then show "\<exists>m. ms (owner q) = Some m \<and> p' \<in> set (keys m)"
    using filed_owner [OF f, of p'] h by (auto simp: map_at_Some split: if_splits)
qed

lemma filed_on_group:
  assumes f: "filed keys owner agree ms ps"
    and h: "\<And>m. keys (h m) = keys m" "\<And>m q. agree (h m) q = agree m q"
  shows "filed keys owner agree (map_at g h ms) ps"
  unfolding filed_def
proof (intro conjI allI impI ballI)
  fix g' m assume m: "map_at g h ms g' = Some m"
  then show "distinct (keys m)" using filed_distinct [OF f] h by (auto simp: map_at_Some)
  fix p' assume "p' \<in> set (keys m)"
  then show "\<exists>q. ps p' = Some q \<and> owner q = g' \<and> agree m q"
    using filed_part [OF f, of g' _ p'] m h by (auto simp: map_at_Some split: if_splits)
next
  fix p' q assume "ps p' = Some q"
  then show "\<exists>m. map_at g h ms (owner q) = Some m \<and> p' \<in> set (keys m)"
    using filed_owner [OF f, of p'] h by (cases "owner q = g") (auto simp: map_at_apply)
qed

lemma filed_new_part:
  assumes f: "filed keys owner agree ms ps" and m: "ms g = Some m" and p: "ps p = None"
    and q: "owner q = g" "agree (h m) q" and h: "keys (h m) = keys m @ [p]" "\<And>q. agree (h m) q = agree m q"
  shows "filed keys owner agree (map_at g h ms) (ps(p \<mapsto> q))"
proof -
  have new: "p \<notin> set (keys m')" if "ms g' = Some m'" for g' m'
    using filed_part [OF f that, of p] p by (metis option.discI)
  show ?thesis
    unfolding filed_def
  proof (intro conjI allI impI ballI)
    fix g' m' assume "map_at g h ms g' = Some m'"
    then consider "g' = g" "m' = h m" | "g' \<noteq> g" "ms g' = Some m'"
      using m by (auto simp: map_at_apply split: if_splits)
    note this [THEN disjI2]
    then show "distinct (keys m')"
      using m h new filed_distinct [OF f] \<open>map_at g h ms g' = Some m'\<close>
      by (auto simp: map_at_apply split: if_splits)
    fix p' assume "p' \<in> set (keys m')"
    then show "\<exists>q'. (ps(p \<mapsto> q)) p' = Some q' \<and> owner q' = g' \<and> agree m' q'"
      using m h q new filed_part [OF f] \<open>map_at g h ms g' = Some m'\<close>
      by (cases "g' = g") (fastforce simp: map_at_apply)+
  next
    fix p' q' assume "(ps(p \<mapsto> q)) p' = Some q'"
    then show "\<exists>m'. map_at g h ms (owner q') = Some m' \<and> p' \<in> set (keys m')"
      using m h q filed_owner [OF f, of p' q'] by (auto simp: map_at_apply split: if_splits)
  qed
qed

lemma filed_seal:
  assumes f: "filed keys owner agree ms ps" and m: "ms g = Some m"
    and h: "keys (h m) = keys m" "\<And>q. agree m q \<Longrightarrow> agree (h m) (k q)"
    and k: "\<And>q. owner (k q) = owner q" "\<And>q. k (k q) = k q"
  shows "filed keys owner agree (map_at g h ms) (map_all (keys m) k ps)"
  unfolding filed_def
proof (intro conjI allI impI ballI)
  fix g' m' assume m': "map_at g h ms g' = Some m'"
  then show "distinct (keys m')"
    using m h filed_distinct [OF f] by (auto simp: map_at_apply split: if_splits)
  fix p assume p: "p \<in> set (keys m')"
  show "\<exists>q. map_all (keys m) k ps p = Some q \<and> owner q = g' \<and> agree m' q"
  proof (cases "g' = g")
    case True
    then have "m' = h m" using m m' by (simp add: map_at_apply)
    then show ?thesis
      using filed_part [OF f m, of p] p h k True by (auto simp: map_all_apply)
  next
    case False
    then have "ms g' = Some m'" using m' by (simp add: map_at_apply)
    then obtain q where q: "ps p = Some q" "owner q = g'" "agree m' q"
      using filed_part [OF f _ p] by blast
    then have "p \<notin> set (keys m)" using filed_part [OF f m, of p] False by auto
    then show ?thesis using q k by (simp add: map_all_apply)
  qed
next
  fix p q assume "map_all (keys m) k ps p = Some q"
  then obtain q0 where "ps p = Some q0" "owner q = owner q0"
    using k by (auto simp: map_all_apply split: if_splits)
  then show "\<exists>m'. map_at g h ms (owner q) = Some m' \<and> p \<in> set (keys m')"
    using filed_owner [OF f, of p q0] m h by (auto simp: map_at_apply)
qed

definition parts_ok :: "ledger \<Rightarrow> bool" where
  "parts_ok s \<longleftrightarrow> filed part_keys group_key (\<lambda>m p. message_frozen m \<longrightarrow> part_frozen p)
     (messages s) (message_parts s)"

definition reasoning_ok :: "ledger \<Rightarrow> bool" where
  "reasoning_ok s \<longleftrightarrow>
     filed reasoning_part_keys item_key (\<lambda>r p. reasoning_part_frozen p \<longleftrightarrow> reasoning_frozen r)
       (reasonings s) (reasoning_parts s) \<and>
     (\<forall>r \<in> ran (reasonings s). reasoning_frozen r \<longleftrightarrow> reasoning_status r \<noteq> None)"

lemmas change_defs = add_message_def add_part_def add_reasoning_def add_reasoning_part_def add_tool_def
  on_message_def on_part_def on_reasoning_def on_reasoning_part_def freeze_part_def
  seal_message_def seal_reasoning_def fold_freeze_part fold_freeze_reasoning_part

lemma order_ok_change: "change s t \<Longrightarrow> order_ok s \<Longrightarrow> order_ok t"
proof (induction rule: change.induct)
  case (file_tool key s call_id name item_id)
  then show ?case by (auto simp: order_ok_def change_defs find_tool_def)
next
  case (grow_arguments key s t delta)
  then show ?case by (auto simp: order_ok_def find_on_tool) (simp_all add: on_tool_def)
next
  case (seal_tool s key)
  then show ?case by (auto simp: order_ok_def find_on_tool) (simp_all add: on_tool_def)
qed (auto simp: order_ok_def change_defs find_tool_def map_at_apply split: if_splits)

lemma tools_ok_change: "change s t \<Longrightarrow> tools_ok s \<Longrightarrow> tools_ok t"
proof (induction rule: change.induct)
  case (file_tool key s call_id name item_id)
  then show ?case
    by (auto simp: tools_ok_def change_defs find_tool_def map_of_eq_None_iff image_iff)
qed (simp_all add: tools_ok_def change_defs on_tool_def map_update_entry)

lemma parts_ok_change: "change s t \<Longrightarrow> parts_ok s \<Longrightarrow> parts_ok t"
  by (induction rule: change.induct)
    (auto simp: parts_ok_def change_defs on_tool_def new_message_def new_part_def
      intro!: filed_new_group filed_on_part filed_new_part filed_seal)

lemma ran_map_at: "(\<And>v. v \<in> ran m \<Longrightarrow> P v) \<Longrightarrow> (\<And>v. P v \<Longrightarrow> P (f v)) \<Longrightarrow> v \<in> ran (map_at k f m) \<Longrightarrow> P v"
  by (auto simp: ran_def map_at_apply split: if_splits)

lemma reasoning_ok_change: "change s t \<Longrightarrow> reasoning_ok s \<Longrightarrow> reasoning_ok t"
proof (induction rule: change.induct)
  case (seal_reasoning s key r status)
  then show ?case
    by (auto simp: reasoning_ok_def change_defs intro!: filed_seal elim!: ran_map_at [rotated 2])
next
  case (file_reasoning_part s key r part_key part)
  then show ?case
    by (auto simp: reasoning_ok_def change_defs intro!: filed_new_part elim!: ran_map_at [rotated 2])
qed (auto simp: reasoning_ok_def change_defs on_tool_def
      intro!: filed_new_group filed_on_part filed_on_group elim!: ran_map_at [rotated 2])

definition ledger_ok :: "ledger \<Rightarrow> bool" where
  "ledger_ok s \<longleftrightarrow> order_ok s \<and> tools_ok s \<and> parts_ok s \<and> reasoning_ok s \<and> used_bytes s \<le> byte_budget s"

lemma used_ok_change: "change s t \<Longrightarrow> used_bytes s \<le> byte_budget s \<Longrightarrow> used_bytes t \<le> byte_budget t"
  by (induction rule: change.induct) (simp_all add: change_defs on_tool_def)

lemma ledger_ok_change: "change s t \<Longrightarrow> ledger_ok s \<Longrightarrow> ledger_ok t"
  by (simp add: ledger_ok_def order_ok_change tools_ok_change parts_ok_change reasoning_ok_change used_ok_change)

lemma ledger_ok_changes: "changes s t \<Longrightarrow> ledger_ok s \<Longrightarrow> ledger_ok t"
  by (induction rule: rtranclp_induct) (auto dest: ledger_ok_change)

lemma ledger_ok_new: "0 \<le> budget \<Longrightarrow> ledger_ok (new_ledger budget)"
  by (simp add: ledger_ok_def new_ledger_def order_ok_def tools_ok_def parts_ok_def reasoning_ok_def find_tool_def
      filed_def)

lemma ledger_ok_run: "ledger_step\<^sup>*\<^sup>* (new_ledger budget) s \<Longrightarrow> 0 \<le> budget \<Longrightarrow> ledger_ok s"
  using ledger_ok_changes ledger_ok_new run_changes by blast

section \<open>How a ledger grows\<close>

text \<open>
  What no operation undoes: an entry stays where it is, text and arguments only grow at their end,
  what is frozen or done keeps its text, and the identity of an item is fixed when it is filed.
\<close>

definition extends :: "'a list \<Rightarrow> 'a list \<Rightarrow> bool" where
  "extends xs ys \<longleftrightarrow> (\<exists>zs. ys = xs @ zs)"

definition map_grows :: "('v \<Rightarrow> 'v \<Rightarrow> bool) \<Rightarrow> ('k \<rightharpoonup> 'v) \<Rightarrow> ('k \<rightharpoonup> 'v) \<Rightarrow> bool" where
  "map_grows r m m' \<longleftrightarrow> (\<forall>k v. m k = Some v \<longrightarrow> (\<exists>v'. m' k = Some v' \<and> r v v'))"

definition part_grows :: "message_part_state \<Rightarrow> message_part_state \<Rightarrow> bool" where
  "part_grows p p' \<longleftrightarrow> group_key p' = group_key p \<and>
     extends (part_text p) (part_text p') \<and> extends (part_refusal p) (part_refusal p') \<and>
     (part_frozen p \<longrightarrow> part_frozen p' \<and> part_text p' = part_text p \<and> part_refusal p' = part_refusal p)"

definition message_grows :: "message_state \<Rightarrow> message_state \<Rightarrow> bool" where
  "message_grows m m' \<longleftrightarrow> extends (part_keys m) (part_keys m') \<and>
     (message_frozen m \<longrightarrow> message_frozen m' \<and> part_keys m' = part_keys m)"

definition reasoning_part_grows :: "reasoning_part_state \<Rightarrow> reasoning_part_state \<Rightarrow> bool" where
  "reasoning_part_grows p p' \<longleftrightarrow> item_key p' = item_key p \<and>
     part_presentation p' = part_presentation p \<and> part_index p' = part_index p \<and>
     extends (reasoning_text p) (reasoning_text p') \<and>
     (reasoning_part_frozen p \<longrightarrow> reasoning_part_frozen p' \<and> reasoning_text p' = reasoning_text p)"

definition reasoning_grows :: "reasoning_state \<Rightarrow> reasoning_state \<Rightarrow> bool" where
  "reasoning_grows r r' \<longleftrightarrow> reasoning_item_id r' = reasoning_item_id r \<and>
     extends (reasoning_part_keys r) (reasoning_part_keys r') \<and>
     (messages_state r \<noteq> None \<longrightarrow> messages_state r' = messages_state r) \<and>
     (reasoning_frozen r \<longrightarrow> reasoning_frozen r' \<and> reasoning_status r' = reasoning_status r \<and>
        reasoning_part_keys r' = reasoning_part_keys r)"

definition tool_grows :: "tool_state \<Rightarrow> tool_state \<Rightarrow> bool" where
  "tool_grows t t' \<longleftrightarrow> tool_item_id t' = tool_item_id t \<and> tool_call_id t' = tool_call_id t \<and>
     tool_name t' = tool_name t \<and> extends (arguments_json t) (arguments_json t') \<and>
     (tool_done t \<longrightarrow> tool_done t' \<and> arguments_json t' = arguments_json t)"

lemmas grows_defs = part_grows_def message_grows_def reasoning_part_grows_def reasoning_grows_def tool_grows_def

definition ledger_grows :: "ledger \<Rightarrow> ledger \<Rightarrow> bool" where
  "ledger_grows s s' \<longleftrightarrow> byte_budget s' = byte_budget s \<and>
     extends (item_order s) (item_order s') \<and>
     map_grows message_grows (messages s) (messages s') \<and>
     map_grows part_grows (message_parts s) (message_parts s') \<and>
     map_grows reasoning_grows (reasonings s) (reasonings s') \<and>
     map_grows reasoning_part_grows (reasoning_parts s) (reasoning_parts s') \<and>
     map_grows tool_grows (\<lambda>k. find_tool k s) (\<lambda>k. find_tool k s')"

lemma extends_refl [simp]: "extends xs xs"
  by (simp add: extends_def)

lemma extends_append [simp]: "extends xs (xs @ ys)"
  by (auto simp: extends_def)

lemma extends_trans: "extends xs ys \<Longrightarrow> extends ys zs \<Longrightarrow> extends xs zs"
  by (auto simp: extends_def)

lemma grows_refl [simp]:
  "part_grows p p" "message_grows m m" "reasoning_part_grows q q" "reasoning_grows r r" "tool_grows t t"
  by (simp_all add: grows_defs)

lemma map_grows_refl [simp]: "(\<And>v. r v v) \<Longrightarrow> map_grows r m m"
  by (auto simp: map_grows_def)

lemma map_grows_trans:
  "map_grows r m n \<Longrightarrow> map_grows r n k \<Longrightarrow> (\<And>u v w. r u v \<Longrightarrow> r v w \<Longrightarrow> r u w) \<Longrightarrow> map_grows r m k"
  unfolding map_grows_def by metis

lemma map_grows_new [simp]: "(\<And>v. r v v) \<Longrightarrow> m k = None \<Longrightarrow> map_grows r m (m(k \<mapsto> v))"
  by (auto simp: map_grows_def)

lemma map_grows_at: "(\<And>v. r v v) \<Longrightarrow> (\<And>v. m k = Some v \<Longrightarrow> r v (f v)) \<Longrightarrow> map_grows r m (map_at k f m)"
  by (auto simp: map_grows_def map_at_apply)

lemma map_grows_all:
  "(\<And>v. r v v) \<Longrightarrow> (\<And>v. r v (f v)) \<Longrightarrow> (\<And>v. f (f v) = f v) \<Longrightarrow> map_grows r m (map_all ks f m)"
  by (auto simp: map_grows_def map_all_apply)

lemma grows_trans:
  "part_grows p p' \<Longrightarrow> part_grows p' p'' \<Longrightarrow> part_grows p p''"
  "message_grows m m' \<Longrightarrow> message_grows m' m'' \<Longrightarrow> message_grows m m''"
  "reasoning_part_grows q q' \<Longrightarrow> reasoning_part_grows q' q'' \<Longrightarrow> reasoning_part_grows q q''"
  "reasoning_grows r r' \<Longrightarrow> reasoning_grows r' r'' \<Longrightarrow> reasoning_grows r r''"
  "tool_grows t t' \<Longrightarrow> tool_grows t' t'' \<Longrightarrow> tool_grows t t''"
  unfolding grows_defs by (auto intro: extends_trans)

lemma ledger_grows_refl: "ledger_grows s s"
  by (simp add: ledger_grows_def)

lemma ledger_grows_trans:
  assumes "ledger_grows s t" and "ledger_grows t u"
  shows "ledger_grows s u"
  using assms unfolding ledger_grows_def
  by (elim conjE, intro conjI)
    (simp, erule (1) extends_trans, erule (1) map_grows_trans, erule (1) grows_trans,
     erule (1) map_grows_trans, erule (1) grows_trans, erule (1) map_grows_trans, erule (1) grows_trans,
     erule (1) map_grows_trans, erule (1) grows_trans, erule (1) map_grows_trans, erule (1) grows_trans)

lemma map_grows_same: "m' = m \<Longrightarrow> (\<And>v. r v v) \<Longrightarrow> map_grows r m m'"
  by simp

lemma find_tool_cong: "tools t = tools s \<Longrightarrow> (\<lambda>k. find_tool k t) = (\<lambda>k. find_tool k s)"
  by (simp add: find_tool_def)

lemma tool_change_grows:
  "(\<And>t. find_tool key s = Some t \<Longrightarrow> tool_grows t (f t)) \<Longrightarrow>
   map_grows tool_grows (\<lambda>k. find_tool k s) (\<lambda>k. find_tool k (on_tool key f s))"
  by (auto simp: map_grows_def find_on_tool)

lemma change_grows: "change s t \<Longrightarrow> ledger_grows s t"
proof (induction rule: change.induct)
  case (file_tool key s call_id name item_id)
  then show ?case
    by (auto simp: ledger_grows_def change_defs find_tool_def map_grows_def map_add_def)
next
  case (grow_arguments key s t delta)
  then show ?case
    by (auto simp: ledger_grows_def grows_defs intro!: tool_change_grows) (simp_all add: on_tool_def)
next
  case (seal_tool s key)
  then show ?case
    by (auto simp: ledger_grows_def grows_defs intro!: tool_change_grows) (simp_all add: on_tool_def)
qed (auto simp: ledger_grows_def change_defs find_tool_def grows_defs intro!: map_grows_at map_grows_all)

lemma run_grows: "changes s t \<Longrightarrow> ledger_grows s t"
  by (induction rule: rtranclp_induct) (auto intro: ledger_grows_refl ledger_grows_trans change_grows)

end
