(* ===== verification/Ledger_Budget.thy ===== *)
theory Ledger_Budget
  imports Ledger_Changes
begin

text \<open>
  The byte budget of the ledger: \<open>content_bytes\<close> is the size of everything a ledger keeps, and every
  method charges for what it adds before it adds it, so the content never exceeds the bytes charged.
\<close>

section \<open>Sizes\<close>

lemma low_not_high: "low_surrogate v \<Longrightarrow> \<not> high_surrogate v"
  by (auto simp: low_surrogate_def high_surrogate_def word_le_nat_alt)

lemma code_points_low: "low_surrogate v \<Longrightarrow> code_points (v # r) = unat v # code_points r"
  by (cases r) (simp_all add: low_not_high)

lemma utf8_width_le: "utf8_width cp \<le> 4"
  by (simp add: utf8_width_def)

lemma utf8_width_surrogate:
  "high_surrogate u \<Longrightarrow> utf8_width (unat u) = 3" "low_surrogate u \<Longrightarrow> utf8_width (unat u) = 3"
  by (auto simp: high_surrogate_def low_surrogate_def utf8_width_def word_le_nat_alt)

lemma utf8_length_append: "utf8_length (a @ b) \<le> utf8_length a + utf8_length b"
proof (induction a rule: code_points.induct)
  case (2 u)
  show ?case
  proof (cases b)
    case (Cons v r)
    then show ?thesis
      using utf8_width_le [of "pair_code_point u v"]
      by (auto simp: utf8_length_def code_points_low utf8_width_surrogate)
  qed simp
next
  case (3 u v r)
  then show ?case
    by (cases "high_surrogate u \<and> low_surrogate v") (auto simp: utf8_length_def)
qed simp

definition bytes_of :: "jsstr \<Rightarrow> int" where
  "bytes_of v = int (utf8_length v)"

lemma bytes_of_append: "bytes_of (a @ b) \<le> bytes_of a + bytes_of b"
  using utf8_length_append [of a b] by (simp add: bytes_of_def flip: of_nat_add)

lemma bytes_of_simps [simp]: "0 \<le> bytes_of v" "bytes_of [] = 0"
  by (simp_all add: bytes_of_def)

definition opt_bytes :: "jsstr option \<Rightarrow> int" where
  "opt_bytes v = (case v of None \<Rightarrow> 0 | Some s \<Rightarrow> bytes_of s)"

definition part_bytes :: "jsstr \<Rightarrow> message_part_state \<Rightarrow> int" where
  "part_bytes k p = (if k = group_key p then 0 else bytes_of k) + bytes_of (part_text p) + bytes_of (part_refusal p)"

definition reasoning_part_bytes :: "jsstr \<Rightarrow> reasoning_part_state \<Rightarrow> int" where
  "reasoning_part_bytes k p = (if k = item_key p then 0 else bytes_of k) + bytes_of (reasoning_text p)"

definition messages_state_bytes :: "messages_reasoning option \<Rightarrow> int" where
  "messages_state_bytes ms = (case ms of None \<Rightarrow> 0
     | Some (Thinking thinking signature) \<Rightarrow> bytes_of thinking + bytes_of signature
     | Some (Redacted_thinking d) \<Rightarrow> bytes_of d)"

text \<open>
  The opaque states the budget covers: those of Chat and Messages. A Responses item is left out;
  \<open>opaque_item_uncounted\<close> below says why.
\<close>

definition opaque_bytes :: "opaque_reasoning option \<Rightarrow> int" where
  "opaque_bytes os = (case os of None \<Rightarrow> 0 | Some st \<Rightarrow>
     if is_responses_item st then 0 else case opaque_length st of Inl _ \<Rightarrow> 0 | Inr n \<Rightarrow> n)"

definition reasoning_bytes :: "jsstr \<Rightarrow> reasoning_state \<Rightarrow> int" where
  "reasoning_bytes k r = bytes_of k + opt_bytes (reasoning_item_id r)
     + messages_state_bytes (messages_state r) + opaque_bytes (opaque_state r)"

definition tool_bytes :: "jsstr \<times> tool_state \<Rightarrow> int" where
  "tool_bytes e = bytes_of (fst e) + opt_bytes (tool_item_id (snd e)) + bytes_of (tool_call_id (snd e))
     + bytes_of (tool_name (snd e)) + bytes_of (arguments_json (snd e))"

definition map_total :: "('k \<Rightarrow> 'v \<Rightarrow> int) \<Rightarrow> ('k \<rightharpoonup> 'v) \<Rightarrow> int" where
  "map_total f m = (\<Sum>k \<in> dom m. f k (the (m k)))"

definition content_bytes :: "ledger \<Rightarrow> int" where
  "content_bytes s = map_total (\<lambda>k m. bytes_of k) (messages s) + map_total part_bytes (message_parts s)
     + map_total reasoning_bytes (reasonings s) + map_total reasoning_part_bytes (reasoning_parts s)
     + sum_list (map tool_bytes (tools s))"

lemma map_total_empty [simp]: "map_total f Map.empty = 0"
  by (simp add: map_total_def)

lemma map_total_new:
  assumes "finite (dom m)" and "m k = None"
  shows "map_total f (m(k \<mapsto> v)) = f k v + map_total f m"
proof -
  have "(\<Sum>x \<in> dom m. f x (the ((m(k \<mapsto> v)) x))) = (\<Sum>x \<in> dom m. f x (the (m x)))"
    using assms(2) by (intro sum.cong) auto
  with assms show ?thesis by (simp add: map_total_def domIff)
qed

lemma dom_map_at [simp]: "dom (map_at k h m) = dom m"
  by (auto simp: map_at_apply split: if_splits)

lemma map_total_at:
  assumes "finite (dom m)"
  shows "map_total f (map_at k h m) =
    map_total f m + (case m k of None \<Rightarrow> 0 | Some v \<Rightarrow> f k (h v) - f k v)"
proof (cases "m k")
  case (Some v)
  have "map_total f m = f k v + (\<Sum>x \<in> dom m - {k}. f x (the (m x)))"
    unfolding map_total_def using assms Some by (subst sum.remove [of _ k]) auto
  moreover have "map_total f (map_at k h m) = f k (h v) + (\<Sum>x \<in> dom m - {k}. f x (the (map_at k h m x)))"
    unfolding map_total_def dom_map_at using assms Some by (subst sum.remove [of _ k]) (auto simp: map_at_apply)
  moreover have "(\<Sum>x \<in> dom m - {k}. f x (the (map_at k h m x))) = (\<Sum>x \<in> dom m - {k}. f x (the (m x)))"
    by (intro sum.cong) (auto simp: map_at_apply)
  ultimately show ?thesis by (simp add: Some)
qed (simp add: map_at_def)

lemma map_total_same: "(\<And>k v. f k (h v) = f k v) \<Longrightarrow> finite (dom m) \<Longrightarrow> map_total f (map_at k h m) = map_total f m"
  by (simp add: map_total_at split: option.split)

lemma map_total_all:
  assumes "\<And>k v. f k (h v) = f k v" and "finite (dom m)"
  shows "map_total f (map_all ks h m) = map_total f m \<and> finite (dom (map_all ks h m))"
  using assms(2) unfolding map_all_def
  by (induction ks arbitrary: m) (simp_all add: map_total_same assms(1))

lemma sum_update_entry:
  "map_of es key = Some t \<Longrightarrow>
   sum_list (map tool_bytes (update_entry key f es)) =
     sum_list (map tool_bytes es) + (tool_bytes (key, f t) - tool_bytes (key, t))"
  by (induction es) (auto split: if_splits)

section \<open>Every byte is charged first\<close>

definition slack :: "int \<Rightarrow> ledger \<Rightarrow> bool" where
  "slack n s \<longleftrightarrow> finite (dom (messages s)) \<and> finite (dom (message_parts s)) \<and>
     finite (dom (reasonings s)) \<and> finite (dom (reasoning_parts s)) \<and>
     content_bytes s + n \<le> used_bytes s"

lemma slack_less: "slack n s \<Longrightarrow> k \<le> n \<Longrightarrow> slack k s"
  by (simp add: slack_def)

lemma slack_reserve: "triple (slack n) (reserve_text v) (\<lambda>_. slack (n + bytes_of v))"
  by (rule tripleI) (auto simp: slack_def content_bytes_def bytes_of_def)

lemma slack_reserve_opt: "triple (slack n) (reserve_opt v) (\<lambda>_. slack (n + opt_bytes v))"
  by (cases v) (simp_all add: reserve_opt_def opt_bytes_def slack_reserve keeps_return)

lemma slack_message_of: "keeps (slack n) (message_of key)"
  by (rule tripleI)
    (auto simp: message_of_cases slack_def content_bytes_def add_message_def map_total_new bytes_of_def)

lemma slack_message_part: "keeps (slack n) (message_part key grp)"
proof (rule tripleI)
  fix s p t assume s: "slack n s" and ok: "message_part key grp s = Inr (p, t)"
  show "slack n t"
  proof (cases "message_parts s key")
    case (Some q)
    with ok s show ?thesis by (simp add: message_part_def demand_def)
  next
    case None
    define u where "u = s\<lparr>used_bytes := used_bytes s + (if key = grp then 0 else bytes_of key),
      message_parts := (message_parts s)(key \<mapsto> new_part grp)\<rparr>"
    have u: "slack n u"
      using s None by (simp add: u_def slack_def content_bytes_def map_total_new part_bytes_def new_part_def)
    obtain m v where "message_of grp u = Inr (m, v)"
      "t = on_message grp (\<lambda>m. m\<lparr>part_keys := part_keys m @ [key]\<rparr>) v"
      using ok None by (auto simp: message_part_def swhen_def u_def bytes_of_def split: if_splits)
    moreover from this(1) have "slack n v" using u by (rule tripleD [OF slack_message_of])
    ultimately show ?thesis
      by (simp add: slack_def on_message_def content_bytes_def map_total_same)
  qed
qed

lemma slack_open_part: "keeps (slack n) (open_part key order_key)"
proof -
  have "keeps (slack n) (open_for m key)" for m
    by (rule tripleI) (auto simp: open_for_def demand_def)
  then show ?thesis
    unfolding open_part_def by (intro keeps_bind keeps_then slack_message_of slack_message_part)
qed

lemma slack_on_part:
  "(\<And>p. message_parts s key = Some p \<Longrightarrow> part_bytes key (f p) \<le> part_bytes key p + k) \<Longrightarrow> 0 \<le> k \<Longrightarrow>
   slack (n + k) s \<Longrightarrow> slack n (on_part key f s)"
  by (cases "message_parts s key") (auto simp: slack_def on_part_def content_bytes_def map_total_at)

lemma slack_observe:
  "keeps (slack n) (observe_text key order_key)" "keeps (slack n) (observe_refusal key order_key)"
  unfolding observe_text_open observe_refusal_open
  by (intro keeps_bind keeps_then slack_open_part keeps_return keeps_modify,
      rule slack_on_part [where k = 0]; simp add: part_bytes_def)+

lemma slack_append:
  "keeps (slack n) (append_text key delta order_key)"
  "keeps (slack n) (append_refusal key delta order_key)"
proof -
  have 1: "triple (slack (n + bytes_of delta)) (sthen (demand (\<not> part_frozen part))
      (smodify (on_part key (\<lambda>p. p\<lparr>part_text := part_text p @ delta\<rparr>)))) (\<lambda>_. slack n)" for part
    by (rule tripleI) (auto simp: demand_def part_bytes_def bytes_of_append
      intro!: slack_on_part [where k = "bytes_of delta"])
  have 2: "triple (slack (n + bytes_of delta)) (sthen (demand (\<not> part_frozen part))
      (smodify (on_part key (\<lambda>p. p\<lparr>part_refusal := part_refusal p @ delta\<rparr>)))) (\<lambda>_. slack n)" for part
    by (rule tripleI) (auto simp: demand_def part_bytes_def bytes_of_append
      intro!: slack_on_part [where k = "bytes_of delta"])
  show "keeps (slack n) (append_text key delta order_key)" "keeps (slack n) (append_refusal key delta order_key)"
    unfolding append_text_def append_refusal_def sthen_def [of "reserve_text delta"]
      sthen_def [of "observe_text key order_key"] sthen_def [of "observe_refusal key order_key"]
    by (rule triple_bind [OF slack_reserve], rule triple_bind [OF slack_observe(1)],
        rule triple_bind [OF slack_message_part], rule 1)
      (rule triple_bind [OF slack_reserve], rule triple_bind [OF slack_observe(2)],
        rule triple_bind [OF slack_message_part], rule 2)
qed

lemma slack_finish_content: "keeps (slack n) (finish_content key)"
  by (rule tripleI) (auto simp: finish_content_def invalid_def part_bytes_def split: option.splits
      intro!: slack_on_part [where k = 0])

lemma slack_finish_message: "keeps (slack n) (finish_message key)"
proof -
  have "slack n (seal_message key ks s)" if "slack n s" for ks s
    using that map_total_all [where f = part_bytes and h = "\<lambda>p. p\<lparr>part_frozen := True\<rparr>"]
    by (simp add: slack_def seal_message_def fold_freeze_part on_message_def content_bytes_def
        map_total_same part_bytes_def)
  then show ?thesis
    unfolding finish_message_def
    by (intro keeps_bind slack_message_of) (auto intro!: tripleI simp: seal_message_def)
qed

section \<open>Reasoning\<close>

lemma reserve_bytes_Inr [simp]:
  "reserve_bytes n s = Inr (x, t) \<longleftrightarrow> t = s\<lparr>used_bytes := used_bytes s + n\<rparr> \<and> used_bytes s + n \<le> byte_budget s"
  by (auto simp: reserve_bytes_def demand_def)

lemma slack_used: "slack n s \<Longrightarrow> slack (n + k) (s\<lparr>used_bytes := used_bytes s + k\<rparr>)"
  by (simp add: slack_def content_bytes_def)

lemma opaque_bytes_le: "opaque_length st = Inr k \<Longrightarrow> opaque_bytes (Some st) \<le> k"
  by (auto simp: opaque_bytes_def opaque_length_def map_sum_def split: sum.splits)

lemma slack_reserve_opaque: "triple (slack n) (reserve_opaque st) (\<lambda>_. slack (n + opaque_bytes (Some st)))"
  by (rule tripleI) (auto simp: reserve_opaque_def intro: slack_less [OF slack_used] dest!: opaque_bytes_le)

lemma slack_reserve_messages_state:
  "triple (slack n) (reserve_messages_state m) (\<lambda>_. slack (n + messages_state_bytes (Some m)))"
proof (cases m)
  case (Thinking thinking signature)
  have "triple (slack n) (sthen (reserve_text thinking) (reserve_text signature))
      (\<lambda>_. slack (n + bytes_of thinking + bytes_of signature))"
    unfolding sthen_def by (intro triple_bind [OF slack_reserve] slack_reserve)
  with Thinking show ?thesis
    by (simp add: reserve_messages_state_def messages_state_bytes_def add.assoc)
qed (simp add: reserve_messages_state_def messages_state_bytes_def slack_reserve)

lemma slack_reserve_case:
  "triple (slack n) (case os of None \<Rightarrow> sreturn () | Some st \<Rightarrow> reserve_opaque st) (\<lambda>_. slack (n + opaque_bytes os))"
  "triple (slack n) (case ms of None \<Rightarrow> sreturn () | Some m \<Rightarrow> reserve_messages_state m)
     (\<lambda>_. slack (n + messages_state_bytes ms))"
proof -
  have "opaque_bytes None = 0" "messages_state_bytes None = 0"
    by (simp_all add: opaque_bytes_def messages_state_bytes_def)
  then show "triple (slack n) (case os of None \<Rightarrow> sreturn () | Some st \<Rightarrow> reserve_opaque st)
      (\<lambda>_. slack (n + opaque_bytes os))"
    "triple (slack n) (case ms of None \<Rightarrow> sreturn () | Some m \<Rightarrow> reserve_messages_state m)
      (\<lambda>_. slack (n + messages_state_bytes ms))"
    by (auto simp: keeps_return slack_reserve_opaque slack_reserve_messages_state split: option.split)
qed

lemma slack_create_reasoning:
  "triple (\<lambda>s. slack n s \<and> reasonings s key = None) (create_reasoning key item_id ms os) (\<lambda>_. slack n)"
proof -
  let ?P = "\<lambda>k s. slack k s \<and> reasonings s key = None"
  have both: "triple (?P k) m (\<lambda>_. ?P l)"
    if "triple (slack k) m (\<lambda>_. slack l)" "keeps (\<lambda>s. reasonings s key = None) m" for k l and m :: "unit ledger_op"
    using that unfolding triple_def by blast
  note none = charges_keep [where Q = "\<lambda>m. m key = None"]
  have none_case:
    "keeps (\<lambda>s. reasonings s key = None) (case ms of None \<Rightarrow> sreturn () | Some m \<Rightarrow> reserve_messages_state m)"
    "keeps (\<lambda>s. reasonings s key = None) (case os of None \<Rightarrow> sreturn () | Some st \<Rightarrow> reserve_opaque st)"
    using none by (auto split: option.split intro: keeps_return)
  have "triple (?P (n + bytes_of key + opt_bytes item_id + messages_state_bytes ms + opaque_bytes os))
      (smodify (add_reasoning key item_id ms os)) (\<lambda>_. slack n)"
    by (rule tripleI) (auto simp: slack_def content_bytes_def add_reasoning_def map_total_new reasoning_bytes_def)
  then show ?thesis
    unfolding create_reasoning_def sthen_def
    by (intro triple_bind [OF both [OF slack_reserve none(1)]]
        triple_bind [OF both [OF slack_reserve_opt none(2)]]
        triple_bind [OF both [OF slack_reserve_case(2) none_case(1)]]
        triple_bind [OF both [OF slack_reserve_case(1) none_case(2)]])
qed

lemma slack_on_reasoning:
  assumes "slack (n + k) s" and "reasonings s key = Some r"
    and "reasoning_bytes key (f r) \<le> reasoning_bytes key r + k"
  shows "slack n (on_reasoning key f s)"
  using assms by (simp add: slack_def on_reasoning_def content_bytes_def map_total_at)

lemma slack_update_messages_state:
  "triple (\<lambda>s. slack n s \<and> reasonings s key = Some r) (update_messages_state key r ms) (\<lambda>_. slack n)"
proof (rule tripleI, elim conjE)
  fix s x t
  assume s: "slack n s" "reasonings s key = Some r" and ok: "update_messages_state key r ms s = Inr (x, t)"
  show "slack n t"
  proof (cases ms)
    case None
    with ok s show ?thesis by (simp add: update_messages_state_def)
  next
    case (Some m)
    define k where "k = (if messages_state r = None then messages_state_bytes (Some m) else 0)"
    obtain u where u: "swhen (messages_state r = None) (reserve_messages_state m) s = Inr ((), u)"
      and t: "t = on_reasoning key (\<lambda>r. r\<lparr>messages_state := Some m\<rparr>) u"
      and m: "messages_state r = None \<or> messages_state r = Some m"
      using ok Some by (auto simp: update_messages_state_def demand_def)
    have "slack (n + k) u"
      using u s tripleD [OF slack_reserve_messages_state, of m s _ u n]
      by (auto simp: k_def swhen_def split: if_splits)
    moreover have "reasonings u key = Some r"
      using u s tripleD [OF charges_keep(5) [where Q = "\<lambda>m. m key = Some r"], of m s _ u]
      by (auto simp: swhen_def split: if_splits)
    ultimately show ?thesis
      unfolding t
      by (rule slack_on_reasoning) (use m in \<open>auto simp: reasoning_bytes_def k_def messages_state_bytes_def\<close>)
  qed
qed

lemma same_opaque_bytes:
  assumes "same_opaque_state old st = Inr True" shows "opaque_bytes (Some st) = opaque_bytes (Some old)"
proof -
  have same: "canonical_bytes v = canonical_bytes w" if "same_wire_json v w = Inr True" for v w
    using that by (auto simp: same_wire_json_def ebind_eq_Inr)
  show ?thesis
    using assms same
    by (cases old; cases st) (auto simp: same_opaque_state_def opaque_bytes_def opaque_length_def opaque_members_def)
qed

lemma slack_rebind:
  assumes "slack n s" and "rebind_opaque old st s = Inr (x, t)" and "extends_chat_state old st = Inr True"
  shows "slack (n + (opaque_bytes (Some st) - opaque_bytes (Some old))) t"
proof -
  have "\<not> is_responses_item old" "\<not> is_responses_item st"
    using assms(3) by (auto simp: extends_chat_state_def split: opaque_reasoning.splits)
  with assms(2) show ?thesis
    using slack_used [OF assms(1), of "opaque_bytes (Some st) - opaque_bytes (Some old)"]
    by (auto simp: rebind_opaque_def reserve_opaque_def opaque_bytes_def algebra_simps)
qed

lemma slack_update_opaque:
  "triple (\<lambda>s. slack n s \<and> reasonings s key = Some r) (update_opaque_state key r os) (\<lambda>_. slack n)"
proof (rule tripleI, elim conjE)
  fix s x t
  assume s: "slack n s" "reasonings s key = Some r" and ok: "update_opaque_state key r os s = Inr (x, t)"
  show "slack n t"
  proof (cases os)
    case None
    with ok s show ?thesis by (simp add: update_opaque_state_def)
  next
    case (Some st)
    let ?k = "opaque_bytes (Some st) - opaque_bytes (opaque_state r)"
    obtain u where t: "t = on_reasoning key (\<lambda>r. r\<lparr>opaque_state := Some st\<rparr>) u"
      and u: "(case opaque_state r of None \<Rightarrow> reserve_opaque st
        | Some old \<Rightarrow> sbind (slift (same_opaque_state old st)) (\<lambda>same.
            if same then sreturn ()
            else if reasoning_frozen r \<and> is_responses_item st then reserve_opaque st
            else if reasoning_frozen r then
              sbind (slift (extends_chat_state old st)) (\<lambda>extends.
                if extends then rebind_opaque old st else invalid)
            else invalid)) s = Inr ((), u)"
      using ok Some by (auto simp: update_opaque_state_def)
    have here: "reasonings u key = Some r"
      using u s tripleD [OF charges_keep(3) [where Q = "\<lambda>m. m key = Some r"], of st s _ u]
        tripleD [OF charges_keep(4) [where Q = "\<lambda>m. m key = Some r"], of _ st s _ u]
      by (auto simp: invalid_def split: option.splits if_splits)
    have "slack (n + ?k) u"
    proof (cases "opaque_state r")
      case None
      with u s show ?thesis using tripleD [OF slack_reserve_opaque, of st s _ u n] by (simp add: opaque_bytes_def)
    next
      case (Some old)
      consider "same_opaque_state old st = Inr True" "u = s"
        | "is_responses_item st" "reserve_opaque st s = Inr ((), u)"
        | "extends_chat_state old st = Inr True" "rebind_opaque old st s = Inr ((), u)"
        using u Some by (auto simp: invalid_def split: if_splits)
      then show ?thesis
      proof cases
        case 1
        then show ?thesis using s same_opaque_bytes [of old st] by (simp add: Some)
      next
        case 2
        then have "slack (n + opaque_bytes (Some st)) u"
          using tripleD [OF slack_reserve_opaque] s(1) by blast
        moreover have "0 \<le> opaque_bytes (Some old)"
          by (auto simp: opaque_bytes_def opaque_length_def map_sum_def split: sum.split)
        ultimately show ?thesis by (auto simp: Some intro: slack_less)
      next
        case 3
        then show ?thesis using slack_rebind [OF s(1)] by (simp add: Some)
      qed
    qed
    then show ?thesis
      unfolding t using here by (rule slack_on_reasoning) (simp add: reasoning_bytes_def)
  qed
qed

lemma slack_current: "triple (slack n) (current_reasoning key) (\<lambda>r s. slack n s \<and> reasonings s key = Some r)"
  by (rule tripleI) (auto simp: current_reasoning_def invalid_def split: option.splits)

lemma slack_reasoning_of: "triple (slack n) (reasoning_of key item_id ms os) (\<lambda>r s. slack n s \<and> reasonings s key = Some r)"
proof (rule tripleI)
  fix s r t
  assume s: "slack n s" and ok: "reasoning_of key item_id ms os s = Inr (r, t)"
  obtain u q v where u: "(case reasonings s key of None \<Rightarrow> create_reasoning key item_id ms os
      | Some r \<Rightarrow> sthen (demand (reasoning_item_id r = item_id)) (update_messages_state key r ms)) s = Inr ((), u)"
    and q: "reasonings u key = Some q" and v: "update_opaque_state key q os u = Inr ((), v)"
    and t: "t = v" "reasonings v key = Some r"
    using ok by (auto simp: reasoning_of_def current_reasoning_def invalid_def split: option.splits)
  have "slack n u"
    using u s tripleD [OF slack_create_reasoning, of key item_id ms os s _ u n]
      tripleD [OF slack_update_messages_state, of key _ ms s _ u n]
    by (auto simp: demand_def split: option.splits)
  then show "slack n t \<and> reasonings t key = Some r"
    using tripleD [OF slack_update_opaque v, of n] q t by simp
qed

lemma slack_start_reasoning: "keeps (slack n) (start_reasoning key item_id ms os)"
  unfolding start_reasoning_def sthen_def
  by (rule triple_bind [OF slack_reasoning_of]) (auto intro!: tripleI)

lemma slack_reasoning_part: "keeps (slack n) (reasoning_part key part_key item_id pres index)"
  unfolding reasoning_part_def
proof (rule triple_bind [OF slack_reasoning_of], rule tripleI, elim conjE)
  fix r p and s t :: ledger
  assume s: "slack n s" "reasonings s key = Some r"
    and ok: "sthen (demand (\<not> reasoning_frozen r))
      (sbind (sget (\<lambda>s. reasoning_parts s part_key)) (\<lambda>found. case found of
         Some part \<Rightarrow>
           sthen (demand (item_key part = key \<and> part_presentation part = pres \<and> part_index part = index))
             (sreturn part)
       | None \<Rightarrow>
           let part = \<lparr> item_key = key, part_presentation = pres, part_index = index,
                        reasoning_text = [], reasoning_part_frozen = False \<rparr>
           in sthen (swhen (part_key \<noteq> key) (reserve_text part_key))
              (sthen (smodify (\<lambda>s. s\<lparr>reasoning_parts := (reasoning_parts s)(part_key \<mapsto> part)\<rparr>))
              (sthen (smodify (on_reasoning key
                  (\<lambda>r. r\<lparr>reasoning_part_keys := reasoning_part_keys r @ [part_key]\<rparr>)))
              (sreturn part))))) s = Inr (p, t)"
  show "slack n t"
  proof (cases "reasoning_parts s part_key")
    case None
    define u where "u = s\<lparr>used_bytes := used_bytes s + (if part_key = key then 0 else bytes_of part_key),
      reasoning_parts := (reasoning_parts s)(part_key \<mapsto> \<lparr> item_key = key, part_presentation = pres,
        part_index = index, reasoning_text = [], reasoning_part_frozen = False \<rparr>)\<rparr>"
    have "slack n u"
      using s None by (simp add: u_def slack_def content_bytes_def map_total_new reasoning_part_bytes_def)
    moreover have "t = on_reasoning key (\<lambda>r. r\<lparr>reasoning_part_keys := reasoning_part_keys r @ [part_key]\<rparr>) u"
      using ok None by (auto simp: Let_def swhen_def u_def bytes_of_def demand_def split: if_splits)
    ultimately show ?thesis
      using s slack_on_reasoning [of n 0 u key r] by (simp add: u_def reasoning_bytes_def)
  next
    case (Some q)
    with ok s show ?thesis by (simp add: demand_def)
  qed
qed

lemma slack_on_reasoning_part:
  "(\<And>p. reasoning_parts s key = Some p \<Longrightarrow> reasoning_part_bytes key (f p) \<le> reasoning_part_bytes key p + k) \<Longrightarrow>
   0 \<le> k \<Longrightarrow> slack (n + k) s \<Longrightarrow> slack n (on_reasoning_part key f s)"
  by (cases "reasoning_parts s key") (auto simp: slack_def on_reasoning_part_def content_bytes_def map_total_at)

lemma slack_append_reasoning: "keeps (slack n) (append_reasoning key part_key item_id pres index delta)"
proof -
  have "triple (slack (n + bytes_of delta)) (sthen (demand (\<not> reasoning_part_frozen part))
     (smodify (on_reasoning_part part_key (\<lambda>p. p\<lparr>reasoning_text := reasoning_text p @ delta\<rparr>)))) (\<lambda>_. slack n)"
    for part
  proof (rule tripleI)
    fix s x t
    assume s: "slack (n + bytes_of delta) s"
      and "sthen (demand (\<not> reasoning_part_frozen part))
        (smodify (on_reasoning_part part_key (\<lambda>p. p\<lparr>reasoning_text := reasoning_text p @ delta\<rparr>))) s = Inr (x, t)"
    then have "t = on_reasoning_part part_key (\<lambda>p. p\<lparr>reasoning_text := reasoning_text p @ delta\<rparr>) s"
      by (simp add: demand_def)
    then show "slack n t"
      using s by (auto intro!: slack_on_reasoning_part [where k = "bytes_of delta"] simp: reasoning_part_bytes_def bytes_of_append)
  qed
  then show ?thesis
    unfolding append_reasoning_def sthen_def [of "reserve_text delta"]
    by (intro triple_bind [OF slack_reserve] triple_bind [OF slack_reasoning_part])
qed

lemma slack_out_parts: "keeps (slack n) (out_parts_of ks)"
proof (induction ks)
  case Nil
  show ?case unfolding out_parts_of.simps by (rule keeps_return)
next
  case (Cons k ks)
  then show ?case
    unfolding out_parts_of.simps invalid_def
    by (intro keeps_bind keeps_get) (auto split: option.split intro!: keeps_bind keeps_return keeps_fail)
qed

lemma slack_reasoning_item: "keeps (slack n) (reasoning_item key r)"
  unfolding reasoning_item_def by (intro keeps_bind slack_out_parts keeps_return)

lemma slack_freeze_reasoning: "keeps (slack n) (freeze_reasoning key status r)"
proof -
  have "slack n (seal_reasoning key status ks s)" if "slack n s" for ks s
    using that map_total_all [where f = reasoning_part_bytes and h = "\<lambda>p. p\<lparr>reasoning_part_frozen := True\<rparr>"]
    by (simp add: slack_def seal_reasoning_def fold_freeze_reasoning_part on_reasoning_def content_bytes_def
        map_total_same reasoning_part_bytes_def reasoning_bytes_def)
  then show ?thesis by (auto intro!: tripleI simp: freeze_reasoning_def seal_reasoning_def)
qed

lemma slack_current_weak: "keeps (slack n) (current_reasoning key)"
  by (rule triple_conseq [OF slack_current]) auto

lemma slack_finish_reasoning: "keeps (slack n) (finish_reasoning key status)"
  unfolding finish_reasoning_def demand_def
  by (intro keeps_bind keeps_then keeps_if keeps_require slack_current_weak slack_reasoning_item slack_freeze_reasoning)

lemma slack_finish_open_reasoning: "keeps (slack n) (finish_open_reasoning status)"
proof -
  have "keeps (slack n) (finish_open_entry status e)" for e
    unfolding finish_open_entry_def
    by (intro keeps_if keeps_return keeps_bind keeps_get)
      (auto split: option.split intro!: keeps_if keeps_return keeps_bind slack_finish_reasoning)
  then show ?thesis unfolding finish_open_reasoning_def by (intro keeps_bind keeps_get keeps_collect)
qed

section \<open>Tools and items\<close>

lemma slack_start_tool: "keeps (slack n) (start_tool key item_id call_id name)"
proof -
  have "triple (slack (n + bytes_of key + opt_bytes item_id + bytes_of call_id + bytes_of name))
      (smodify (add_tool key item_id call_id name)) (\<lambda>_. slack n)"
    by (rule tripleI) (auto simp: slack_def content_bytes_def add_tool_def tool_bytes_def)
  then show ?thesis
    unfolding start_tool_def demand_def sthen_def add_tool_def [abs_def]
    by (intro keeps_bind keeps_get keeps_require triple_bind [OF slack_reserve] triple_bind [OF slack_reserve_opt])
qed

lemma slack_on_tool:
  assumes "slack (n + k) s" and "find_tool key s = Some t" and "tool_bytes (key, f t) \<le> tool_bytes (key, t) + k"
  shows "slack n (on_tool key f s)"
  using assms by (auto simp: slack_def on_tool_def content_bytes_def find_tool_def sum_update_entry)

lemma slack_seal_tool: "slack n s \<Longrightarrow> slack n (on_tool key (\<lambda>t. t\<lparr>tool_done := True\<rparr>) s)"
proof -
  have "map tool_bytes (update_entry key (\<lambda>t. t\<lparr>tool_done := True\<rparr>) es) = map tool_bytes es" for es
    by (rule map_update_entry) (simp add: tool_bytes_def)
  then show "slack n s \<Longrightarrow> slack n (on_tool key (\<lambda>t. t\<lparr>tool_done := True\<rparr>) s)"
    by (simp add: slack_def on_tool_def content_bytes_def)
qed

lemma slack_append_arguments: "keeps (slack n) (append_tool_arguments key delta)"
proof (rule tripleI)
  fix s x t
  assume s: "slack n s" and ok: "append_tool_arguments key delta s = Inr (x, t)"
  then obtain v where v: "find_tool key s = Some v"
    and t: "t = on_tool key (\<lambda>t. t\<lparr>arguments_json := arguments_json t @ delta\<rparr>)
      (s\<lparr>used_bytes := used_bytes s + bytes_of delta\<rparr>)"
    by (auto simp: append_tool_arguments_def tool_of_def demand_def invalid_def bytes_of_def split: option.splits)
  show "slack n t"
    unfolding t
    by (rule slack_on_tool [OF slack_used [OF s], where t = v])
      (use v in \<open>simp_all add: find_tool_def tool_bytes_def bytes_of_append\<close>)
qed

lemma slack_apply_snapshot:
  "triple (\<lambda>s. slack n s \<and> find_tool key s = Some t) (apply_snapshot key t v) (\<lambda>_. slack n)"
proof (rule tripleI, elim conjE)
  fix s x u
  assume s: "slack n s" "find_tool key s = Some t" and ok: "apply_snapshot key t v s = Inr (x, u)"
  define d where "d = drop (length (arguments_json t)) v"
  have v: "v = arguments_json t @ d"
    using ok by (auto simp: apply_snapshot_def demand_def starts_with_def d_def) (metis append_take_drop_id)
  have u: "u = on_tool key (\<lambda>t. t\<lparr>arguments_json := v\<rparr>) (s\<lparr>used_bytes := used_bytes s + bytes_of d\<rparr>)"
    using ok by (auto simp: apply_snapshot_def demand_def d_def Let_def bytes_of_def)
  show "slack n u"
    unfolding u by (rule slack_on_tool [OF slack_used [OF s(1)], where t = t])
      (use s in \<open>simp_all add: find_tool_def tool_bytes_def v bytes_of_append\<close>)
qed

lemma slack_tool_of: "triple (slack n) (tool_of key) (\<lambda>t s. slack n s \<and> find_tool key s = Some t)"
  by (rule tripleI) (auto simp: tool_of_def invalid_def split: option.splits)

lemma slack_check: "keeps (slack n) (check_arguments v)"
  unfolding check_arguments_def by (intro keeps_then keeps_lift keeps_return)

lemma slack_finish_tool: "keeps (slack n) (finish_tool key snapshot completed validate_completed)"
  unfolding finish_tool_def
proof (rule triple_bind [OF slack_tool_of], rule keeps_if)
  fix t
  show "triple (\<lambda>s. slack n s \<and> find_tool key s = Some t)
      (if snapshot = None \<or> snapshot = Some (arguments_json t)
       then sthen (swhen (completed \<and> validate_completed) (check_arguments (arguments_json t))) (sreturn [])
       else invalid) (\<lambda>_. slack n)"
    unfolding invalid_def
    by (rule triple_conseq [where P' = "slack n" and Q' = "\<lambda>_. slack n"],
        intro keeps_if keeps_then keeps_when slack_check keeps_return keeps_fail) auto
  have "triple (\<lambda>s. slack n s \<and> find_tool key s = Some t)
      (case snapshot of None \<Rightarrow> sreturn [] | Some v \<Rightarrow> apply_snapshot key t v) (\<lambda>_. slack n)"
    by (auto split: option.split intro!: slack_apply_snapshot tripleI)
  then show "triple (\<lambda>s. slack n s \<and> find_tool key s = Some t)
      (sbind (case snapshot of None \<Rightarrow> sreturn [] | Some v \<Rightarrow> apply_snapshot key t v) (\<lambda>suffix.
         sthen (swhen (completed \<and> validate_completed)
                  (check_arguments (case snapshot of None \<Rightarrow> arguments_json t | Some v \<Rightarrow> v)))
         (sthen (smodify (on_tool key (\<lambda>t. t\<lparr>tool_done := True\<rparr>))) (sreturn suffix)))) (\<lambda>_. slack n)"
    by (rule triple_bind)
      (intro keeps_then keeps_when slack_check keeps_return keeps_modify slack_seal_tool)
qed

lemma slack_finish_open_tools: "keeps (slack n) (finish_open_tools validates)"
  unfolding finish_open_tools_def finish_open_tool_def
  by (intro keeps_bind keeps_get keeps_for keeps_then keeps_when slack_check keeps_modify slack_seal_tool)

lemma slack_items: "keeps (slack n) (items status)"
proof -
  have "keeps (slack n) (part_entries k)" for k
    unfolding part_entries_def invalid_def
    by (intro keeps_bind keeps_get) (auto split: option.split intro: keeps_return keeps_fail)
  then have messages: "keeps (slack n) (message_items k)" for k
    unfolding message_items_def invalid_def
    by (intro keeps_bind keeps_get) (auto split: option.split intro!: keeps_return keeps_fail keeps_bind keeps_collect)
  have reasoning: "keeps (slack n) (reasoning_items status k)" for k
    unfolding reasoning_items_def
    by (intro keeps_bind keeps_if keeps_return slack_current_weak slack_freeze_reasoning slack_reasoning_item)
  have tools: "keeps (slack n) (tool_items status k)" for k
    unfolding tool_items_def demand_def
    by (intro keeps_bind keeps_then keeps_require keeps_return triple_conseq [OF slack_tool_of]) auto
  have "keeps (slack n) (entry_items status e)" for e
    using messages reasoning tools by (auto simp: entry_items_def split: item_kind.split)
  then show ?thesis unfolding items_def by (intro keeps_bind keeps_get keeps_collect)
qed

lemma slack_start_message: "keeps (slack n) (start_message key)"
  unfolding start_message_def by (intro keeps_then slack_message_of keeps_return)

lemmas slack_ops = slack_start_message slack_append slack_observe slack_finish_content slack_finish_message
  slack_start_reasoning slack_append_reasoning slack_finish_reasoning slack_finish_open_reasoning
  slack_start_tool slack_append_arguments slack_finish_tool slack_finish_open_tools slack_items

lemma slack_step: "ledger_step s t \<Longrightarrow> slack n s \<Longrightarrow> slack n t"
  by (induction rule: ledger_step.induct) (rule tripleD, rule slack_ops, assumption, assumption)+

lemma slack_run: "ledger_step\<^sup>*\<^sup>* s t \<Longrightarrow> slack n s \<Longrightarrow> slack n t"
  by (induction rule: rtranclp_induct) (auto dest: slack_step)

lemma slack_new: "slack 0 (new_ledger budget)"
  by (simp add: slack_def new_ledger_def content_bytes_def)

end
