(* ===== verification/Ledger_Items.thy ===== *)
theory Ledger_Items
  imports Ledger_Safety Ledger_Budget
begin

text \<open>
  What the ledger of theory Item_Ledger is for: the list of items it hands over and the arguments of
  its tool calls, and the properties of the ledger and of its keys.
\<close>

section \<open>The list of items\<close>

definition tool_item :: "jsstr \<times> tool_state \<Rightarrow> response_item" where
  "tool_item e = Tool_item (fst e) (tool_item_id (snd e)) (tool_call_id (snd e)) (tool_name (snd e))
     (arguments_json (snd e))"

fun is_tool_item :: "response_item \<Rightarrow> bool" where
  "is_tool_item (Tool_item _ _ _ _ _) = True"
| "is_tool_item _ = False"

lemma mset_js_sort [simp]: "mset (js_sort cmp xs) = mset xs"
proof -
  have "mset (js_insert cmp x ys) = add_mset x (mset ys)" for x ys
    by (induction ys) auto
  then show ?thesis by (induction xs) (simp_all add: js_sort_def)
qed

lemma mset_map_cong: "mset xs = mset ys \<Longrightarrow> mset (map f xs) = mset (map f ys)"
  by (simp only: mset_map)

text \<open>A list of computations that all return from states satisfying an invariant.\<close>

lemma scollect_total:
  assumes "\<And>x s. x \<in> set xs \<Longrightarrow> I s \<Longrightarrow> \<exists>y t. f x s = Inr (y, t) \<and> I t"
  shows "I s \<Longrightarrow> \<exists>ys t. scollect f xs s = Inr (ys, t) \<and> I t"
  using assms
proof (induction xs arbitrary: s)
  case (Cons x xs)
  obtain y t where "f x s = Inr (y, t)" "I t" using Cons.prems(2) [of x s] Cons.prems(1) by auto
  moreover obtain ys u where "scollect f xs t = Inr (ys, u)" "I u"
    using Cons.IH [of t] \<open>I t\<close> Cons.prems(2) by fastforce
  ultimately show ?case by auto
qed simp

lemma out_parts_total:
  "\<forall>k \<in> set ks. reasoning_parts s k \<noteq> None \<Longrightarrow> \<exists>ps. out_parts_of ks s = Inr (ps, s)"
  by (induction ks) auto

lemma message_items_total:
  assumes "ledger_ok s" and "messages s k = Some m"
  shows "\<exists>outs. message_items k s = Inr (outs, s)"
proof -
  have "\<exists>ys t. scollect part_entries (js_sort compare_part_keys (part_keys m)) s = Inr (ys, t) \<and> s = t"
  proof (rule scollect_total)
    fix p u assume "p \<in> set (js_sort compare_part_keys (part_keys m))" "s = u"
    then obtain q where "message_parts u p = Some q"
      using filed_part [of part_keys group_key _ "messages s" "message_parts s" k m p] assms
      by (auto simp: ledger_ok_def parts_ok_def set_js_sort)
    then show "\<exists>y t. part_entries p u = Inr (y, t) \<and> s = t"
      using \<open>s = u\<close> by (auto simp: part_entries_def)
  qed simp
  then show ?thesis using assms(2) by (auto simp: message_items_def)
qed

lemma reasoning_items_total:
  assumes "ledger_ok s" and "reasonings s k = Some r"
  shows "\<exists>out t. reasoning_items status k s = Inr ([Reasoning_item out], t)"
proof -
  have parts: "reasoning_parts s p \<noteq> None" if "p \<in> set (reasoning_part_keys r)" for p
    using filed_part [of reasoning_part_keys item_key "\<lambda>r p. reasoning_part_frozen p \<longleftrightarrow> reasoning_frozen r"
        "reasonings s" "reasoning_parts s" k r p] that assms
    by (auto simp: ledger_ok_def reasoning_ok_def)
  show ?thesis
  proof (cases "reasoning_frozen r")
    case True
    obtain ps where "out_parts_of (reasoning_part_keys r) s = Inr (ps, s)"
      using out_parts_total [of "reasoning_part_keys r" s] parts by auto
    then show ?thesis
      using True assms(2) by (auto simp: reasoning_items_def current_reasoning_def reasoning_item_def)
  next
    case False
    let ?t = "seal_reasoning k status (reasoning_part_keys r) s"
    have "reasoning_parts ?t p \<noteq> None" if "p \<in> set (reasoning_part_keys r)" for p
      using parts [OF that]
      by (simp add: seal_reasoning_def fold_freeze_reasoning_part on_reasoning_def map_all_apply)
    then obtain ps where "out_parts_of (reasoning_part_keys r) ?t = Inr (ps, ?t)"
      using out_parts_total [of "reasoning_part_keys r" ?t] by auto
    then show ?thesis
      using False assms(2)
      by (auto simp: reasoning_items_def current_reasoning_def reasoning_item_def freeze_reasoning_def
          seal_reasoning_def [symmetric])
  qed
qed

lemma grows_done:
  "ledger_grows s t \<Longrightarrow> find_tool k s = Some v \<Longrightarrow> tool_done v \<Longrightarrow> \<exists>w. find_tool k t = Some w \<and> tool_done w"
  unfolding ledger_grows_def map_grows_def tool_grows_def by blast

lemma grows_order: "ledger_grows s t \<Longrightarrow> e \<in> set (item_order s) \<Longrightarrow> e \<in> set (item_order t)"
  by (auto simp: ledger_grows_def extends_def)

lemma items_total:
  assumes ok: "ledger_ok s" and status: "status \<noteq> Completed \<or> (\<forall>e \<in> set (tools s). tool_done (snd e))"
  shows "\<exists>outs t. items status s = Inr (outs, t)"
proof -
  let ?I = "\<lambda>t. ledger_ok t \<and> ledger_grows s t"
  have finished: "\<exists>w. find_tool k t = Some w \<and> tool_done w"
    if "ledger_grows s t" "find_tool k s = Some v" "status = Completed" for k t v
  proof -
    from that(2) have "(k, v) \<in> set (tools s)" by (simp add: find_tool_def map_of_SomeD)
    with status that(3) have "tool_done v" by auto
    with that show ?thesis by (meson grows_done)
  qed
  have "\<exists>ys t. scollect (entry_items status) (js_sort compare_item_keys (item_order s)) s = Inr (ys, t) \<and> ?I t"
  proof (rule scollect_total)
    show "?I s" using ok by (simp add: ledger_grows_refl)
    fix e t assume e: "e \<in> set (js_sort compare_item_keys (item_order s))" and t: "?I t"
    then have e': "e \<in> set (item_order s)" "e \<in> set (item_order t)"
      by (auto simp: set_js_sort intro: grows_order)
    obtain kind k where ek: "e = (kind, k)" by (cases e)
    have "\<exists>y u. entry_items status e t = Inr (y, u)"
    proof (cases kind)
      case Message_kind
      then show ?thesis
        using message_items_total [of t k] t e' ek by (auto simp: entry_items_def ledger_ok_def order_ok_def)
    next
      case Reasoning_kind
      then show ?thesis
        using reasoning_items_total [of t k] t e' ek by (fastforce simp: entry_items_def ledger_ok_def order_ok_def)
    next
      case Tool_kind
      then obtain v w where "find_tool k s = Some v" "find_tool k t = Some w"
        using e' ek ok t by (auto simp: ledger_ok_def order_ok_def)
      then show ?thesis
        using finished [of t k v] t Tool_kind ek
        by (auto simp: entry_items_def tool_items_def tool_of_def demand_def)
    qed
    then obtain y u where "entry_items status e t = Inr (y, u)" by blast
    moreover from this have "changes t u" by (rule withinD [OF within_entry_items])
    ultimately show "\<exists>y u. entry_items status e t = Inr (y, u) \<and> ?I u"
      using t by (meson ledger_ok_changes ledger_grows_trans run_grows)
  qed
  then show ?thesis by (auto simp: items_def)
qed

text \<open>Listing changes no tool, and the tools it lists are the ledger's.\<close>

lemma keeps_tools_freeze: "keeps (\<lambda>s. tools s = ts) (freeze_reasoning key status r)"
  by (auto intro!: tripleI simp: freeze_reasoning_def fold_freeze_reasoning_part on_reasoning_def)

lemma entry_items_tools:
  "triple (\<lambda>s. tools s = ts) (entry_items status (kind, k)) (\<lambda>outs s. tools s = ts \<and>
     (if kind = Tool_kind then \<exists>v. map_of ts k = Some v \<and> outs = [tool_item (k, v)] \<and>
        (tool_done v \<or> status \<noteq> Completed)
      else filter is_tool_item outs = []))"
proof -
  have parts: "keeps (\<lambda>s. tools s = ts) (out_parts_of ks)" for ks
  proof (induction ks)
    case Nil
    show ?case unfolding out_parts_of.simps by (rule keeps_return)
  next
    case (Cons k ks)
    then show ?case unfolding out_parts_of.simps invalid_def
      by (intro keeps_bind keeps_get) (auto split: option.split intro!: keeps_bind keeps_return keeps_fail)
  qed
  have pure: "part_entries p s = Inr (es, t) \<Longrightarrow> t = s" for p es s t
    by (auto simp: part_entries_def invalid_def split: option.splits)
  have entries: "keeps (\<lambda>s. tools s = ts) (scollect part_entries ps)" for ps
    by (rule keeps_collect) (auto intro!: tripleI dest: pure)
  show ?thesis
  proof (cases kind)
    case Message_kind
    then show ?thesis
      by (auto intro!: tripleI simp: entry_items_def message_items_def invalid_def split: option.splits
          dest: tripleD [OF entries])
  next
    case Reasoning_kind
    have "keeps (\<lambda>s. tools s = ts) (reasoning_items status k)"
      unfolding reasoning_items_def current_reasoning_def reasoning_item_def invalid_def
      by (intro keeps_bind keeps_get keeps_if keeps_return parts keeps_tools_freeze)
        (auto split: option.split intro: keeps_return keeps_fail)
    moreover have "filter is_tool_item outs = []" if "reasoning_items status k s = Inr (outs, t)" for s t outs
      using that by (auto simp: reasoning_items_def)
    ultimately show ?thesis
      using Reasoning_kind by (auto intro!: tripleI simp: entry_items_def dest: tripleD)
  next
    case Tool_kind
    then show ?thesis
      by (auto intro!: tripleI simp: entry_items_def tool_items_def tool_of_def demand_def invalid_def
          tool_item_def find_tool_def split: option.splits)
  qed
qed

lemma collected_tools:
  "scollect (entry_items status) es s = Inr (outs, t) \<Longrightarrow> tools s = ts \<Longrightarrow>
   filter is_tool_item outs = map (\<lambda>k. tool_item (k, the (map_of ts k))) (map snd (filter (\<lambda>e. fst e = Tool_kind) es)) \<and>
   (\<forall>e \<in> set es. fst e = Tool_kind \<longrightarrow> (\<exists>v. map_of ts (snd e) = Some v \<and> (tool_done v \<or> status \<noteq> Completed)))"
proof (induction es arbitrary: s outs)
  case (Cons e es)
  obtain kind k where e: "e = (kind, k)" by (cases e)
  obtain ys u zs where ys: "entry_items status e s = Inr (ys, u)" and zs: "scollect (entry_items status) es u = Inr (zs, t)"
    and outs: "outs = ys @ zs"
    using Cons.prems(1) by auto
  have "tools u = ts \<and> (if kind = Tool_kind then \<exists>v. map_of ts k = Some v \<and> ys = [tool_item (k, v)] \<and>
        (tool_done v \<or> status \<noteq> Completed) else filter is_tool_item ys = [])"
    by (rule tripleD [OF entry_items_tools]) (use ys e Cons.prems(2) in auto)
  then show ?case
    using Cons.IH [OF zs] outs e by (auto simp: tool_item_def split: if_splits)
qed simp

lemma items_tools:
  assumes ok: "ledger_ok s" and out: "items status s = Inr (outs, t)"
  shows "mset (filter is_tool_item outs) = mset (map tool_item (tools s)) \<and>
     (status \<noteq> Completed \<or> (\<forall>e \<in> set (tools s). tool_done (snd e)))"
proof -
  let ?es = "js_sort compare_item_keys (item_order s)"
  let ?keys = "map snd (filter (\<lambda>e. fst e = Tool_kind) ?es)"
  have order: "distinct (item_order s)" "\<And>k. (Tool_kind, k) \<in> set (item_order s) \<longleftrightarrow> find_tool k s \<noteq> None"
    and dist: "distinct (map fst (tools s))"
    using ok by (auto simp: ledger_ok_def order_ok_def tools_ok_def)
  have "distinct ?es" using order(1) mset_js_sort [of compare_item_keys "item_order s"] by (metis mset_eq_imp_distinct_iff)
  then have "distinct ?keys" by (simp add: distinct_map inj_on_def prod_eq_iff)
  moreover have "set ?keys = set (map fst (tools s))"
    using order(2) by (force simp: set_js_sort find_tool_def map_of_eq_None_iff image_iff)
  ultimately have "mset ?keys = mset (map fst (tools s))"
    using dist set_eq_iff_mset_eq_distinct by blast
  then have "mset (map (\<lambda>k. tool_item (k, the (map_of (tools s) k))) ?keys) =
      mset (map (\<lambda>k. tool_item (k, the (map_of (tools s) k))) (map fst (tools s)))"
    by (rule mset_map_cong)
  also have "map (\<lambda>k. tool_item (k, the (map_of (tools s) k))) (map fst (tools s)) = map tool_item (tools s)"
    using dist by (auto simp: map_of_is_SomeI)
  finally have "mset (filter is_tool_item outs) = mset (map tool_item (tools s))"
    using collected_tools [of status ?es s outs t "tools s"] out by (simp add: items_def)
  moreover have "tool_done (snd e)" if "e \<in> set (tools s)" "status = Completed" for e
  proof -
    have "find_tool (fst e) s = Some (snd e)" using that(1) dist by (simp add: find_tool_def map_of_is_SomeI)
    moreover from this have "(Tool_kind, fst e) \<in> set ?es" using order(2) by (simp add: set_js_sort)
    ultimately show ?thesis
      using collected_tools [of status ?es s outs t "tools s"] out that(2) by (fastforce simp: items_def find_tool_def)
  qed
  ultimately show ?thesis by blast
qed

text \<open>Every entry yields at most one item, under the entry's key.\<close>

definition item_key_of :: "response_item \<Rightarrow> jsstr" where
  "item_key_of item = (case item of
     Message_item k _ _ \<Rightarrow> k | Reasoning_item out \<Rightarrow> out_item_key out | Tool_item k _ _ _ _ \<Rightarrow> k)"

lemma entry_items_key:
  "entry_items status e s = Inr (outs, t) \<Longrightarrow> outs = [] \<or> (\<exists>item. outs = [item] \<and> item_key_of item = snd e)"
  by (auto simp: entry_items_def message_items_def reasoning_items_def tool_items_def reasoning_item_def
      demand_def invalid_def item_key_of_def split: item_kind.splits option.splits if_splits)

lemma collected_keys:
  "scollect (entry_items status) es s = Inr (outs, t) \<Longrightarrow>
   set (map item_key_of outs) \<subseteq> set (map snd es) \<and>
   (sorted_wrt P (map snd es) \<longrightarrow> sorted_wrt P (map item_key_of outs))"
proof (induction es arbitrary: s outs)
  case (Cons e es)
  obtain ys u zs where ys: "entry_items status e s = Inr (ys, u)"
    and zs: "scollect (entry_items status) es u = Inr (zs, t)" and outs: "outs = ys @ zs"
    using Cons.prems by auto
  have keys: "set (map item_key_of zs) \<subseteq> set (map snd es)"
    "sorted_wrt P (map snd es) \<longrightarrow> sorted_wrt P (map item_key_of zs)"
    using Cons.IH [OF zs] by blast+
  from entry_items_key [OF ys] show ?case
  proof (elim disjE exE conjE)
    assume "ys = []"
    with keys show ?thesis by (auto simp: outs)
  next
    fix item assume "ys = [item]" "item_key_of item = snd e"
    moreover from keys(1) have "\<forall>z \<in> set zs. item_key_of z \<in> snd ` set es" by auto
    ultimately show ?thesis using keys by (force simp: outs)
  qed
qed simp

lemma js_sort_sorted:
  assumes "\<forall>x \<in> set xs. \<forall>y \<in> set xs. cmp x y \<le> 0 \<longleftrightarrow> f x \<le> (f y :: 'b :: linorder)"
  shows "sorted (map f (js_sort cmp xs))"
proof -
  have insert: "sorted (map f (js_insert cmp x ys))"
    if "sorted (map f ys)" "\<forall>y \<in> set ys. cmp x y \<le> 0 \<longleftrightarrow> f x \<le> f y" for x ys
    using that by (induction ys) (auto simp: set_js_insert)
  show ?thesis
    using assms
  proof (induction xs)
    case (Cons x xs)
    then have "sorted (map f (js_sort cmp xs))" by simp
    moreover have "\<forall>y \<in> set (js_sort cmp xs). cmp x y \<le> 0 \<longleftrightarrow> f x \<le> f y"
      using Cons.prems by (simp add: set_js_sort)
    ultimately show ?case using insert by (simp add: js_sort_def)
  qed (simp add: js_sort_def)
qed

lemma items_sorted:
  assumes keys: "\<forall>e \<in> set (item_order s). response_output_index (snd e) \<noteq> None"
    and out: "items status s = Inr (outs, t)"
  shows "sorted (map (\<lambda>item. the (response_output_index (item_key_of item))) outs)"
proof -
  let ?f = "\<lambda>k. the (response_output_index k)" and ?es = "js_sort compare_item_keys (item_order s)"
  have "sorted (map (\<lambda>e. ?f (snd e)) ?es)"
  proof (rule js_sort_sorted, intro ballI)
    fix x y assume "x \<in> set (item_order s)" "y \<in> set (item_order s)"
    with keys obtain i j where "response_output_index (snd x) = Some i" "response_output_index (snd y) = Some j"
      by blast
    then show "compare_item_keys x y \<le> 0 \<longleftrightarrow> ?f (snd x) \<le> ?f (snd y)" by (simp add: compare_item_keys_def)
  qed
  then have "sorted_wrt (\<lambda>k l. ?f k \<le> ?f l) (map snd ?es)"
    by (simp add: sorted_map sorted_wrt_map)
  then have "sorted_wrt (\<lambda>k l. ?f k \<le> ?f l) (map item_key_of outs)"
    using collected_keys [of status ?es s outs t] out by (auto simp: items_def)
  then show ?thesis by (simp add: sorted_map sorted_wrt_map)
qed

section \<open>Assembling the arguments of a call\<close>

fun append_all :: "jsstr \<Rightarrow> jsstr list \<Rightarrow> unit ledger_op" where
  "append_all key [] = sreturn ()"
| "append_all key (d # ds) = sthen (append_tool_arguments key d) (append_all key ds)"

lemma append_all_result:
  "append_all key ds s = Inr (x, t) \<Longrightarrow> find_tool key s = Some v \<Longrightarrow>
   \<exists>w. find_tool key t = Some w \<and> arguments_json w = arguments_json v @ concat ds \<and>
     tool_done w = tool_done v \<and> tool_call_id w = tool_call_id v \<and> tool_name w = tool_name v"
proof (induction ds arbitrary: s v)
  case (Cons d ds)
  obtain u where u: "append_tool_arguments key d s = Inr ((), u)" and rest: "append_all key ds u = Inr (x, t)"
    using Cons.prems(1) by auto
  have "find_tool key u = Some (v\<lparr>arguments_json := arguments_json v @ d\<rparr>)"
    using u Cons.prems(2)
    by (auto simp: append_tool_arguments_def tool_of_def demand_def find_on_tool) (simp add: find_tool_def)
  from Cons.IH [OF rest this] show ?case by auto
qed (auto simp: sreturn_def)

lemma finish_tool_result:
  assumes "finish_tool key snapshot completed validate s = Inr (suffix, t)" and "find_tool key s = Some v"
    and "\<not> tool_done v"
  shows "\<exists>w. find_tool key t = Some w \<and> tool_done w \<and> arguments_json w = arguments_json v @ suffix \<and>
    tool_call_id w = tool_call_id v \<and> tool_name w = tool_name v \<and>
    (\<forall>f. snapshot = Some f \<longrightarrow> arguments_json w = f) \<and>
    (completed \<and> validate \<longrightarrow> (\<exists>ms. validate_arguments (arguments_json w) = Inr ms))"
proof (cases snapshot)
  case None
  with assms show ?thesis
    by (auto simp: finish_tool_def tool_of_def find_on_tool swhen_def check_arguments_def split: if_splits)
next
  case (Some f)
  obtain u where u: "apply_snapshot key v f s = Inr (suffix, u)"
    and t: "t = on_tool key (\<lambda>t. t\<lparr>tool_done := True\<rparr>) u"
    and valid: "completed \<and> validate \<longrightarrow> (\<exists>ms. validate_arguments f = Inr ms)"
    using assms Some
    by (auto simp: finish_tool_def tool_of_def swhen_def check_arguments_def split: if_splits)
  have f: "starts_with f (arguments_json v)" "suffix = drop (length (arguments_json v)) f"
    and "u = on_tool key (\<lambda>t. t\<lparr>arguments_json := f\<rparr>) (s\<lparr>used_bytes := used_bytes s + int (utf8_length suffix)\<rparr>)"
    using u by (auto simp: apply_snapshot_def demand_def Let_def)
  then have "find_tool key u = Some (v\<lparr>arguments_json := f\<rparr>)"
    using assms(2) by (simp add: find_on_tool) (simp add: find_tool_def)
  moreover have "f = arguments_json v @ suffix"
    using f by (metis append_take_drop_id starts_with_def)
  ultimately show ?thesis using valid Some by (auto simp: t find_on_tool)
qed

section \<open>Properties\<close>

text \<open>C9: whatever methods are called, in whatever order, a ledger stays well formed: every filed item is
  listed once, every part belongs to the item that lists it, no two tool calls share a key or a call
  id, no call lacks an id or a name, a finished message or reasoning item has only finished parts.\<close>

theorem ledger_well_formed:
  assumes "0 \<le> budget" and "ledger_step\<^sup>*\<^sup>* (new_ledger budget) s"
  shows "ledger_ok s"
  using ledger_ok_run assms by blast

lemma sample_start: "start_tool (js ''t'') None (js ''c'') (js ''n'') (new_ledger 3) = Inr ((),
    (new_ledger 3)\<lparr>used_bytes := 3, call_ids := {js ''c''}, tools := [(js ''t'', \<lparr> tool_item_id = None,
      tool_call_id = js ''c'', tool_name = js ''n'', arguments_json = [], tool_done = False \<rparr>)],
      item_order := [(Tool_kind, js ''t'')]\<rparr>)"
  by (simp add: start_tool_def errst_defs reserve_text_def reserve_bytes_def reserve_opt_def demand_def
      new_ledger_def find_tool_def js_def utf8_length_def utf8_width_def)

lemma sample_run: "ledger_step\<^sup>*\<^sup>* (new_ledger 3) (snd (projr (start_tool (js ''t'') None (js ''c'') (js ''n'') (new_ledger 3))))"
  unfolding sample_start by (rule r_into_rtranclp, rule ledger_step.intros(12), subst sample_start) simp

lemma ledger_well_formed_witness:
  "ledger_ok (snd (projr (start_tool (js ''t'') None (js ''c'') (js ''n'') (new_ledger 3))))"
  by (rule ledger_well_formed [OF _ sample_run]) simp





text \<open>C15: listing the items of a ledger never fails for want of a part; it refuses only a completed response
  in which a tool call is still open. The listing has every tool call once, with its id, name and the
  arguments assembled so far.\<close>

theorem items_listing:
  assumes "0 \<le> budget" and "ledger_step\<^sup>*\<^sup>* (new_ledger budget) s"
  shows "((\<exists>outs t. items status s = Inr (outs, t)) \<longleftrightarrow>
      (status \<noteq> Completed \<or> (\<forall>e \<in> set (tools s). tool_done (snd e)))) \<and>
    (\<forall>outs t. items status s = Inr (outs, t) \<longrightarrow>
      mset (filter is_tool_item outs) = mset (map tool_item (tools s)))"
  using ledger_ok_run [OF assms(2,1)] items_total [of s status] items_tools [of s status] by blast

lemma items_listing_witness:
  "\<not> (\<exists>outs t. items Completed (snd (projr (start_tool (js ''t'') None (js ''c'') (js ''n'') (new_ledger 3)))) = Inr (outs, t))"
  using items_listing [OF _ sample_run, of Completed] by (simp add: sample_start)

text \<open>C14: the argument deltas of a tool call and the suffix its end returns are exactly its final arguments, so
  a client that was sent both has them all; a final snapshot is what is kept, and when a completed call is
  validated they are a JSON object.\<close>

theorem tool_arguments_assembled:
  assumes "start_tool key item_id call_id name s0 = Inr (a, s1)"
    and "append_all key deltas s1 = Inr (b, s2)"
    and "finish_tool key snapshot completed validate s2 = Inr (suffix, s3)"
  shows "\<exists>t. find_tool key s3 = Some t \<and> tool_done t \<and> tool_call_id t = call_id \<and> tool_name t = name \<and>
    arguments_json t = concat deltas @ suffix \<and>
    (\<forall>f. snapshot = Some f \<longrightarrow> concat deltas @ suffix = f) \<and>
    (completed \<and> validate \<longrightarrow> (\<exists>ms. validate_arguments (concat deltas @ suffix) = Inr ms))"
proof -
  have "find_tool key s1 = Some \<lparr> tool_item_id = item_id, tool_call_id = call_id, tool_name = name,
      arguments_json = [], tool_done = False \<rparr>"
    using assms(1)
    by (auto simp: start_tool_def demand_def reserve_opt_def find_tool_def map_add_def split: option.splits)
  from append_all_result [OF assms(2) this] obtain v where v: "find_tool key s2 = Some v"
    "arguments_json v = concat deltas" "\<not> tool_done v" "tool_call_id v = call_id" "tool_name v = name"
    by auto
  from finish_tool_result [OF assms(3) v(1,3)] v show ?thesis by auto
qed

lemma empty_object_valid: "validate_arguments (js ''{}'') = Inr []"
proof -
  have "encode_text (js ''{}'') = json_text (WObject [])"
    by (simp add: encode_text_def js_def utf8_bytes_def high_surrogate_def)
  then show ?thesis by (simp add: validate_arguments_def parse_json_text Let_def del: json_text.simps)
qed

lemma ledger_run:
  "reserve_bytes n s = (if used_bytes s + n \<le> byte_budget s
     then Inr ((), s\<lparr>used_bytes := used_bytes s + n\<rparr>) else Inl Invalid_upstream_response)"
  "reserve_text v s = (if used_bytes s + int (utf8_length v) \<le> byte_budget s
     then Inr ((), s\<lparr>used_bytes := used_bytes s + int (utf8_length v)\<rparr>) else Inl Invalid_upstream_response)"
  "reserve_opt None s = Inr ((), s)"
  "demand b s = (if b then Inr ((), s) else Inl Invalid_upstream_response)"
  "tool_of key s = (case find_tool key s of None \<Rightarrow> Inl Invalid_upstream_response | Some t \<Rightarrow> Inr (t, s))"
  "current_reasoning key s = (case reasonings s key of None \<Rightarrow> Inl Invalid_upstream_response | Some r \<Rightarrow> Inr (r, s))"
  by (simp_all add: reserve_text_def reserve_bytes_def demand_def errst_run reserve_opt_def tool_of_def
      current_reasoning_def invalid_def split: option.split)

lemma tool_arguments_assembled_witness:
  "\<exists>s3 t. finish_tool (js ''t'') (Some (js ''{}'')) True True
      (snd (projr (append_all (js ''t'') [js ''{''] (snd (projr (start_tool (js ''t'') None (js ''c'') (js ''n'') (new_ledger 5)))))))
      = Inr (js ''}'', s3) \<and> find_tool (js ''t'') s3 = Some t \<and> arguments_json t = js ''{}''"
proof -
  define s1 where "s1 = (new_ledger 5)\<lparr>used_bytes := 3, call_ids := {js ''c''}, tools := [(js ''t'', \<lparr> tool_item_id = None,
      tool_call_id = js ''c'', tool_name = js ''n'', arguments_json = [], tool_done = False \<rparr>)],
      item_order := [(Tool_kind, js ''t'')]\<rparr>"
  define s2 where "s2 = on_tool (js ''t'') (\<lambda>t. t\<lparr>arguments_json := arguments_json t @ js ''{''\<rparr>) (s1\<lparr>used_bytes := 4\<rparr>)"
  define s3 where "s3 = on_tool (js ''t'') (\<lambda>t. t\<lparr>tool_done := True\<rparr>)
     (on_tool (js ''t'') (\<lambda>t. t\<lparr>arguments_json := js ''{}''\<rparr>) (s2\<lparr>used_bytes := 5\<rparr>))"
  note sizes = js_def utf8_length_def utf8_width_def
  have 1: "start_tool (js ''t'') None (js ''c'') (js ''n'') (new_ledger 5) = Inr ((), s1)"
    by (simp add: s1_def start_tool_def ledger_run errst_run new_ledger_def find_tool_def sizes)
  have 2: "append_all (js ''t'') [js ''{''] s1 = Inr ((), s2)"
    by (simp add: s1_def s2_def append_tool_arguments_def ledger_run errst_run new_ledger_def find_tool_def sizes)
  have 3: "finish_tool (js ''t'') (Some (js ''{}'')) True True s2 = Inr (js ''}'', s3)"
    using empty_object_valid
    by (simp add: s1_def s2_def s3_def finish_tool_def apply_snapshot_def ledger_run errst_run new_ledger_def
      find_tool_def on_tool_def starts_with_def check_arguments_def Let_def sizes)
  have "concat [js ''{''] @ js ''}'' = js ''{}''" by (simp add: js_def)
  then obtain t where "find_tool (js ''t'') s3 = Some t" "arguments_json t = js ''{}''"
    using tool_arguments_assembled [OF 1 2 3] by metis
  moreover have "snd (projr (append_all (js ''t'') [js ''{'']
      (snd (projr (start_tool (js ''t'') None (js ''c'') (js ''n'') (new_ledger 5)))))) = s2"
    by (simp add: 1 2 del: append_all.simps)
  ultimately show ?thesis using 3 by (simp only:) blast
qed


text \<open>C24: the items of a Responses stream leave in the order of their output indexes, whatever order the
  upstream announced them in.\<close>

theorem items_in_output_order:
  assumes "\<forall>e \<in> set (item_order s). response_output_index (snd e) \<noteq> None"
    and "items status s = Inr (outs, t)"
  shows "sorted (map (\<lambda>item. the (response_output_index (item_key_of item))) outs)"
  using items_sorted assms by blast

lemma items_in_output_order_witness:
  "\<exists>outs t. items Incomplete ((new_ledger 9)\<lparr>
      messages := [response_message_key 2 \<mapsto> new_message\<lparr>message_frozen := True\<rparr>,
                   response_message_key 0 \<mapsto> new_message\<lparr>message_frozen := True\<rparr>],
      item_order := [(Message_kind, response_message_key 2), (Message_kind, response_message_key 0)]\<rparr>) =
        Inr (outs, t) \<and> length outs = 2 \<and>
      sorted (map (\<lambda>item. the (response_output_index (item_key_of item))) outs)"
proof -
  let ?s = "(new_ledger 9)\<lparr>
      messages := [response_message_key 2 \<mapsto> new_message\<lparr>message_frozen := True\<rparr>,
                   response_message_key 0 \<mapsto> new_message\<lparr>message_frozen := True\<rparr>],
      item_order := [(Message_kind, response_message_key 2), (Message_kind, response_message_key 0)]\<rparr>"
  have ne: "response_message_key 2 \<noteq> response_message_key 0"
    by (metis output_index_of_keys(2) option.inject zero_neq_numeral)
  have run: "items Incomplete ?s = Inr ([Message_item (response_message_key 0) [] [],
      Message_item (response_message_key 2) [] []], ?s)"
    by (simp add: items_def js_sort_def compare_item_keys_def entry_items_def message_items_def errst_run
        new_message_def new_ledger_def ne)
  have "sorted (map (\<lambda>item. the (response_output_index (item_key_of item)))
      [Message_item (response_message_key 0) [] [], Message_item (response_message_key 2) [] []])"
    by (rule items_in_output_order [OF _ run]) (simp add: new_ledger_def)
  then show ?thesis using run by auto
qed

text \<open>C25: the textual keys of a Responses stream name what they were made from: the two expressions read the
  indexes and the kind back from every key the builders print, so items and parts with different indexes
  never collide.\<close>

theorem stream_keys_roundtrip:
  "response_output_index (response_tool_key n) = Some n \<and>
   response_output_index (response_message_key n) = Some n \<and>
   response_output_index (response_reasoning_key n) = Some n \<and>
   response_message_part_position (response_message_part_key n c kind) = Some (n, c, kind) \<and>
   response_reasoning_part_key (response_reasoning_key n) pres i =
     Some (response_reasoning_key n @ js '':'' @ presentation_name pres @ js '':'' @ number_text i) \<and>
   (response_message_part_key n c kind = response_message_part_key n' c' kind' \<longleftrightarrow>
      n = n' \<and> c = c' \<and> kind = kind')"
proof -
  have "response_message_part_key n c kind = response_message_part_key n' c' kind' \<Longrightarrow>
      n = n' \<and> c = c' \<and> kind = kind'"
    by (metis position_of_part_key option.inject prod.inject)
  then show ?thesis by (auto simp: response_reasoning_part_key_def)
qed

end
