(* ===== verification/Messages_Emitter.thy ===== *)
theory Messages_Emitter
  imports Item_Ledger Conversion_Basics
begin

text \<open>
  The model of the classes \<open>MessagesEmitter\<close> and \<open>ResponseEmissionFrontier\<close> of
  \<open>src/src/protocols/conversion/stream.ts\<close>: the half of a stream conversion that writes the
  events of an Anthropic Messages stream. A \<open>yield\<close> appends to the log \<open>out\<close> of the emitter. Events
  are values here; \<open>encodeAnthropicMessagesSseEvent\<close> prints them. The reasoning carrier store is a
  parameter: \<open>carrier_create c n item\<close> is the answer of its n-th \<open>create\<close>. Items come from the
  ledger, so their \<open>key\<close> is always set and the branches for a missing one are left out.
\<close>

section \<open>Events\<close>

datatype out_block =
    Text_block
  | Tool_use_block jsstr jsstr
  | Thinking_block jsstr jsstr
  | Redacted_block jsstr

datatype out_delta =
    Text_delta jsstr
  | Json_delta jsstr
  | Thinking_delta jsstr
  | Signature_delta jsstr

record messages_usage =
  usage_input :: int
  usage_output :: int
  usage_cache_read :: "int option"
  usage_cache_creation :: "int option"
  usage_thinking :: "int option"

datatype messages_event =
    Message_start jsstr jsstr
  | Block_start nat out_block
  | Block_delta nat out_delta
  | Block_stop nat
  | Message_delta jsstr messages_usage
  | Message_stop

datatype finish_reason = Stop | Tool_calls | Length_limit | Content_filter | Refusal

datatype converted_emission =
    Wire messages_event
  | Usage_report semantic_usage
  | First_semantic
  | Terminal_report item_status
  | Degradation_report degradation

definition messages_usage_of :: "semantic_usage \<Rightarrow> messages_usage" where
  "messages_usage_of u =
     \<lparr> usage_input = max 0 (input_tokens u - cache_read_tokens u - cache_write_tokens u),
       usage_output = output_tokens u,
       usage_cache_read = (if cache_read_tokens u = 0 then None else Some (cache_read_tokens u)),
       usage_cache_creation = (if cache_write_tokens u = 0 then None else Some (cache_write_tokens u)),
       usage_thinking = (if reasoning_tokens u = 0 then None else Some (reasoning_tokens u)) \<rparr>"

definition messages_finish :: "finish_reason \<Rightarrow> jsstr" where
  "messages_finish v = (case v of
       Tool_calls \<Rightarrow> js ''tool_use''
     | Length_limit \<Rightarrow> js ''max_tokens''
     | Refusal \<Rightarrow> js ''refusal''
     | Content_filter \<Rightarrow> js ''refusal''
     | Stop \<Rightarrow> js ''end_turn'')"

section \<open>The emission frontier\<close>

text \<open>
  How far a Responses stream has been written: the item at the frontier, and in every message the
  content part. The sets of finished items and parts beyond it are lists without repetition.
\<close>

record frontier =
  front_item :: nat
  completed_items :: "nat list"
  content_front :: "jsstr \<rightharpoonup> nat"
  completed_content :: "(jsstr \<times> nat) list"

definition new_frontier :: frontier where
  "new_frontier = \<lparr> front_item = 0, completed_items = [], content_front = Map.empty, completed_content = [] \<rparr>"

definition content_at :: "jsstr \<Rightarrow> frontier \<Rightarrow> nat" where
  "content_at order_key f = or_default (content_front f order_key) 0"

definition allows_content :: "jsstr \<Rightarrow> jsstr option \<Rightarrow> frontier \<Rightarrow> bool" where
  "allows_content key order_key f = (case order_key of
       None \<Rightarrow> False
     | Some ok \<Rightarrow> (case (response_output_index ok, response_message_part_position key) of
         (Some item_index, Some (output_index, content_index, _)) \<Rightarrow>
           ok = response_message_key item_index \<and> item_index = front_item f \<and>
           output_index = item_index \<and> content_index = content_at ok f
       | _ \<Rightarrow> False))"

definition allows_item :: "jsstr \<Rightarrow> frontier \<Rightarrow> bool" where
  "allows_item key f \<longleftrightarrow> response_output_index key = Some (front_item f)"

definition mark_content_done :: "jsstr \<Rightarrow> nat \<Rightarrow> frontier \<Rightarrow> frontier" where
  "mark_content_done order_key content_index f =
     f\<lparr>completed_content := List.insert (order_key, content_index) (completed_content f)\<rparr>"

definition content_done_at_frontier :: "jsstr \<Rightarrow> frontier \<Rightarrow> bool" where
  "content_done_at_frontier order_key f \<longleftrightarrow> (order_key, content_at order_key f) \<in> set (completed_content f)"

definition advance_content :: "jsstr \<Rightarrow> frontier \<Rightarrow> frontier" where
  "advance_content order_key f =
     f\<lparr>completed_content := removeAll (order_key, content_at order_key f) (completed_content f),
       content_front := (content_front f)(order_key \<mapsto> content_at order_key f + 1)\<rparr>"

definition mark_item_done :: "nat \<Rightarrow> frontier \<Rightarrow> frontier" where
  "mark_item_done output_index f = f\<lparr>completed_items := List.insert output_index (completed_items f)\<rparr>"

definition item_done_at_frontier :: "frontier \<Rightarrow> bool" where
  "item_done_at_frontier f \<longleftrightarrow> front_item f \<in> set (completed_items f)"

definition advance_item :: "frontier \<Rightarrow> frontier" where
  "advance_item f = f\<lparr>completed_items := removeAll (front_item f) (completed_items f), front_item := front_item f + 1\<rparr>"

definition current_item_order_key :: "frontier \<Rightarrow> jsstr" where
  "current_item_order_key f = response_message_key (front_item f)"

definition current_content_index :: "frontier \<Rightarrow> nat" where
  "current_content_index f = content_at (current_item_order_key f) f"

section \<open>The emitter\<close>

datatype emitter_error = Upstream_invalid | Carrier_failed

record carrier_context =
  carrier_wire_protocol :: protocol
  carrier_create :: "nat \<Rightarrow> reasoning_out \<Rightarrow> emitter_error + jsstr"

record emitter_context =
  upstream_protocol :: protocol
  model_name :: jsstr
  accumulator_bytes :: int
  carrier :: "carrier_context option"

record emitter_tool =
  call_id_of :: jsstr
  name_of :: jsstr
  streamed_arguments :: jsstr
  emitter_done :: bool
  stream_index :: "nat option"
  emitter_closed :: bool
  item_ended :: bool

record pending_part =
  pending_order :: jsstr
  pending_kind :: content_kind
  pending_delta :: jsstr

record messages_emitter =
  message_id :: jsstr
  next_index :: nat
  active_text :: "(jsstr \<times> nat) option"
  buffered_bytes :: int
  buffer_after_tool :: bool
  first_message_key :: "jsstr option"
  response_frontier :: frontier
  emitted_response_tools :: "jsstr set"
  pending_content :: "jsstr \<rightharpoonup> pending_part"
  streamed_content :: "jsstr \<rightharpoonup> jsstr \<times> jsstr"
  pending_reasoning :: "jsstr \<rightharpoonup> reasoning_out"
  emitted_reasoning :: "jsstr set"
  carrier_tokens :: "jsstr \<rightharpoonup> jsstr"
  emitter_tools :: "(jsstr \<times> emitter_tool) list"
  carriers_created :: nat
  out :: "converted_emission list"

definition new_emitter :: "jsstr \<Rightarrow> messages_emitter" where
  "new_emitter uuid =
     \<lparr> message_id = js ''msg_'' @ uuid, next_index = 0, active_text = None, buffered_bytes = 0,
       buffer_after_tool = False, first_message_key = None, response_frontier = new_frontier,
       emitted_response_tools = {}, pending_content = Map.empty, streamed_content = Map.empty,
       pending_reasoning = Map.empty, emitted_reasoning = {}, carrier_tokens = Map.empty,
       emitter_tools = [], carriers_created = 0, out = [] \<rparr>"

type_synonym 'a emit_op = "(emitter_error, messages_emitter, 'a) errst"

definition refuse :: "'a emit_op" where
  "refuse = sfail Upstream_invalid"

definition yields :: "messages_event \<Rightarrow> unit emit_op" where
  "yields e = smodify (\<lambda>s. s\<lparr>out := out s @ [Wire e]\<rparr>)"

definition take_index :: "nat emit_op" where
  "take_index = sbind (sget next_index) (\<lambda>i. sthen (smodify (\<lambda>s. s\<lparr>next_index := i + 1\<rparr>)) (sreturn i))"

definition find_emitter_tool :: "jsstr \<Rightarrow> messages_emitter \<Rightarrow> emitter_tool option" where
  "find_emitter_tool key s = map_of (emitter_tools s) key"

definition on_emitter_tool :: "jsstr \<Rightarrow> (emitter_tool \<Rightarrow> emitter_tool) \<Rightarrow> unit emit_op" where
  "on_emitter_tool key f = smodify (\<lambda>s. s\<lparr>emitter_tools := update_entry key f (emitter_tools s)\<rparr>)"

definition on_frontier :: "(frontier \<Rightarrow> frontier) \<Rightarrow> unit emit_op" where
  "on_frontier f = smodify (\<lambda>s. s\<lparr>response_frontier := f (response_frontier s)\<rparr>)"

section \<open>Blocks\<close>

definition emitter_start :: "emitter_context \<Rightarrow> unit emit_op" where
  "emitter_start ctx = sbind (sget message_id) (\<lambda>i. yields (Message_start i (model_name ctx)))"

definition close_active_text :: "unit emit_op" where
  "close_active_text = sbind (sget active_text) (\<lambda>a. case a of
       None \<Rightarrow> sreturn ()
     | Some (_, index) \<Rightarrow>
         sthen (yields (Block_stop index)) (smodify (\<lambda>s. s\<lparr>active_text := None\<rparr>)))"

definition open_text :: "jsstr \<Rightarrow> nat emit_op" where
  "open_text key = sthen close_active_text (sbind take_index (\<lambda>index.
     sthen (smodify (\<lambda>s. s\<lparr>active_text := Some (key, index)\<rparr>))
     (sthen (yields (Block_start index Text_block)) (sreturn index))))"

definition emit_live_text :: "jsstr \<Rightarrow> jsstr \<Rightarrow> unit emit_op" where
  "emit_live_text key delta =
     sbind (sget active_text) (\<lambda>a.
     sbind (case a of
         Some (k, index) \<Rightarrow> if k = key then sreturn index else open_text key
       | None \<Rightarrow> open_text key) (\<lambda>index.
     yields (Block_delta index (Text_delta delta))))"

definition record_streamed :: "jsstr \<Rightarrow> content_kind \<Rightarrow> jsstr \<Rightarrow> unit emit_op" where
  "record_streamed key kind delta = smodify (\<lambda>s.
     let current = or_default (streamed_content s key) ([], [])
     in s\<lparr>streamed_content := (streamed_content s)(key \<mapsto> (case kind of
            Text_kind \<Rightarrow> (fst current @ delta, snd current)
          | Refusal_kind \<Rightarrow> (fst current, snd current @ delta)))\<rparr>)"

definition queue_content :: "jsstr \<Rightarrow> jsstr option \<Rightarrow> content_kind \<Rightarrow> jsstr \<Rightarrow> unit emit_op" where
  "queue_content key order_key kind delta = (case order_key of
       None \<Rightarrow> refuse
     | Some ok \<Rightarrow> sbind (sget (\<lambda>s. pending_content s key)) (\<lambda>found. case found of
         Some p \<Rightarrow>
           if pending_order p \<noteq> ok \<or> pending_kind p \<noteq> kind then refuse
           else smodify (\<lambda>s. s\<lparr>pending_content := (pending_content s)
                  (key \<mapsto> p\<lparr>pending_delta := pending_delta p @ delta\<rparr>)\<rparr>)
       | None \<Rightarrow> smodify (\<lambda>s. s\<lparr>pending_content := (pending_content s)
                  (key \<mapsto> \<lparr> pending_order = ok, pending_kind = kind, pending_delta = delta \<rparr>)\<rparr>)))"

definition live_key :: "content_kind \<Rightarrow> jsstr \<Rightarrow> jsstr" where
  "live_key kind key = (case kind of Text_kind \<Rightarrow> key | Refusal_kind \<Rightarrow> js ''refusal:'' @ key)"

definition tool_block :: "jsstr \<Rightarrow> emitter_tool \<Rightarrow> bool \<Rightarrow> unit emit_op" where
  "tool_block key tool ends =
     sbind take_index (\<lambda>index.
     sthen (on_emitter_tool key (\<lambda>t. t\<lparr>stream_index := Some index\<rparr>))
     (sthen (smodify (\<lambda>s. s\<lparr>emitted_response_tools := insert key (emitted_response_tools s)\<rparr>))
     (sthen (yields (Block_start index (Tool_use_block (call_id_of tool) (name_of tool))))
     (sthen (swhen (streamed_arguments tool \<noteq> [])
               (yields (Block_delta index (Json_delta (streamed_arguments tool)))))
     (swhen (ends \<and> \<not> emitter_closed tool)
        (sthen (on_emitter_tool key (\<lambda>t. t\<lparr>emitter_closed := True\<rparr>))
          (yields (Block_stop index))))))))"

definition emit_tool :: "jsstr \<Rightarrow> bool \<Rightarrow> unit emit_op" where
  "emit_tool key close = sbind (sget (find_emitter_tool key)) (\<lambda>found. case found of
       None \<Rightarrow> refuse
     | Some tool \<Rightarrow>
         if stream_index tool \<noteq> None then sreturn ()
         else
           sthen close_active_text
           (tool_block key tool (emitter_done tool \<or> item_ended tool \<or> close)))"

definition create_stream_carrier :: "emitter_context \<Rightarrow> reasoning_out \<Rightarrow> jsstr emit_op" where
  "create_stream_carrier ctx item = (case carrier ctx of
       None \<Rightarrow> refuse
     | Some c \<Rightarrow>
         if carrier_wire_protocol c \<noteq> Messages \<or> out_opaque_state item = None then refuse
         else sbind (sget carriers_created) (\<lambda>n.
              sthen (smodify (\<lambda>s. s\<lparr>carriers_created := n + 1\<rparr>))
              (slift (carrier_create c n item))))"

definition carrier_token :: "emitter_context \<Rightarrow> reasoning_out \<Rightarrow> jsstr emit_op" where
  "carrier_token ctx item = sbind (sget (\<lambda>s. carrier_tokens s (out_item_key item))) (\<lambda>found. case found of
       Some token \<Rightarrow> sreturn token
     | None \<Rightarrow> sbind (create_stream_carrier ctx item) (\<lambda>token.
         sthen (smodify (\<lambda>s. s\<lparr>carrier_tokens := (carrier_tokens s)(out_item_key item \<mapsto> token)\<rparr>))
         (sreturn token)))"

definition opaque_item :: "reasoning_out \<Rightarrow> bool" where
  "opaque_item item = (case out_opaque_state item of None \<Rightarrow> False | Some st \<Rightarrow> is_responses_item st)"

definition visible_text :: "reasoning_out \<Rightarrow> jsstr" where
  "visible_text item = concat (map out_text (out_parts item))"

definition mark_reasoning_emitted :: "jsstr \<Rightarrow> unit emit_op" where
  "mark_reasoning_emitted key =
     smodify (\<lambda>s. s\<lparr>emitted_reasoning := insert key (emitted_reasoning s)\<rparr>)"

definition emit_carrier_block :: "emitter_context \<Rightarrow> reasoning_out \<Rightarrow> unit emit_op" where
  "emit_carrier_block ctx item =
     sbind take_index (\<lambda>index.
     sbind (carrier_token ctx item) (\<lambda>token.
     sthen (yields (Block_start index
        (if visible_text item = [] then Redacted_block token else Thinking_block (visible_text item) token)))
     (sthen (yields (Block_stop index))
     (mark_reasoning_emitted (out_item_key item)))))"

definition emit_thinking_block :: "reasoning_out \<Rightarrow> messages_reasoning \<Rightarrow> unit emit_op" where
  "emit_thinking_block item ms = sbind take_index (\<lambda>index. case ms of
       Redacted_thinking d \<Rightarrow>
         sthen (yields (Block_start index (Redacted_block d)))
         (sthen (yields (Block_stop index))
         (mark_reasoning_emitted (out_item_key item)))
     | Thinking thinking signature \<Rightarrow>
         if visible_text item \<noteq> [] \<and> visible_text item \<noteq> thinking then refuse
         else
           sthen (yields (Block_start index (Thinking_block [] [])))
           (sthen (swhen (thinking \<noteq> []) (yields (Block_delta index (Thinking_delta thinking))))
           (sthen (yields (Block_delta index (Signature_delta signature)))
           (sthen (yields (Block_stop index))
           (mark_reasoning_emitted (out_item_key item))))))"

definition emit_reasoning :: "emitter_context \<Rightarrow> reasoning_out \<Rightarrow> bool \<Rightarrow> unit emit_op" where
  "emit_reasoning ctx item allow_carrier =
     sbind (sget (\<lambda>s. out_item_key item \<in> emitted_reasoning s)) (\<lambda>emitted.
     let carried = allow_carrier \<and> carrier ctx \<noteq> None \<and> opaque_item item
     in if emitted \<or> (out_messages_state item = None \<and> \<not> carried) then sreturn ()
        else sthen close_active_text
          (if carried then emit_carrier_block ctx item
           else case out_messages_state item of
               None \<Rightarrow> sreturn ()
             | Some ms \<Rightarrow> emit_thinking_block item ms))"

definition close_open_tool :: "jsstr \<Rightarrow> unit emit_op" where
  "close_open_tool key = sbind (sget (find_emitter_tool key)) (\<lambda>found. case found of
       None \<Rightarrow> sreturn ()
     | Some tool \<Rightarrow> (case stream_index tool of
         None \<Rightarrow> sreturn ()
       | Some index \<Rightarrow>
           swhen (\<not> emitter_closed tool)
             (sthen (on_emitter_tool key (\<lambda>t. t\<lparr>emitter_closed := True\<rparr>)) (yields (Block_stop index)))))"

definition close_open_tools :: "unit emit_op" where
  "close_open_tools = sbind (sget (\<lambda>s. map fst (emitter_tools s))) (sfor close_open_tool)"

section \<open>Draining what the frontier has reached\<close>

definition drain_reasoning :: "emitter_context \<Rightarrow> unit emit_op" where
  "drain_reasoning ctx =
     sbind (sget (\<lambda>s. response_reasoning_key (front_item (response_frontier s)))) (\<lambda>key.
     sbind (sget (\<lambda>s. pending_reasoning s key)) (\<lambda>found. case found of
       None \<Rightarrow> sreturn ()
     | Some item \<Rightarrow> swhen (out_messages_state item \<noteq> None)
         (sthen (smodify (\<lambda>s. s\<lparr>pending_reasoning := (pending_reasoning s)(key := None)\<rparr>))
         (emit_reasoning ctx item False))))"

definition drain_tool :: "unit emit_op" where
  "drain_tool =
     sbind (sget (\<lambda>s. response_tool_key (front_item (response_frontier s)))) (\<lambda>key.
     sbind (sget (\<lambda>s. find_emitter_tool key s \<noteq> None \<and> key \<notin> emitted_response_tools s)) (\<lambda>ready.
     swhen ready (emit_tool key False)))"

definition drain_content :: "unit emit_op" where
  "drain_content =
     sbind (sget (\<lambda>s. let f = response_frontier s;
                          key = response_message_part_key (front_item f) (current_content_index f)
                      in case pending_content s (key Text_kind) of
                           Some p \<Rightarrow> Some (key Text_kind, p)
                         | None \<Rightarrow> map_option (Pair (key Refusal_kind)) (pending_content s (key Refusal_kind))))
     (\<lambda>found. case found of
       None \<Rightarrow> sreturn ()
     | Some (key, p) \<Rightarrow>
         sthen (smodify (\<lambda>s. s\<lparr>pending_content := (pending_content s)(key := None)\<rparr>))
         (sthen (emit_live_text (live_key (pending_kind p) key) (pending_delta p))
         (record_streamed key (pending_kind p) (pending_delta p))))"

text \<open>One round of the loop, and whether it goes round again.\<close>

definition advance_frontier :: "bool emit_op" where
  "advance_frontier = sbind (sget response_frontier) (\<lambda>f.
     if content_done_at_frontier (current_item_order_key f) f then
       sthen (on_frontier (advance_content (current_item_order_key f))) (sreturn True)
     else if item_done_at_frontier f then
       sthen (smodify (\<lambda>s. s\<lparr>pending_reasoning :=
           (pending_reasoning s)(response_reasoning_key (front_item f) := None)\<rparr>))
       (sthen (on_frontier advance_item) (sreturn True))
     else sreturn False)"

definition drain_round :: "emitter_context \<Rightarrow> bool emit_op" where
  "drain_round ctx =
     sbind (sget (\<lambda>s. let f = response_frontier s
                      in carrier ctx \<noteq> None \<and> item_done_at_frontier f \<and>
                         (case pending_reasoning s (response_reasoning_key (front_item f)) of
                            None \<Rightarrow> False | Some item \<Rightarrow> opaque_item item))) (\<lambda>waits.
     if waits then sreturn False
     else
       sthen (drain_reasoning ctx)
       (sthen drain_tool
       (sthen drain_content
       advance_frontier)))"

definition frontier_work :: "messages_emitter \<Rightarrow> nat" where
  "frontier_work s = length (completed_items (response_frontier s)) + length (completed_content (response_frontier s))"

text \<open>The loop ends, as every further round takes a finished part or item off the frontier's lists.\<close>

lemma keeps_frontier:
  "keeps (\<lambda>s. response_frontier s = f) (yields e)"
  "keeps (\<lambda>s. response_frontier s = f) take_index"
  "keeps (\<lambda>s. response_frontier s = f) (on_emitter_tool key g)"
  "keeps (\<lambda>s. response_frontier s = f) close_active_text"
  "keeps (\<lambda>s. response_frontier s = f) (record_streamed key kind delta)"
  "keeps (\<lambda>s. response_frontier s = f) (mark_reasoning_emitted key)"
  by (auto intro!: tripleI simp: yields_def take_index_def on_emitter_tool_def close_active_text_def
      record_streamed_def mark_reasoning_emitted_def Let_def split: option.splits)

lemma keeps_frontier_text:
  "keeps (\<lambda>s. response_frontier s = f) (emit_live_text key delta)"
  unfolding emit_live_text_def open_text_def
  by (intro keeps_bind keeps_get keeps_frontier)
    (auto split: option.split intro!: keeps_return keeps_then keeps_bind keeps_frontier keeps_modify)

lemma keeps_frontier_tool: "keeps (\<lambda>s. response_frontier s = f) (emit_tool key close)"
  unfolding emit_tool_def tool_block_def refuse_def
  by (intro keeps_bind keeps_get)
    (auto split: option.split intro!: keeps_return keeps_fail keeps_then keeps_bind keeps_when
      keeps_frontier keeps_modify)

lemma keeps_frontier_reasoning: "keeps (\<lambda>s. response_frontier s = f) (emit_reasoning ctx item allow)"
proof -
  have create: "keeps (\<lambda>s. response_frontier s = f) (create_stream_carrier ctx item)"
    unfolding create_stream_carrier_def refuse_def
    by (auto split: option.split intro!: keeps_fail keeps_bind keeps_then keeps_get keeps_modify keeps_lift)
  have token: "keeps (\<lambda>s. response_frontier s = f) (carrier_token ctx item)"
    unfolding carrier_token_def
    by (intro keeps_bind keeps_get)
      (auto split: option.split intro!: keeps_return keeps_bind keeps_then keeps_modify create)
  have "keeps (\<lambda>s. response_frontier s = f) (emit_carrier_block ctx item)"
    unfolding emit_carrier_block_def by (intro keeps_bind keeps_then keeps_frontier token)
  moreover have "keeps (\<lambda>s. response_frontier s = f) (emit_thinking_block item ms)" for ms
    unfolding emit_thinking_block_def refuse_def
    by (intro keeps_bind keeps_frontier)
      (auto split: messages_reasoning.split intro!: keeps_fail keeps_when keeps_then keeps_frontier)
  ultimately show ?thesis
    unfolding emit_reasoning_def Let_def
    by (intro keeps_bind keeps_get keeps_if keeps_return keeps_then keeps_frontier)
      (auto split: option.split intro: keeps_return)
qed

lemma drain_steps_frontier:
  "keeps (\<lambda>s. response_frontier s = f) (drain_reasoning ctx)"
  "keeps (\<lambda>s. response_frontier s = f) drain_tool"
  "keeps (\<lambda>s. response_frontier s = f) drain_content"
proof -
  show "keeps (\<lambda>s. response_frontier s = f) (drain_reasoning ctx)"
    unfolding drain_reasoning_def
    by (intro keeps_bind keeps_get)
      (auto split: option.split intro!: keeps_return keeps_when keeps_then keeps_modify keeps_frontier_reasoning)
  show "keeps (\<lambda>s. response_frontier s = f) drain_tool"
    unfolding drain_tool_def by (intro keeps_bind keeps_get keeps_when keeps_frontier_tool)
  show "keeps (\<lambda>s. response_frontier s = f) drain_content"
    unfolding drain_content_def
    by (intro keeps_bind keeps_get)
      (auto split: option.split intro!: keeps_return keeps_then keeps_modify keeps_frontier_text keeps_frontier)
qed

lemma length_removeAll_less: "x \<in> set xs \<Longrightarrow> length (removeAll x xs) < length xs"
  by (simp add: removeAll_filter_not_eq length_filter_less)

lemma advance_frontier_work: "advance_frontier s = Inr (True, t) \<Longrightarrow> frontier_work t < frontier_work s"
  by (auto simp: advance_frontier_def on_frontier_def frontier_work_def advance_content_def advance_item_def
      content_done_at_frontier_def item_done_at_frontier_def length_removeAll_less split: if_splits)

lemma drain_round_work: "drain_round ctx s = Inr (True, t) \<Longrightarrow> frontier_work t < frontier_work s"
proof -
  assume "drain_round ctx s = Inr (True, t)"
  then obtain a b c where 1: "drain_reasoning ctx s = Inr ((), a)" and 2: "drain_tool a = Inr ((), b)"
    and 3: "drain_content b = Inr ((), c)" and t: "advance_frontier c = Inr (True, t)"
    by (auto simp: drain_round_def split: if_splits)
  have "response_frontier c = response_frontier s"
    using tripleD [OF drain_steps_frontier(1) 1] tripleD [OF drain_steps_frontier(2) 2]
      tripleD [OF drain_steps_frontier(3) 3] by blast
  then show ?thesis using advance_frontier_work [OF t] by (simp add: frontier_work_def)
qed

function drain_ready_content :: "emitter_context \<Rightarrow> messages_emitter \<Rightarrow> emitter_error + unit \<times> messages_emitter" where
  "drain_ready_content ctx s = ebind (drain_round ctx s) (\<lambda>(again, t).
     if again then drain_ready_content ctx t else Inr ((), t))"
  by pat_completeness auto
termination
  by (relation "measure (\<lambda>(ctx, s). frontier_work s)") (auto dest: drain_round_work)

declare drain_ready_content.simps [simp del]

section \<open>The methods\<close>

definition first_key :: "jsstr \<Rightarrow> unit emit_op" where
  "first_key key = smodify (\<lambda>s. s\<lparr>first_message_key :=
     (case first_message_key s of None \<Rightarrow> Some key | Some k \<Rightarrow> Some k)\<rparr>)"

definition emitter_message_start :: "jsstr \<Rightarrow> unit emit_op" where
  "emitter_message_start key = first_key key"

definition reserve_message :: "jsstr \<Rightarrow> unit emit_op" where
  "reserve_message key = first_key key"

definition content_done :: "emitter_context \<Rightarrow> jsstr \<Rightarrow> nat \<Rightarrow> unit emit_op" where
  "content_done ctx order_key content_index =
     sthen (on_frontier (mark_content_done order_key content_index)) (drain_ready_content ctx)"

definition end_item :: "jsstr \<Rightarrow> unit emit_op" where
  "end_item key = sbind (sget (find_emitter_tool key)) (\<lambda>found. case found of
       None \<Rightarrow> sreturn ()
     | Some tool \<Rightarrow>
         sthen (on_emitter_tool key (\<lambda>t. t\<lparr>item_ended := True\<rparr>)) (close_open_tool key))"

definition item_done :: "emitter_context \<Rightarrow> nat \<Rightarrow> unit emit_op" where
  "item_done ctx output_index =
     sthen (end_item (response_tool_key output_index))
     (sthen (on_frontier (mark_item_done output_index))
     (drain_ready_content ctx))"

definition reasoning_done :: "emitter_context \<Rightarrow> reasoning_out \<Rightarrow> unit emit_op" where
  "reasoning_done ctx item =
     (if upstream_protocol ctx = Responses then
        smodify (\<lambda>s. s\<lparr>pending_reasoning := (pending_reasoning s)(out_item_key item \<mapsto> item)\<rparr>)
      else if out_messages_state item = None then sreturn ()
      else emit_reasoning ctx item True)"

definition content_delta ::
  "emitter_context \<Rightarrow> content_kind \<Rightarrow> jsstr \<Rightarrow> jsstr \<Rightarrow> jsstr option \<Rightarrow> unit emit_op" where
  "content_delta ctx kind key delta order_key =
     (let message_key = or_default order_key key
      in sthen (first_key message_key)
         (sbind (sget (\<lambda>s.
             if upstream_protocol ctx = Responses
             then \<not> allows_content key order_key (response_frontier s)
             else buffer_after_tool s \<or> first_message_key s \<noteq> Some message_key)) (\<lambda>held.
         if held then
           swhen (upstream_protocol ctx = Responses) (queue_content key order_key kind delta)
         else
           sthen (emit_live_text (live_key kind key) delta)
           (record_streamed key kind delta))))"

definition text_delta :: "emitter_context \<Rightarrow> jsstr \<Rightarrow> jsstr \<Rightarrow> jsstr option \<Rightarrow> unit emit_op" where
  "text_delta ctx = content_delta ctx Text_kind"

definition refusal_delta :: "emitter_context \<Rightarrow> jsstr \<Rightarrow> jsstr \<Rightarrow> jsstr option \<Rightarrow> unit emit_op" where
  "refusal_delta ctx = content_delta ctx Refusal_kind"

definition emitter_tool_start :: "emitter_context \<Rightarrow> jsstr \<Rightarrow> jsstr \<Rightarrow> jsstr \<Rightarrow> unit emit_op" where
  "emitter_tool_start ctx key call_id name =
     sthen close_active_text
     (sbind (sget (find_emitter_tool key)) (\<lambda>found.
     sthen (srequire (found = None) Upstream_invalid)
     (sthen (smodify (\<lambda>s. s\<lparr>buffer_after_tool := True,
        emitter_tools := emitter_tools s @ [(key, \<lparr> call_id_of = call_id, name_of = name,
          streamed_arguments = [], emitter_done = False, stream_index = None, emitter_closed = False,
          item_ended = False \<rparr>)]\<rparr>))
     (sbind (sget (\<lambda>s. upstream_protocol ctx = Responses \<and> allows_item key (response_frontier s)))
       (\<lambda>live. swhen live (emit_tool key False))))))"

definition emitter_tool_arguments :: "emitter_context \<Rightarrow> jsstr \<Rightarrow> jsstr \<Rightarrow> unit emit_op" where
  "emitter_tool_arguments ctx key delta = sbind (sget (find_emitter_tool key)) (\<lambda>found. case found of
       None \<Rightarrow> refuse
     | Some tool \<Rightarrow>
         sthen (srequire (\<not> emitter_done tool) Upstream_invalid)
         (sthen (smodify (\<lambda>s. s\<lparr>buffered_bytes := buffered_bytes s + int (utf8_length delta)\<rparr>))
         (sbind (sget (\<lambda>s. buffered_bytes s \<le> accumulator_bytes ctx)) (\<lambda>fits.
         sthen (srequire fits Upstream_invalid)
         (sthen (on_emitter_tool key (\<lambda>t. t\<lparr>streamed_arguments := streamed_arguments t @ delta\<rparr>))
         (case stream_index tool of
            None \<Rightarrow> sreturn ()
          | Some index \<Rightarrow> swhen (upstream_protocol ctx = Responses) (yields (Block_delta index (Json_delta delta)))))))))"

definition emitter_tool_done :: "emitter_context \<Rightarrow> jsstr \<Rightarrow> jsstr \<Rightarrow> unit emit_op" where
  "emitter_tool_done ctx key arguments =
     sthen close_active_text
     (sbind (sget (find_emitter_tool key)) (\<lambda>found. case found of
       None \<Rightarrow> sreturn ()
     | Some tool \<Rightarrow>
         if emitter_done tool then sreturn ()
         else
           sthen (srequire (arguments = streamed_arguments tool) Upstream_invalid)
           (sthen (on_emitter_tool key (\<lambda>t. t\<lparr>emitter_done := True\<rparr>))
           (case stream_index tool of
              None \<Rightarrow> sreturn ()
            | Some index \<Rightarrow> swhen (upstream_protocol ctx = Responses \<and> \<not> emitter_closed tool)
                (sthen (on_emitter_tool key (\<lambda>t. t\<lparr>emitter_closed := True\<rparr>)) (yields (Block_stop index)))))))"

section \<open>The end of the stream\<close>

definition emit_remaining :: "jsstr \<times> response_part \<Rightarrow> unit emit_op" where
  "emit_remaining entry =
     sbind (sget (\<lambda>s. or_default (streamed_content s (fst entry)) ([], []))) (\<lambda>streamed.
     let (part_text, sent) = (case snd entry of
           Text_part v \<Rightarrow> (v, fst streamed) | Refusal_part v \<Rightarrow> (v, snd streamed))
     in sthen (srequire (starts_with part_text sent) Upstream_invalid)
        (let remaining = drop (length sent) part_text
         in swhen (remaining \<noteq> []) (sbind take_index (\<lambda>index.
              sthen (yields (Block_start index Text_block))
              (sthen (yields (Block_delta index (Text_delta remaining)))
              (yields (Block_stop index)))))))"

definition emit_buffered_item :: "emitter_context \<Rightarrow> bool \<Rightarrow> response_item \<Rightarrow> unit emit_op" where
  "emit_buffered_item ctx allow_carriers item = (case item of
       Reasoning_item r \<Rightarrow> swhen (out_messages_state r \<noteq> None \<or> opaque_item r) (emit_reasoning ctx r allow_carriers)
     | Message_item key keys parts \<Rightarrow> sfor emit_remaining (zip keys parts)
     | Tool_item key _ _ _ _ \<Rightarrow> sbind (sget (\<lambda>s. (find_emitter_tool key s, key \<in> emitted_response_tools s)))
         (\<lambda>(found, emitted). case found of
            None \<Rightarrow> refuse
          | Some _ \<Rightarrow> swhen (\<not> emitted) (emit_tool key True)))"

definition emit_buffered_items :: "emitter_context \<Rightarrow> response_item list \<Rightarrow> bool \<Rightarrow> unit emit_op" where
  "emit_buffered_items ctx outs allow_carriers = sfor (emit_buffered_item ctx allow_carriers) outs"

fun is_tool_call :: "response_item \<Rightarrow> bool" where
  "is_tool_call (Tool_item _ _ _ _ _) = True"
| "is_tool_call _ = False"

definition emitter_finish ::
  "emitter_context \<Rightarrow> item_status \<Rightarrow> finish_reason \<Rightarrow> semantic_usage \<Rightarrow> response_item list \<Rightarrow> unit emit_op" where
  "emitter_finish ctx status reason usage outs =
     sthen close_active_text
     (sthen close_open_tools
     (sthen (emit_buffered_items ctx outs (status = Completed \<and> (\<exists>item \<in> set outs. is_tool_call item)))
     (sthen close_open_tools
     (sthen (yields (Message_delta (messages_finish reason) (messages_usage_of usage)))
     (yields Message_stop)))))"

end
