(* ===== verification/Messages_Blocks.thy ===== *)
theory Messages_Blocks
  imports Messages_Emitter Ledger_Changes
begin

text \<open>
  What a client reads off the events of the Messages emitter. A client keeps a list of content blocks;
  \<open>apply_event\<close> is its reading of an event and refuses what the protocol does not allow. The methods
  of the emitter are cut into elementary changes (\<open>emit_change\<close>), and every change keeps
  \<open>client_view\<close>: the client accepts all events so far and its blocks are the ones the emitter means,
  with one block for every tool that has been written, holding the tool's arguments so far.
\<close>

section \<open>What a client sees: content blocks\<close>

text \<open>
  A Messages client keeps a list of blocks, with the deltas each has received and whether it is
  closed. \<open>apply_event\<close> is its reading of one event: a block starts at the next index, a delta or a
  stop needs an open block; anything else is a protocol error.
\<close>

record client_block =
  block_kind :: out_block
  block_deltas :: "out_delta list"
  block_closed :: bool

definition touch_block ::
  "nat \<Rightarrow> (client_block \<Rightarrow> client_block) \<Rightarrow> client_block list \<Rightarrow> client_block list option" where
  "touch_block i f bs = (if i < length bs \<and> \<not> block_closed (bs ! i) then Some (bs[i := f (bs ! i)]) else None)"

fun apply_event :: "messages_event \<Rightarrow> client_block list \<Rightarrow> client_block list option" where
  "apply_event (Block_start i b) bs = (if i = length bs
     then Some (bs @ [\<lparr> block_kind = b, block_deltas = [], block_closed = False \<rparr>]) else None)"
| "apply_event (Block_delta i d) bs = touch_block i (\<lambda>b. b\<lparr>block_deltas := block_deltas b @ [d]\<rparr>) bs"
| "apply_event (Block_stop i) bs = touch_block i (\<lambda>b. b\<lparr>block_closed := True\<rparr>) bs"
| "apply_event _ bs = Some bs"

fun apply_events :: "messages_event list \<Rightarrow> client_block list \<Rightarrow> client_block list option" where
  "apply_events [] bs = Some bs"
| "apply_events (e # es) bs = Option.bind (apply_event e bs) (apply_events es)"

fun wires :: "converted_emission list \<Rightarrow> messages_event list" where
  "wires [] = []"
| "wires (Wire e # es) = e # wires es"
| "wires (_ # es) = wires es"

lemma wires_append [simp]: "wires (xs @ ys) = wires xs @ wires ys"
  by (induction xs rule: wires.induct) auto

lemma apply_events_append: "apply_events (xs @ ys) bs = Option.bind (apply_events xs bs) (apply_events ys)"
  by (induction xs arbitrary: bs) (auto simp: bind_split split: option.split)

fun json_of :: "out_delta list \<Rightarrow> jsstr" where
  "json_of [] = []"
| "json_of (Json_delta d # ds) = d @ json_of ds"
| "json_of (_ # ds) = json_of ds"

lemma json_of_append [simp]: "json_of (xs @ ys) = json_of xs @ json_of ys"
  by (induction xs rule: json_of.induct) auto

section \<open>Elementary changes of the emitter\<close>

type_synonym emitter_view =
  "nat \<times> (jsstr \<times> nat) option \<times> (jsstr \<times> emitter_tool) list \<times> jsstr set \<times> messages_event list"

definition view :: "messages_emitter \<Rightarrow> emitter_view" where
  "view s = (next_index s, active_text s, emitter_tools s, emitted_response_tools s, wires (out s))"

fun frame_event :: "messages_event \<Rightarrow> bool" where
  "frame_event (Message_start _ _) = True"
| "frame_event (Message_delta _ _) = True"
| "frame_event Message_stop = True"
| "frame_event _ = False"

fun is_tool_block :: "out_block \<Rightarrow> bool" where
  "is_tool_block (Tool_use_block _ _) = True"
| "is_tool_block _ = False"

text \<open>Flags of a tool that concern no block.\<close>

definition keeps_block :: "(emitter_tool \<Rightarrow> emitter_tool) \<Rightarrow> bool" where
  "keeps_block f \<longleftrightarrow> (\<forall>t. call_id_of (f t) = call_id_of t \<and> name_of (f t) = name_of t \<and>
     streamed_arguments (f t) = streamed_arguments t \<and> stream_index (f t) = stream_index t \<and>
     emitter_closed (f t) = emitter_closed t)"

text \<open>
  In a change of kind \<open>(ending, touched)\<close> only the tools in \<open>touched\<close> may be new, flagged or grow, and a
  block may only be closed for a tool that is done or ended, or when the stream is \<open>ending\<close>.
\<close>

inductive emit_change :: "bool \<Rightarrow> jsstr set \<Rightarrow> messages_emitter \<Rightarrow> messages_emitter \<Rightarrow> bool" for ending touched where
  quiet: "view t = view s \<Longrightarrow> emit_change ending touched s t"
| frame: "frame_event e \<Longrightarrow>
    view t = (next_index s, active_text s, emitter_tools s, emitted_response_tools s, wires (out s) @ [e]) \<Longrightarrow>
    emit_change ending touched s t"
| close_text: "active_text s = Some (k, i) \<Longrightarrow>
    view t = (next_index s, None, emitter_tools s, emitted_response_tools s, wires (out s) @ [Block_stop i]) \<Longrightarrow>
    emit_change ending touched s t"
| start_text: "active_text s = None \<Longrightarrow>
    view t = (next_index s + 1, Some (k, next_index s), emitter_tools s, emitted_response_tools s,
      wires (out s) @ [Block_start (next_index s) Text_block]) \<Longrightarrow>
    emit_change ending touched s t"
| live_text: "active_text s = Some (k, i) \<Longrightarrow>
    view t = (next_index s, active_text s, emitter_tools s, emitted_response_tools s,
      wires (out s) @ [Block_delta i (Text_delta d)]) \<Longrightarrow>
    emit_change ending touched s t"
| whole_block: "\<not> is_tool_block b \<Longrightarrow>
    view t = (next_index s + 1, active_text s, emitter_tools s, emitted_response_tools s,
      wires (out s) @ Block_start (next_index s) b # map (Block_delta (next_index s)) ds @ [Block_stop (next_index s)]) \<Longrightarrow>
    emit_change ending touched s t"
| add_tool: "key \<in> touched \<Longrightarrow> find_emitter_tool key s = None \<Longrightarrow> stream_index tool = None \<Longrightarrow> \<not> emitter_closed tool \<Longrightarrow>
    view t = (next_index s, active_text s, emitter_tools s @ [(key, tool)], emitted_response_tools s, wires (out s)) \<Longrightarrow>
    emit_change ending touched s t"
| flag_tool: "key \<in> touched \<Longrightarrow> keeps_block f \<Longrightarrow>
    view t = (next_index s, active_text s, update_entry key f (emitter_tools s), emitted_response_tools s, wires (out s)) \<Longrightarrow>
    emit_change ending touched s t"
| start_tool: "find_emitter_tool key s = Some tool \<Longrightarrow> stream_index tool = None \<Longrightarrow>
    view t = (next_index s + 1, active_text s,
      update_entry key (\<lambda>t. t\<lparr>stream_index := Some (next_index s)\<rparr>) (emitter_tools s),
      insert key (emitted_response_tools s),
      wires (out s) @ Block_start (next_index s) (Tool_use_block (call_id_of tool) (name_of tool)) #
        (if streamed_arguments tool = [] then [] else [Block_delta (next_index s) (Json_delta (streamed_arguments tool))])) \<Longrightarrow>
    emit_change ending touched s t"
| close_tool: "find_emitter_tool key s = Some tool \<Longrightarrow> stream_index tool = Some i \<Longrightarrow> \<not> emitter_closed tool \<Longrightarrow>
    emitter_done tool \<or> item_ended tool \<or> ending \<Longrightarrow>
    view t = (next_index s, active_text s,
      update_entry key (\<lambda>t. t\<lparr>emitter_closed := True\<rparr>) (emitter_tools s),
      emitted_response_tools s, wires (out s) @ [Block_stop i]) \<Longrightarrow>
    emit_change ending touched s t"
| grow_hidden: "key \<in> touched \<Longrightarrow> find_emitter_tool key s = Some tool \<Longrightarrow> stream_index tool = None \<Longrightarrow>
    view t = (next_index s, active_text s,
      update_entry key (\<lambda>t. t\<lparr>streamed_arguments := streamed_arguments t @ d\<rparr>) (emitter_tools s),
      emitted_response_tools s, wires (out s)) \<Longrightarrow>
    emit_change ending touched s t"
| grow_live: "key \<in> touched \<Longrightarrow> find_emitter_tool key s = Some tool \<Longrightarrow> stream_index tool = Some i \<Longrightarrow> \<not> emitter_closed tool \<Longrightarrow>
    view t = (next_index s, active_text s,
      update_entry key (\<lambda>t. t\<lparr>streamed_arguments := streamed_arguments t @ d\<rparr>) (emitter_tools s),
      emitted_response_tools s, wires (out s) @ [Block_delta i (Json_delta d)]) \<Longrightarrow>
    emit_change ending touched s t"

abbreviation emit_changes :: "bool \<Rightarrow> jsstr set \<Rightarrow> messages_emitter \<Rightarrow> messages_emitter \<Rightarrow> bool" where
  "emit_changes fin ks \<equiv> (emit_change fin ks)\<^sup>*\<^sup>*"

interpretation emi: evolution "emit_changes fin ks" for fin ks
  by unfold_locales (auto intro: rtranclp_trans)

lemma emit_modify: "(\<And>s. P s \<Longrightarrow> emit_change fin ks s (g s)) \<Longrightarrow> within_from P (emit_changes fin ks) (smodify g)"
  by (auto intro!: emi.within_modify)

lemma quiet_modify: "(\<And>s. view (g s) = view s) \<Longrightarrow> within_from P (emit_changes fin ks) (smodify g)"
  by (rule emit_modify) (rule quiet)

lemma within_close_active: "within_from P (emit_changes fin ks) close_active_text"
proof (rule within_fromI)
  fix s x t
  assume "close_active_text s = Inr (x, t)"
  then show "emit_changes fin ks s t"
    by (cases "active_text s")
      (auto simp: close_active_text_def yields_def view_def intro!: r_into_rtranclp close_text)
qed

lemma closes_active: "triple (\<lambda>_. True) close_active_text (\<lambda>_ s. active_text s = None)"
  by (rule tripleI) (auto simp: close_active_text_def yields_def split: option.splits)

lemma within_open_text: "within (emit_changes fin ks) (open_text key)"
  unfolding open_text_def sthen_def [of close_active_text]
proof (rule emi.within_seq [OF within_close_active closes_active], rule within_fromI)
  fix s t :: messages_emitter and x
  assume "active_text s = None"
    "sbind take_index (\<lambda>index. sthen (smodify (\<lambda>s. s\<lparr>active_text := Some (key, index)\<rparr>))
      (sthen (yields (Block_start index Text_block)) (sreturn index))) s = Inr (x, t)"
  then show "emit_changes fin ks s t"
    by (auto simp: take_index_def yields_def view_def intro!: r_into_rtranclp start_text [where k = key])
qed

lemma open_text_result: "triple (\<lambda>_. True) (open_text key) (\<lambda>i s. active_text s = Some (key, i))"
  by (rule tripleI) (auto simp: open_text_def take_index_def yields_def)

lemma within_live_text: "within (emit_changes fin ks) (emit_live_text key delta)"
proof -
  let ?ready = "\<lambda>index s. active_text s = Some (key, index)"
  have delta: "within_from (?ready i) (emit_changes fin ks) (yields (Block_delta i (Text_delta delta)))" for i
    unfolding yields_def by (rule emit_modify) (rule live_text [where k = key]; simp add: view_def)
  have "within_from (\<lambda>s. a = active_text s) (emit_changes fin ks)
      (case a of Some (k, index) \<Rightarrow> if k = key then sreturn index else open_text key | None \<Rightarrow> open_text key)"
    and "triple (\<lambda>s. a = active_text s)
      (case a of Some (k, index) \<Rightarrow> if k = key then sreturn index else open_text key | None \<Rightarrow> open_text key) ?ready" for a
    by (auto split: option.split intro: emi.within_pure within_weaken [OF within_open_text]
        intro!: tripleI dest: tripleD [OF open_text_result])
  then show ?thesis
    unfolding emit_live_text_def
    by (intro emi.within_get emi.within_seq [where Q = ?ready] delta) simp_all
qed

lemma find_update [simp]:
  "map_of (update_entry key f (emitter_tools s)) k =
     (if k = key then map_option f (find_emitter_tool k s) else find_emitter_tool k s)"
  by (simp add: map_of_update_entry find_emitter_tool_def)

lemma emit_tool_body:
  assumes tool: "find_emitter_tool key s = Some tool" "stream_index tool = None"
    and ends: "c \<Longrightarrow> emitter_done tool \<or> item_ended tool \<or> fin"
    and ok: "tool_block key tool c s = Inr (x, t)"
  shows "emit_changes fin ks s t"
proof -
  define u where "u = s\<lparr>next_index := next_index s + 1,
    emitter_tools := update_entry key (\<lambda>t. t\<lparr>stream_index := Some (next_index s)\<rparr>) (emitter_tools s),
    emitted_response_tools := insert key (emitted_response_tools s),
    out := out s @ Wire (Block_start (next_index s) (Tool_use_block (call_id_of tool) (name_of tool))) #
      (if streamed_arguments tool = [] then []
       else [Wire (Block_delta (next_index s) (Json_delta (streamed_arguments tool)))])\<rparr>"
  have "emit_change fin ks s u"
    by (rule start_tool [OF tool]) (simp add: u_def view_def)
  moreover have "emit_changes fin ks u t"
  proof (cases "c \<and> \<not> emitter_closed tool")
    case True
    have "emit_change fin ks u t"
    proof (rule close_tool [of key u "tool\<lparr>stream_index := Some (next_index s)\<rparr>" "next_index s"])
      show "find_emitter_tool key u = Some (tool\<lparr>stream_index := Some (next_index s)\<rparr>)"
        using tool by (simp add: u_def find_emitter_tool_def map_of_update_entry)
      show "view t = (next_index u, active_text u, update_entry key (\<lambda>t. t\<lparr>emitter_closed := True\<rparr>) (emitter_tools u),
          emitted_response_tools u, wires (out u) @ [Block_stop (next_index s)])"
        using ok True
        by (auto simp: tool_block_def u_def view_def take_index_def on_emitter_tool_def yields_def swhen_def split: if_splits)
    qed (use True ends in simp_all)
    then show ?thesis by blast
  next
    case False
    then have "t = u"
      using ok by (auto simp: tool_block_def u_def take_index_def on_emitter_tool_def yields_def swhen_def split: if_splits)
    then show ?thesis by simp
  qed
  ultimately show ?thesis by (simp add: converse_rtranclp_into_rtranclp)
qed

lemma keeps_tools_close: "keeps (\<lambda>s. Q (emitter_tools s)) close_active_text"
  by (rule tripleI) (auto simp: close_active_text_def yields_def split: option.splits)

lemma within_emit_tool: "(close \<Longrightarrow> fin) \<Longrightarrow> within (emit_changes fin ks) (emit_tool key close)"
  unfolding emit_tool_def
proof (rule emi.within_get)
  assume close: "close \<Longrightarrow> fin"
  fix found
  show "within_from (\<lambda>s. True \<and> found = find_emitter_tool key s) (emit_changes fin ks)
    (case found of
       None \<Rightarrow> refuse
     | Some tool \<Rightarrow>
         if stream_index tool \<noteq> None then sreturn ()
         else sthen close_active_text (tool_block key tool (emitter_done tool \<or> item_ended tool \<or> close)))"
  proof (cases found)
    case None
    then show ?thesis by (simp add: refuse_def emi.within_pure)
  next
    case (Some tool)
    show ?thesis
      unfolding Some option.case sthen_def [of close_active_text]
    proof (rule emi.within_if [OF emi.within_pure(1)], rule emi.within_seq [OF within_close_active])
      show "triple (\<lambda>s. True \<and> Some tool = find_emitter_tool key s) close_active_text
          (\<lambda>_ s. find_emitter_tool key s = Some tool)"
        using keeps_tools_close [of "\<lambda>ts. map_of ts key = Some tool"]
        by (rule triple_conseq) (simp_all add: find_emitter_tool_def)
    qed (rule within_fromI, rule emit_tool_body, use close in auto)
  qed
qed

definition may_close :: "bool \<Rightarrow> jsstr \<Rightarrow> messages_emitter \<Rightarrow> bool" where
  "may_close fin key s \<longleftrightarrow> fin \<or> (\<forall>t. find_emitter_tool key s = Some t \<longrightarrow> emitter_done t \<or> item_ended t)"

lemma within_close_open_tool: "within_from (may_close fin key) (emit_changes fin ks) (close_open_tool key)"
proof (rule within_fromI)
  fix s x t
  assume may: "may_close fin key s"
  assume ok: "close_open_tool key s = Inr (x, t)"
  show "emit_changes fin ks s t"
  proof (cases "find_emitter_tool key s")
    case None
    with ok show ?thesis by (simp add: close_open_tool_def)
  next
    case (Some tool)
    then show ?thesis
      using ok may
      by (auto simp: may_close_def close_open_tool_def swhen_def on_emitter_tool_def yields_def view_def
          split: option.splits if_splits intro!: r_into_rtranclp close_tool [OF Some])
  qed
qed

lemma within_frame: "frame_event e \<Longrightarrow> within_from P (emit_changes fin ks) (yields e)"
  unfolding yields_def by (rule emit_modify, rule frame [of e]) (simp_all add: view_def)

lemma within_start: "within (emit_changes fin ks) (emitter_start ctx)"
  unfolding emitter_start_def by (intro emi.within_bind emi.within_pure within_frame) simp

lemma within_quiet:
  "within_from P (emit_changes fin ks) (record_streamed key kind delta)"
  "within_from P (emit_changes fin ks) (on_frontier g)"
  "within_from P (emit_changes fin ks) (mark_reasoning_emitted key)"
  "within_from P (emit_changes fin ks) (first_key key)"
  unfolding record_streamed_def on_frontier_def mark_reasoning_emitted_def first_key_def
  by (rule quiet_modify; simp add: view_def Let_def)+

lemma within_queue: "within (emit_changes fin ks) (queue_content key order_key kind delta)"
proof -
  have "within_from P (emit_changes fin ks) (smodify (\<lambda>s. s\<lparr>pending_content := f s\<rparr>))" for f P
    by (rule quiet_modify) (simp add: view_def)
  then show ?thesis
    unfolding queue_content_def refuse_def
    by (auto split: option.split intro!: emi.within_pure emi.within_bind emi.within_if)
qed

text \<open>Creating a carrier changes nothing a client sees.\<close>

lemma carrier_quiet: "carrier_token ctx item s = Inr (token, t) \<Longrightarrow> view t = view s"
  by (auto simp: carrier_token_def create_stream_carrier_def refuse_def view_def split: option.splits if_splits)

lemma within_carrier_block: "within (emit_changes fin ks) (emit_carrier_block ctx item)"
proof (rule within_fromI)
  fix s x t
  assume ok: "emit_carrier_block ctx item s = Inr (x, t)"
  let ?s = "s\<lparr>next_index := next_index s + 1\<rparr>"
  obtain token u where u: "carrier_token ctx item ?s = Inr (token, u)"
    and t: "t = u\<lparr>out := (out u @ [Wire (Block_start (next_index s)
        (if visible_text item = [] then Redacted_block token else Thinking_block (visible_text item) token))])
        @ [Wire (Block_stop (next_index s))], emitted_reasoning := insert (out_item_key item) (emitted_reasoning u)\<rparr>"
    using ok by (auto simp: emit_carrier_block_def take_index_def yields_def mark_reasoning_emitted_def)
  have "view u = view ?s" by (rule carrier_quiet [OF u])
  then show "emit_changes fin ks s t"
    by (intro r_into_rtranclp whole_block [where ds = "[]" and b = "if visible_text item = []
        then Redacted_block token else Thinking_block (visible_text item) token"])
      (auto simp: view_def t)
qed

lemma within_thinking_block: "within (emit_changes fin ks) (emit_thinking_block item ms)"
proof (rule within_fromI)
  fix s x t
  assume ok: "emit_thinking_block item ms s = Inr (x, t)"
  show "emit_changes fin ks s t"
  proof (cases ms)
    case (Redacted_thinking d)
    with ok show ?thesis
      by (intro r_into_rtranclp whole_block [where ds = "[]" and b = "Redacted_block d"])
        (auto simp: emit_thinking_block_def take_index_def yields_def mark_reasoning_emitted_def view_def)
  next
    case (Thinking thinking signature)
    with ok show ?thesis
      by (intro r_into_rtranclp whole_block [where b = "Thinking_block [] []"
            and ds = "(if thinking = [] then [] else [Thinking_delta thinking]) @ [Signature_delta signature]"])
        (auto simp: emit_thinking_block_def take_index_def yields_def mark_reasoning_emitted_def view_def
          swhen_def refuse_def split: if_splits)
  qed
qed

lemma within_emit_reasoning: "within (emit_changes fin ks) (emit_reasoning ctx item allow)"
  unfolding emit_reasoning_def Let_def
  by (intro emi.within_bind emi.within_pure emi.within_if emi.within_then within_close_active within_carrier_block)
    (auto split: option.split intro: emi.within_pure within_thinking_block)

lemma within_drain_round: "within (emit_changes fin ks) (drain_round ctx)"
proof -
  have pending: "within_from P (emit_changes fin ks) (smodify (\<lambda>s. s\<lparr>pending_reasoning := f s\<rparr>))"
    "within_from P (emit_changes fin ks) (smodify (\<lambda>s. s\<lparr>pending_content := g s\<rparr>))" for f g P
    by (rule quiet_modify; simp add: view_def)+
  have 1: "within (emit_changes fin ks) (drain_reasoning ctx)"
    unfolding drain_reasoning_def
    by (intro emi.within_bind emi.within_pure)
      (auto split: option.split intro!: emi.within_pure emi.within_when emi.within_then pending within_emit_reasoning)
  have 2: "within (emit_changes fin ks) drain_tool"
    unfolding drain_tool_def by (intro emi.within_bind emi.within_pure emi.within_when within_emit_tool) simp
  have 3: "within (emit_changes fin ks) drain_content"
    unfolding drain_content_def
    by (intro emi.within_bind emi.within_pure)
      (auto split: option.split intro!: emi.within_pure emi.within_then pending within_live_text within_quiet)
  have 4: "within (emit_changes fin ks) advance_frontier"
    unfolding advance_frontier_def
    by (intro emi.within_bind emi.within_pure emi.within_if emi.within_then within_quiet pending)
  show ?thesis
    unfolding drain_round_def by (intro emi.within_bind emi.within_pure emi.within_if emi.within_then 1 2 3 4)
qed

lemma within_drain: "within (emit_changes fin ks) (drain_ready_content ctx)"
proof (rule within_fromI)
  fix s x t
  show "drain_ready_content ctx s = Inr (x, t) \<Longrightarrow> emit_changes fin ks s t"
  proof (induction ctx s rule: drain_ready_content.induct)
    case (1 ctx s)
    obtain again u where u: "drain_round ctx s = Inr (again, u)"
      and rest: "if again then drain_ready_content ctx u = Inr (x, t) else t = u"
      using "1.prems" by (subst (asm) drain_ready_content.simps) (auto simp: ebind_eq_Inr split: if_splits)
    have "emit_changes fin ks s u" by (rule withinD [OF within_drain_round u])
    then show ?case using "1.IH" [OF u refl] rest by (cases again) (auto intro: rtranclp_trans)
  qed
qed

section \<open>Every method stays within the changes\<close>

lemma within_content_done: "within (emit_changes fin ks) (content_done ctx order_key i)"
  unfolding content_done_def by (intro emi.within_then within_quiet within_drain)

lemma within_end_item: "key \<in> ks \<Longrightarrow> within (emit_changes fin ks) (end_item key)"
proof -
  assume key: "key \<in> ks"
  have ended: "within_from P (emit_changes fin ks) (on_emitter_tool key (\<lambda>t. t\<lparr>item_ended := True\<rparr>))" for P
    unfolding on_emitter_tool_def
    by (rule emit_modify, rule flag_tool [OF key]) (auto simp: keeps_block_def view_def)
  have "triple (\<lambda>_. True) (on_emitter_tool key (\<lambda>t. t\<lparr>item_ended := True\<rparr>)) (\<lambda>_. may_close fin key)"
    by (rule tripleI) (auto simp: on_emitter_tool_def may_close_def find_emitter_tool_def map_of_update_entry)
  then have "within (emit_changes fin ks)
      (sthen (on_emitter_tool key (\<lambda>t. t\<lparr>item_ended := True\<rparr>)) (close_open_tool key))"
    unfolding sthen_def by (rule emi.within_seq [OF ended _ within_close_open_tool])
  then show ?thesis
    unfolding end_item_def
    by (intro emi.within_bind emi.within_pure) (auto split: option.split intro!: emi.within_pure)
qed

lemma within_item_done: "response_tool_key i \<in> ks \<Longrightarrow> within (emit_changes fin ks) (item_done ctx i)"
  unfolding item_done_def by (intro emi.within_then within_end_item within_quiet within_drain)

lemma within_reasoning_done: "within (emit_changes fin ks) (reasoning_done ctx item)"
  unfolding reasoning_done_def
  by (intro emi.within_if emi.within_pure within_emit_reasoning quiet_modify) (simp add: view_def)

lemma within_content_delta: "within (emit_changes fin ks) (content_delta ctx kind key delta order_key)"
  unfolding content_delta_def Let_def
  by (intro emi.within_then emi.within_bind emi.within_if emi.within_when emi.within_pure
      within_quiet within_queue within_live_text)

lemma within_tool_start: "key \<in> ks \<Longrightarrow> within (emit_changes fin ks) (emitter_tool_start ctx key call_id name)"
proof -
  assume key: "key \<in> ks"
  let ?new = "\<lparr> call_id_of = call_id, name_of = name, streamed_arguments = [], emitter_done = False,
    stream_index = None, emitter_closed = False, item_ended = False \<rparr>"
  have add: "within_from (\<lambda>s. find_emitter_tool key s = None) (emit_changes fin ks)
      (smodify (\<lambda>s. s\<lparr>buffer_after_tool := True, emitter_tools := emitter_tools s @ [(key, ?new)]\<rparr>))"
    by (rule emit_modify, rule add_tool [OF key, where tool = ?new]) (simp_all add: view_def)
  show ?thesis
    unfolding emitter_tool_start_def
    by (intro emi.within_then within_close_active emi.within_get emi.within_require emi.within_bind
        within_weaken [OF add] emi.within_when within_emit_tool emi.within_pure) simp_all
qed

text \<open>Arguments may only reach a tool whose block is still open.\<close>

definition takes_arguments :: "emitter_context \<Rightarrow> jsstr \<Rightarrow> messages_emitter \<Rightarrow> bool" where
  "takes_arguments ctx key s = (case find_emitter_tool key s of
       None \<Rightarrow> True
     | Some t \<Rightarrow> stream_index t \<noteq> None \<longrightarrow> upstream_protocol ctx = Responses \<and> \<not> emitter_closed t)"

lemma within_tool_arguments:
  "key \<in> ks \<Longrightarrow> within_from (takes_arguments ctx key) (emit_changes fin ks) (emitter_tool_arguments ctx key delta)"
proof (rule within_fromI)
  fix s x t
  assume key: "key \<in> ks"
  assume open_: "takes_arguments ctx key s" and ok: "emitter_tool_arguments ctx key delta s = Inr (x, t)"
  obtain tool where tool: "find_emitter_tool key s = Some tool"
    using ok by (cases "find_emitter_tool key s") (auto simp: emitter_tool_arguments_def refuse_def)
  show "emit_changes fin ks s t"
  proof (cases "stream_index tool")
    case None
    with ok tool show ?thesis
      by (auto simp: emitter_tool_arguments_def on_emitter_tool_def view_def
          intro!: r_into_rtranclp grow_hidden [OF key tool None, where d = delta])
  next
    case (Some i)
    then have "upstream_protocol ctx = Responses" "\<not> emitter_closed tool"
      using open_ tool by (auto simp: takes_arguments_def)
    with ok tool Some show ?thesis
      by (auto simp: emitter_tool_arguments_def on_emitter_tool_def yields_def swhen_def view_def
          intro!: r_into_rtranclp grow_live [OF key tool Some, where d = delta])
  qed
qed

lemma within_tool_done: "key \<in> ks \<Longrightarrow> within (emit_changes fin ks) (emitter_tool_done ctx key arguments)"
proof -
  assume key: "key \<in> ks"
  have finished: "within_from P (emit_changes fin ks) (on_emitter_tool key (\<lambda>t. t\<lparr>emitter_done := True\<rparr>))" for P
    unfolding on_emitter_tool_def
    by (rule emit_modify, rule flag_tool [OF key]) (auto simp: keeps_block_def view_def)
  have close: "within_from (\<lambda>s. \<exists>u. find_emitter_tool key s = Some u \<and> stream_index u = Some i \<and>
        \<not> emitter_closed u \<and> emitter_done u)
      (emit_changes fin ks) (sthen (on_emitter_tool key (\<lambda>t. t\<lparr>emitter_closed := True\<rparr>)) (yields (Block_stop i)))" for t i
    by (rule within_fromI)
      (auto simp: on_emitter_tool_def yields_def view_def intro!: r_into_rtranclp close_tool [where key = key])
  have set_done: "triple (\<lambda>s. find_emitter_tool key s = Some t)
      (on_emitter_tool key (\<lambda>t. t\<lparr>emitter_done := True\<rparr>))
      (\<lambda>_ s. find_emitter_tool key s = Some (t\<lparr>emitter_done := True\<rparr>))" for t
    by (rule tripleI) (auto simp: on_emitter_tool_def find_emitter_tool_def map_of_update_entry)
  have "within_from (\<lambda>s. find_emitter_tool key s = Some t) (emit_changes fin ks)
      (sthen (on_emitter_tool key (\<lambda>t. t\<lparr>emitter_done := True\<rparr>))
      (case stream_index t of None \<Rightarrow> sreturn ()
       | Some i \<Rightarrow> swhen (upstream_protocol ctx = Responses \<and> \<not> emitter_closed t)
          (sthen (on_emitter_tool key (\<lambda>t. t\<lparr>emitter_closed := True\<rparr>)) (yields (Block_stop i)))))" for t
    unfolding sthen_def [of "on_emitter_tool key (\<lambda>t. t\<lparr>emitter_done := True\<rparr>)"]
    by (rule emi.within_seq [OF finished set_done])
      (auto split: option.split intro!: emi.within_pure emi.within_when within_weaken [OF close])
  note core = this
  show ?thesis
    unfolding emitter_tool_done_def
    apply (intro emi.within_then within_close_active emi.within_get)
    subgoal for found
      by (cases found)
        (auto intro!: emi.within_pure emi.within_if emi.within_require within_weaken [OF core])
    done
qed

lemma within_remaining: "within (emit_changes fin ks) (emit_remaining entry)"
proof -
  have block: "within (emit_changes fin ks) (sbind take_index (\<lambda>index.
      sthen (yields (Block_start index Text_block))
      (sthen (yields (Block_delta index (Text_delta d))) (yields (Block_stop index)))))" for d
    by (rule within_fromI)
      (auto simp: take_index_def yields_def view_def
        intro!: r_into_rtranclp whole_block [where b = Text_block and ds = "[Text_delta d]"])
  show ?thesis
    unfolding emit_remaining_def Let_def
    by (intro emi.within_bind emi.within_pure)
      (auto split: response_part.split intro!: emi.within_require emi.within_when block)
qed

lemma within_buffered: "within (emit_changes True ks) (emit_buffered_items ctx outs allow)"
proof -
  have "within (emit_changes True ks) (emit_buffered_item ctx allow item)" for item
    unfolding emit_buffered_item_def refuse_def
    by (auto split: response_item.split option.split intro!: emi.within_when emi.within_for emi.within_bind
        emi.within_pure within_emit_reasoning within_remaining within_emit_tool)
  then show ?thesis unfolding emit_buffered_items_def by (rule emi.within_for)
qed

lemma within_close_tools: "within (emit_changes True ks) close_open_tools"
  unfolding close_open_tools_def
  by (intro emi.within_bind emi.within_pure emi.within_for within_weaken [OF within_close_open_tool])
    (simp add: may_close_def)

lemma within_finish: "within (emit_changes True ks) (emitter_finish ctx status reason usage outs)"
  unfolding emitter_finish_def
  by (intro emi.within_then within_close_active within_close_tools within_buffered within_frame) simp_all

section \<open>What the client has is what the emitter means\<close>

definition shows_tool :: "emitter_tool \<Rightarrow> client_block \<Rightarrow> bool" where
  "shows_tool t b \<longleftrightarrow> block_kind b = Tool_use_block (call_id_of t) (name_of t) \<and>
     json_of (block_deltas b) = streamed_arguments t \<and> block_closed b = emitter_closed t"

definition owned :: "emitter_view \<Rightarrow> nat \<Rightarrow> bool" where
  "owned v i = (case v of (_, a, ts, _, _) \<Rightarrow>
     (\<exists>k. a = Some (k, i)) \<or> (\<exists>key t. map_of ts key = Some t \<and> stream_index t = Some i))"

definition tool_owned :: "emitter_view \<Rightarrow> nat \<Rightarrow> bool" where
  "tool_owned v i = (case v of (_, _, ts, _, _) \<Rightarrow> \<exists>key t. map_of ts key = Some t \<and> stream_index t = Some i)"

definition blocks_match :: "client_block list \<Rightarrow> emitter_view \<Rightarrow> bool" where
  "blocks_match bs v = (case v of (next, a, ts, emitted, _) \<Rightarrow>
     length bs = next \<and>
     (\<forall>k i. a = Some (k, i) \<longrightarrow> i < length bs \<and> block_kind (bs ! i) = Text_block \<and> \<not> block_closed (bs ! i)) \<and>
     (\<forall>key t i. map_of ts key = Some t \<longrightarrow> stream_index t = Some i \<longrightarrow> i < length bs \<and> shows_tool t (bs ! i)) \<and>
     (\<forall>key t. map_of ts key = Some t \<longrightarrow> stream_index t = None \<longrightarrow> \<not> emitter_closed t) \<and>
     (\<forall>i < length bs. (\<not> block_closed (bs ! i) \<longrightarrow> owned v i) \<and>
        (is_tool_block (block_kind (bs ! i)) \<longrightarrow> tool_owned v i)) \<and>
     (\<forall>key t key' t' i. map_of ts key = Some t \<longrightarrow> map_of ts key' = Some t' \<longrightarrow>
        stream_index t = Some i \<longrightarrow> stream_index t' = Some i \<longrightarrow> key = key') \<and>
     (\<forall>key. key \<in> emitted \<longleftrightarrow> (\<exists>t. map_of ts key = Some t \<and> stream_index t \<noteq> None)))"

definition client_view :: "messages_emitter \<Rightarrow> client_block list \<Rightarrow> bool" where
  "client_view s bs \<longleftrightarrow> apply_events (wires (out s)) [] = Some bs \<and> blocks_match bs (view s)"

lemma client_view_eq:
  "view s = (n, a, ts, emitted, w) \<Longrightarrow>
   client_view s bs \<longleftrightarrow> apply_events w [] = Some bs \<and> blocks_match bs (n, a, ts, emitted, w)"
  by (auto simp: client_view_def view_def)

lemma blocks_matchD:
  assumes "blocks_match bs (n, a, ts, emitted, w)"
  shows "length bs = n"
    and "a = Some (k, i) \<Longrightarrow> i < length bs \<and> block_kind (bs ! i) = Text_block \<and> \<not> block_closed (bs ! i)"
    and "map_of ts key = Some t \<Longrightarrow> stream_index t = Some i \<Longrightarrow> i < length bs \<and> shows_tool t (bs ! i)"
    and "map_of ts key = Some t \<Longrightarrow> stream_index t = None \<Longrightarrow> \<not> emitter_closed t"
    and "map_of ts key = Some t \<Longrightarrow> map_of ts key' = Some t' \<Longrightarrow>
       stream_index t = Some i \<Longrightarrow> stream_index t' = Some i \<Longrightarrow> key = key'"
    and "key \<in> emitted \<longleftrightarrow> (\<exists>t. map_of ts key = Some t \<and> stream_index t \<noteq> None)"
    and "i < length bs \<Longrightarrow> \<not> block_closed (bs ! i) \<Longrightarrow> owned (n, a, ts, emitted, w) i"
    and "i < length bs \<Longrightarrow> is_tool_block (block_kind (bs ! i)) \<Longrightarrow> tool_owned (n, a, ts, emitted, w) i"
  using assms unfolding blocks_match_def split by blast+

lemma text_not_tool: "shows_tool t b \<Longrightarrow> block_kind b \<noteq> Text_block"
  by (simp add: shows_tool_def)

text \<open>The text block and the tools' blocks are different blocks.\<close>

lemma text_apart:
  "blocks_match bs (n, Some (k, i), ts, emitted, w) \<Longrightarrow> map_of ts key = Some t \<Longrightarrow> stream_index t \<noteq> Some i"
  by (metis blocks_matchD(2,3) text_not_tool)

lemma open_tool:
  "blocks_match bs (n, Some (k, i), ts, emitted, w) \<Longrightarrow> \<forall>j. j < length bs \<longrightarrow> \<not> block_closed (bs ! j) \<longrightarrow>
   i \<noteq> j \<longrightarrow> (\<exists>key t. map_of ts key = Some t \<and> stream_index t = Some j)"
  using blocks_matchD(7) [of bs n "Some (k, i)" ts emitted w] by (auto simp: owned_def)

lemma match_close_text:
  assumes "blocks_match bs (n, Some (k, i), ts, emitted, w)"
  shows "blocks_match (bs[i := (bs ! i)\<lparr>block_closed := True\<rparr>]) (n, None, ts, emitted, w')"
proof -
  note m = blocks_matchD [OF assms] and apart = text_apart [OF assms]
  show ?thesis
    unfolding blocks_match_def split
    using m(1-6) m(8) apart open_tool [OF assms]
    by (auto simp: nth_list_update owned_def tool_owned_def)
qed

lemma match_push:
  assumes "blocks_match bs (n, a, ts, emitted, w)" "block_closed b" "\<not> is_tool_block (block_kind b)"
  shows "blocks_match (bs @ [b]) (n + 1, a, ts, emitted, w')"
proof -
  note m = blocks_matchD [OF assms(1)]
  show ?thesis
    unfolding blocks_match_def split
    using m assms(2,3)
    by (auto simp: nth_append owned_def tool_owned_def less_Suc_eq)
qed

lemma match_text:
  assumes "blocks_match bs (n, None, ts, emitted, w)" "block_kind b = Text_block" "\<not> block_closed b"
  shows "blocks_match (bs @ [b]) (n + 1, Some (k, n), ts, emitted, w')"
proof -
  note m = blocks_matchD [OF assms(1)]
  show ?thesis
    unfolding blocks_match_def split
    using m assms(2,3)
    by (auto simp: nth_append owned_def tool_owned_def less_Suc_eq)
qed

lemma match_delta:
  assumes "blocks_match bs (n, Some (k, i), ts, emitted, w)"
  shows "blocks_match (bs[i := (bs ! i)\<lparr>block_deltas := ds\<rparr>]) (n, Some (k, i), ts, emitted, w')"
proof -
  note m = blocks_matchD [OF assms] and apart = text_apart [OF assms]
  show ?thesis
    unfolding blocks_match_def split
    using m(1-6) m(8) apart open_tool [OF assms]
    by (auto simp: nth_list_update owned_def tool_owned_def)
qed

lemma match_new_tool:
  assumes "blocks_match bs (n, a, ts, emitted, w)" "map_of ts key = None"
    and "stream_index tool = None" "\<not> emitter_closed tool"
  shows "blocks_match bs (n, a, ts @ [(key, tool)], emitted, w')"
proof -
  note m = blocks_matchD [OF assms(1)]
  have lookup: "map_of (ts @ [(key, tool)]) k = (if k = key then Some tool else map_of ts k)" for k
    using assms(2) by (auto simp: map_add_def split: option.split)
  have index: "(\<exists>k' t. map_of (ts @ [(key, tool)]) k' = Some t \<and> stream_index t = Some i) \<longleftrightarrow>
      (\<exists>k' t. map_of ts k' = Some t \<and> stream_index t = Some i)" for i
    using assms(2,3) unfolding lookup by (metis option.distinct(1) option.inject)
  show ?thesis
    unfolding blocks_match_def split owned_def tool_owned_def index
    unfolding lookup
    using m assms(2-)
    by (auto simp: owned_def tool_owned_def split: if_splits)
qed

lemma match_update:
  assumes m: "blocks_match bs (n, a, ts, emitted, w)"
    and same: "map_of ts key = Some t" "stream_index (f t) = stream_index t"
    and now: "case stream_index t of None \<Rightarrow> \<not> emitter_closed (f t) \<and> bs' = bs
      | Some i \<Rightarrow> bs' = bs[i := b] \<and> shows_tool (f t) b"
  shows "blocks_match bs' (n, a, update_entry key f ts, emitted, w')"
proof -
  note m = blocks_matchD [OF assms(1)]
  have lookup: "map_of (update_entry key f ts) k = (if k = key then Some (f t) else map_of ts k)" for k
    using same by (simp add: map_of_update_entry)
  have index: "(\<exists>k' t'. map_of (update_entry key f ts) k' = Some t' \<and> stream_index t' = Some i) \<longleftrightarrow>
      (\<exists>k' t'. map_of ts k' = Some t' \<and> stream_index t' = Some i)" for i
    using same unfolding lookup by (metis option.inject)
  have emitted: "k \<in> emitted \<longleftrightarrow> (\<exists>t'. map_of (update_entry key f ts) k = Some t' \<and> stream_index t' \<noteq> None)" for k
    using m(6) [of k] same unfolding lookup by auto
  have apart: "a = Some (k, i) \<Longrightarrow> stream_index t \<noteq> Some i" for k i
    using text_apart assms(1) same(1) by blast
  have tool: "map_of ts k = Some t' \<Longrightarrow> stream_index t' = stream_index t \<Longrightarrow> stream_index t \<noteq> None \<Longrightarrow> k = key" for k t'
    using m(5) same(1) by (metis option.exhaust_sel)
  have kind: "stream_index t = Some i \<Longrightarrow> is_tool_block (block_kind (bs ! i))" for i
    using m(3) [OF same(1)] by (simp add: shows_tool_def)
  show ?thesis
  proof (cases "stream_index t")
    case None
    then show ?thesis
      unfolding blocks_match_def split owned_def tool_owned_def index emitted [symmetric]
      unfolding lookup
      using m(1-5) m(7-) same now
      by (auto simp: owned_def tool_owned_def split: if_splits)
  next
    case (Some j)
    then have b: "bs' = bs[j := b]" "shows_tool (f t) b" and j: "j < length bs" "owned (n, a, ts, emitted, w) j"
      "tool_owned (n, a, ts, emitted, w) j"
      using now m(3) [OF same(1)] same(1) by (auto simp: owned_def tool_owned_def)
    show ?thesis
      unfolding blocks_match_def split owned_def tool_owned_def index emitted [symmetric]
      unfolding lookup
      using m(1-5) m(7-) same b j apart tool Some
      by (auto simp: owned_def tool_owned_def nth_list_update split: if_splits)
  qed
qed

lemma match_start_tool:
  assumes m: "blocks_match bs (n, a, ts, emitted, w)"
    and tool: "map_of ts key = Some t" "stream_index t = None"
    and b: "shows_tool t b"
  shows "blocks_match (bs @ [b]) (n + 1, a, update_entry key (\<lambda>t. t\<lparr>stream_index := Some n\<rparr>) ts, insert key emitted, w')"
proof -
  note m = blocks_matchD [OF assms(1)]
  have lookup: "map_of (update_entry key (\<lambda>t. t\<lparr>stream_index := Some n\<rparr>) ts) k =
      (if k = key then Some (t\<lparr>stream_index := Some n\<rparr>) else map_of ts k)" for k
    using tool by (simp add: map_of_update_entry)
  have index: "(\<exists>k' t'. map_of (update_entry key (\<lambda>t. t\<lparr>stream_index := Some n\<rparr>) ts) k' = Some t' \<and> stream_index t' = Some i) \<longleftrightarrow>
      (i = n \<or> (\<exists>k' t'. map_of ts k' = Some t' \<and> stream_index t' = Some i))" for i
    using tool unfolding lookup by (auto split: if_splits) (metis option.distinct(1) option.inject)
  have shown: "shows_tool (t\<lparr>stream_index := Some n\<rparr>) b"
    using b by (simp add: shows_tool_def)
  have fresh: "map_of ts k = Some t' \<Longrightarrow> stream_index t' \<noteq> Some n" for k t'
    using m(1,3) by (metis less_irrefl)
  show ?thesis
    unfolding blocks_match_def split owned_def tool_owned_def index
    unfolding lookup
    using m tool shown fresh
    by (auto simp: owned_def tool_owned_def nth_append less_Suc_eq split: if_splits)
qed

section \<open>Every change keeps the client's view\<close>

lemma update_entry_absent: "map_of es key = None \<Longrightarrow> update_entry key f es = es"
  by (induction es) (auto split: if_splits)

lemma client_viewI:
  "client_view s bs \<Longrightarrow> view t = (n, a, ts, emitted, wires (out s) @ es) \<Longrightarrow>
   apply_events es bs = Some bs' \<Longrightarrow> blocks_match bs' (n, a, ts, emitted, wires (out s) @ es) \<Longrightarrow>
   client_view t bs'"
  by (auto simp: client_view_def view_def apply_events_append)

lemma client_viewD:
  "client_view s bs \<Longrightarrow> blocks_match bs (next_index s, active_text s, emitter_tools s, emitted_response_tools s, wires (out s))"
  by (simp add: client_view_def view_def)

lemma apply_whole_block:
  "length bs = i \<Longrightarrow>
   apply_events (Block_start i b # map (Block_delta i) ds @ [Block_stop i]) bs =
     Some (bs @ [\<lparr> block_kind = b, block_deltas = ds, block_closed = True \<rparr>])"
proof -
  assume i: "length bs = i"
  have "apply_events (map (Block_delta i) ds) (bs @ [\<lparr> block_kind = b, block_deltas = xs, block_closed = False \<rparr>]) =
      Some (bs @ [\<lparr> block_kind = b, block_deltas = xs @ ds, block_closed = False \<rparr>])" for xs
    by (induction ds arbitrary: xs) (auto simp: touch_block_def i [symmetric])
  then show ?thesis by (simp add: apply_events_append touch_block_def i [symmetric])
qed

lemma change_keeps_view:
  assumes "emit_change fin ks s t" "client_view s bs"
  shows "\<exists>bs'. client_view t bs'"
  using assms(1)
proof cases
  case quiet
  then show ?thesis using assms(2) by (auto simp: client_view_def view_def)
next
  case (frame e)
  moreover have "apply_events [e] bs = Some bs" using frame(1) by (cases e) auto
  ultimately show ?thesis
    using assms(2) client_viewD [OF assms(2)] by (intro exI client_viewI [OF assms(2)]) (auto simp: blocks_match_def owned_def tool_owned_def)
next
  case (close_text k i)
  note m = client_viewD [OF assms(2), unfolded close_text(1)]
  have "blocks_match (bs[i := (bs ! i)\<lparr>block_closed := True\<rparr>]) (next_index s, None, emitter_tools s,
      emitted_response_tools s, wires (out s) @ [Block_stop i])"
    by (rule match_close_text [OF m])
  then show ?thesis
    using blocks_matchD(2) [OF m refl]
    by (intro exI) (rule client_viewI [OF assms(2) close_text(2)], simp_all add: touch_block_def)
next
  case (start_text k)
  note m = client_viewD [OF assms(2), unfolded start_text(1)]
  show ?thesis
    by (rule exI, rule client_viewI [OF assms(2) start_text(2)], simp add: blocks_matchD(1) [OF m],
        rule match_text [OF m]) simp_all
next
  case (live_text k i d)
  note m = client_viewD [OF assms(2), unfolded live_text(1)]
  show ?thesis
    by (rule exI, rule client_viewI [OF assms(2) live_text(2)], simp add: touch_block_def blocks_matchD(2) [OF m refl],
        unfold live_text(1), rule match_delta [OF m])
next
  case (whole_block b ds)
  note m = client_viewD [OF assms(2)]
  show ?thesis
    by (rule exI, rule client_viewI [OF assms(2) whole_block(2)], rule apply_whole_block [OF blocks_matchD(1) [OF m]],
        rule match_push [OF m]) (simp_all add: whole_block(1))
next
  case (add_tool key tool)
  note m = client_viewD [OF assms(2)]
  have "map_of (emitter_tools s) key = None" using add_tool(2) by (simp add: find_emitter_tool_def)
  then have "blocks_match bs (next_index s, active_text s, emitter_tools s @ [(key, tool)], emitted_response_tools s, wires (out s) @ [])"
    by (rule match_new_tool [OF m _ add_tool(3,4)])
  then show ?thesis
    using add_tool(5) by (intro exI client_viewI [where es = "[]", OF assms(2)]) simp_all
next
  case (flag_tool key f)
  note m = client_viewD [OF assms(2)]
  show ?thesis
  proof (cases "map_of (emitter_tools s) key")
    case None
    then have "update_entry key f (emitter_tools s) = emitter_tools s"
      by (rule update_entry_absent)
    then show ?thesis using flag_tool(3) assms(2) by (auto simp: client_view_def view_def)
  next
    case (Some tool)
    have "blocks_match bs (next_index s, active_text s, update_entry key f (emitter_tools s), emitted_response_tools s, wires (out s) @ [])"
      by (rule match_update [OF m Some, where b = "bs ! the (stream_index tool)"])
        (use blocks_matchD(3,4) [OF m Some] flag_tool(2) in
          \<open>auto simp: keeps_block_def shows_tool_def split: option.split\<close>)

    then show ?thesis
      using flag_tool(3) by (intro exI client_viewI [where es = "[]", OF assms(2)]) auto
  qed
next
  case (start_tool key tool)
  note m = client_viewD [OF assms(2)]
  have tool: "map_of (emitter_tools s) key = Some tool" using start_tool(1) by (simp add: find_emitter_tool_def)
  let ?b = "\<lparr> block_kind = Tool_use_block (call_id_of tool) (name_of tool),
    block_deltas = (if streamed_arguments tool = [] then [] else [Json_delta (streamed_arguments tool)]),
    block_closed = False \<rparr>"
  let ?es = "Block_start (next_index s) (Tool_use_block (call_id_of tool) (name_of tool)) #
    (if streamed_arguments tool = [] then [] else [Block_delta (next_index s) (Json_delta (streamed_arguments tool))])"
  have "shows_tool tool ?b"
    using blocks_matchD(4) [OF m tool start_tool(2)] by (simp add: shows_tool_def)
  then have "blocks_match (bs @ [?b]) (next_index s + 1, active_text s,
      update_entry key (\<lambda>t. t\<lparr>stream_index := Some (next_index s)\<rparr>) (emitter_tools s),
      insert key (emitted_response_tools s), wires (out s) @ ?es)"
    by (rule match_start_tool [OF m tool start_tool(2)])
  moreover have "apply_events ?es bs = Some (bs @ [?b])"
    by (auto simp: touch_block_def blocks_matchD(1) [OF m, symmetric])
  ultimately show ?thesis
    using client_viewI [OF assms(2) start_tool(3)] by blast
next
  case (close_tool key tool i)
  note m = client_viewD [OF assms(2)]
  have tool: "map_of (emitter_tools s) key = Some tool" using close_tool(1) by (simp add: find_emitter_tool_def)
  have shown: "i < length bs" "shows_tool tool (bs ! i)"
    using blocks_matchD(3) [OF m tool close_tool(2)] by auto
  let ?b = "(bs ! i)\<lparr>block_closed := True\<rparr>"
  have "blocks_match (bs[i := ?b]) (next_index s, active_text s,
      update_entry key (\<lambda>t. t\<lparr>emitter_closed := True\<rparr>) (emitter_tools s), emitted_response_tools s, wires (out s) @ [Block_stop i])"
    by (rule match_update [OF m tool, where b = ?b]) (use shown close_tool(2) in \<open>simp_all add: shows_tool_def\<close>)
  moreover have "apply_events [Block_stop i] bs = Some (bs[i := ?b])"
    using shown close_tool(3) by (simp add: touch_block_def shows_tool_def)
  ultimately show ?thesis
    using client_viewI [OF assms(2) close_tool(5)] by blast
next
  case (grow_hidden key tool d)
  note m = client_viewD [OF assms(2)]
  have tool: "map_of (emitter_tools s) key = Some tool" using grow_hidden(2) by (simp add: find_emitter_tool_def)
  have "blocks_match bs (next_index s, active_text s,
      update_entry key (\<lambda>t. t\<lparr>streamed_arguments := streamed_arguments t @ d\<rparr>) (emitter_tools s),
      emitted_response_tools s, wires (out s) @ [])"
    by (rule match_update [OF m tool]) (use blocks_matchD(4) [OF m tool grow_hidden(3)] grow_hidden(3) in simp_all)
  then show ?thesis
    using grow_hidden(4) by (intro exI client_viewI [where es = "[]", OF assms(2)]) simp_all
next
  case (grow_live key tool i d)
  note m = client_viewD [OF assms(2)]
  have tool: "map_of (emitter_tools s) key = Some tool" using grow_live(2) by (simp add: find_emitter_tool_def)
  have shown: "i < length bs" "shows_tool tool (bs ! i)"
    using blocks_matchD(3) [OF m tool grow_live(3)] by auto
  let ?b = "(bs ! i)\<lparr>block_deltas := block_deltas (bs ! i) @ [Json_delta d]\<rparr>"
  have "blocks_match (bs[i := ?b]) (next_index s, active_text s,
      update_entry key (\<lambda>t. t\<lparr>streamed_arguments := streamed_arguments t @ d\<rparr>) (emitter_tools s),
      emitted_response_tools s, wires (out s) @ [Block_delta i (Json_delta d)])"
    by (rule match_update [OF m tool, where b = ?b]) (use shown grow_live(3) in \<open>simp_all add: shows_tool_def\<close>)
  moreover have "apply_events [Block_delta i (Json_delta d)] bs = Some (bs[i := ?b])"
    using shown grow_live(4) by (simp add: touch_block_def shows_tool_def)
  ultimately show ?thesis
    using client_viewI [OF assms(2) grow_live(5)] by blast
qed

lemma changes_keep_view: "emit_changes fin ks s t \<Longrightarrow> client_view s bs \<Longrightarrow> \<exists>bs'. client_view t bs'"
  by (induction arbitrary: bs rule: converse_rtranclp_induct) (blast dest: change_keeps_view)+

lemma new_emitter_view: "client_view (new_emitter uuid) []"
  by (simp add: client_view_def view_def new_emitter_def blocks_match_def)

section \<open>At the end every block is closed\<close>

definition tool_settled :: "jsstr \<Rightarrow> messages_emitter \<Rightarrow> bool" where
  "tool_settled key s \<longleftrightarrow> (\<forall>t. find_emitter_tool key s = Some t \<longrightarrow> stream_index t \<noteq> None \<longrightarrow> emitter_closed t)"

lemma all_blocks_closed:
  assumes "client_view s bs" "active_text s = None" "\<And>key. tool_settled key s"
  shows "\<forall>b \<in> set bs. block_closed b"
proof
  fix b assume "b \<in> set bs"
  then obtain i where i: "i < length bs" "b = bs ! i" by (auto simp: in_set_conv_nth)
  note m = client_viewD [OF assms(1), unfolded assms(2)]
  show "block_closed b"
  proof (rule ccontr)
    assume "\<not> block_closed b"
    then obtain key t where t: "map_of (emitter_tools s) key = Some t" "stream_index t = Some i"
      using blocks_matchD(7) [OF m, of i] i by (auto simp: owned_def)
    have "emitter_closed t" using assms(3) [of key] t by (simp add: tool_settled_def find_emitter_tool_def)
    with blocks_matchD(3) [OF m t] i \<open>\<not> block_closed b\<close> show False by (simp add: shows_tool_def)
  qed
qed

lemma map_fst_update [simp]: "map fst (update_entry key f es) = map fst es"
  by (induction es) auto

lemma close_open_tool_effect:
  "close_open_tool key s = Inr (x, t) \<Longrightarrow>
   map fst (emitter_tools t) = map fst (emitter_tools s) \<and> tool_settled key t \<and> active_text t = active_text s \<and>
   (\<forall>k. tool_settled k s \<longrightarrow> tool_settled k t)"
  by (auto simp: close_open_tool_def on_emitter_tool_def yields_def tool_settled_def swhen_def find_emitter_tool_def
      map_of_update_entry split: option.splits if_splits)

lemma close_tools_effect:
  "sfor close_open_tool ks s = Inr (x, t) \<Longrightarrow>
   map fst (emitter_tools t) = map fst (emitter_tools s) \<and> (\<forall>k \<in> set ks. tool_settled k t) \<and>
   active_text t = active_text s \<and> (\<forall>k. tool_settled k s \<longrightarrow> tool_settled k t)"
proof (induction ks arbitrary: s)
  case (Cons k ks)
  then obtain y u where "close_open_tool k s = Inr (y, u)" "sfor close_open_tool ks u = Inr (x, t)" by auto
  with Cons.IH [of u] close_open_tool_effect [of k s y u] show ?case by auto
qed simp

lemma close_open_tools_settles:
  assumes "close_open_tools s = Inr (x, t)"
  shows "tool_settled key t" "active_text t = active_text s"
proof -
  have run: "sfor close_open_tool (map fst (emitter_tools s)) s = Inr (x, t)"
    using assms by (simp add: close_open_tools_def)
  note e = close_tools_effect [OF run]
  show "active_text t = active_text s" using e by blast
  show "tool_settled key t"
  proof (cases "find_emitter_tool key t")
    case None
    then show ?thesis by (simp add: tool_settled_def)
  next
    case (Some tool)
    then have "key \<in> set (map fst (emitter_tools t))"
      by (auto simp: find_emitter_tool_def dest: map_of_SomeD intro: rev_image_eqI)
    then show ?thesis using e by metis
  qed
qed

text \<open>What the buffered items leave as it is, and what they add.\<close>

lemma buffered_keeps_no_text:
  "keeps (\<lambda>s. active_text s = None) (emit_buffered_items ctx outs allow)"
proof -
  let ?P = "\<lambda>s :: messages_emitter. active_text s = None"
  have basic: "keeps ?P (yields e)" "keeps ?P take_index" "keeps ?P (on_emitter_tool key g)"
    "keeps ?P close_active_text" "keeps ?P (mark_reasoning_emitted key)" for e key g
    by (auto intro!: tripleI simp: yields_def take_index_def on_emitter_tool_def close_active_text_def
        mark_reasoning_emitted_def split: option.splits)
  have tool: "keeps ?P (emit_tool key close)" for key close
    unfolding emit_tool_def tool_block_def refuse_def
    by (intro keeps_bind keeps_get)
      (auto split: option.split intro!: keeps_intros basic keeps_modify)
  have "keeps ?P (carrier_token ctx item)" for item
    unfolding carrier_token_def create_stream_carrier_def refuse_def
    by (intro keeps_bind keeps_get) (auto split: option.split intro!: keeps_intros keeps_modify)
  then have reasoning: "keeps ?P (emit_reasoning ctx item allow)" for item
    unfolding emit_reasoning_def emit_carrier_block_def emit_thinking_block_def Let_def refuse_def
    by (intro keeps_bind keeps_get)
      (auto split: option.split messages_reasoning.split intro!: keeps_intros basic)
  have "keeps ?P (emit_remaining entry)" for entry
    unfolding emit_remaining_def Let_def
    by (intro keeps_bind keeps_get) (auto split: response_part.split intro!: keeps_intros basic)
  then have "keeps ?P (emit_buffered_item ctx allow item)" for item
    unfolding emit_buffered_item_def refuse_def
    by (auto split: response_item.split option.split intro!: keeps_intros tool reasoning)
  then show ?thesis unfolding emit_buffered_items_def by (intro keeps_for)
qed

end
