(* ===== verification/Messages_Stream.thy ===== *)
theory Messages_Stream
  imports Messages_Emitter
begin

text \<open>
  The model of \<open>convertProtocolStream\<close> of \<open>src/src/protocols/conversion/stream.ts\<close> for a Messages
  client: the loop that feeds the events of a decoded upstream stream to the item ledger and to the
  Messages emitter. The decoder and the byte stream it reads are left out: the model runs on the
  decoder's events. Tool bindings exist for Responses clients only, so every tool call has strict
  arguments here. The time measurements of the context wrap the work and do not change it.
\<close>

section \<open>The events of a decoded stream\<close>

datatype semantic_event =
    Semantic_progress
  | Reasoning_started jsstr "jsstr option" "messages_reasoning option" "opaque_reasoning option"
  | Reasoning_delta jsstr jsstr "jsstr option" presentation nat jsstr
  | Reasoning_snapshot jsstr jsstr "jsstr option" presentation nat jsstr
  | Reasoning_done jsstr item_status
  | Message_started jsstr
  | Text_piece jsstr "jsstr option" jsstr
  | Text_done jsstr "jsstr option" jsstr
  | Refusal_piece jsstr "jsstr option" jsstr
  | Refusal_done jsstr "jsstr option" jsstr
  | Content_done jsstr jsstr nat
  | Item_done nat jsstr
  | Tool_started jsstr "jsstr option" jsstr jsstr
  | Arguments_delta jsstr jsstr
  | Tool_done jsstr "jsstr option" "bool option"
  | Usage_update semantic_usage
  | Terminal item_status finish_reason

fun starts_semantic_output :: "semantic_event \<Rightarrow> bool" where
  "starts_semantic_output Semantic_progress = True"
| "starts_semantic_output (Tool_started _ _ _ _) = True"
| "starts_semantic_output (Tool_done _ _ _) = True"
| "starts_semantic_output (Text_piece _ _ delta) = (delta \<noteq> [])"
| "starts_semantic_output (Arguments_delta _ delta) = (delta \<noteq> [])"
| "starts_semantic_output (Reasoning_delta _ _ _ _ _ delta) = (delta \<noteq> [])"
| "starts_semantic_output (Reasoning_snapshot _ _ _ _ _ v) = (v \<noteq> [])"
| "starts_semantic_output (Text_done _ _ v) = (v \<noteq> [])"
| "starts_semantic_output (Refusal_piece _ _ delta) = (delta \<noteq> [])"
| "starts_semantic_output (Refusal_done _ _ v) = (v \<noteq> [])"
| "starts_semantic_output (Terminal _ _) = True"
| "starts_semantic_output _ = False"

section \<open>The state of a conversion\<close>

datatype stream_error = Ledger_threw ledger_error | Emitter_threw emitter_error | Stream_invalid

record conversion =
  the_ledger :: ledger
  the_emitter :: messages_emitter
  the_usage :: semantic_usage
  output_started :: bool

type_synonym 'a convert = "(stream_error, conversion, 'a) errst"

definition on_ledger :: "'a ledger_op \<Rightarrow> 'a convert" where
  "on_ledger m s = (case m (the_ledger s) of
     Inl e \<Rightarrow> Inl (Ledger_threw e)
   | Inr (x, l) \<Rightarrow> Inr (x, s\<lparr>the_ledger := l\<rparr>))"

definition on_emitter :: "'a emit_op \<Rightarrow> 'a convert" where
  "on_emitter m s = (case m (the_emitter s) of
     Inl e \<Rightarrow> Inl (Emitter_threw e)
   | Inr (x, t) \<Rightarrow> Inr (x, s\<lparr>the_emitter := t\<rparr>))"

definition reports :: "converted_emission \<Rightarrow> unit convert" where
  "reports e = on_emitter (smodify (\<lambda>s. s\<lparr>out := out s @ [e]\<rparr>))"

definition reconcile_snapshot :: "jsstr \<Rightarrow> jsstr \<Rightarrow> jsstr convert" where
  "reconcile_snapshot current snapshot =
     sthen (srequire (starts_with snapshot current) Stream_invalid) (sreturn (drop (length current) snapshot))"

definition new_conversion :: "jsstr \<Rightarrow> int \<Rightarrow> degradation list \<Rightarrow> conversion" where
  "new_conversion uuid budget degradations =
     \<lparr> the_ledger = new_ledger budget,
       the_emitter = (new_emitter uuid)\<lparr>out := map Degradation_report degradations\<rparr>,
       the_usage = \<lparr> input_tokens = 0, output_tokens = 0, cache_read_tokens = 0, cache_write_tokens = 0,
         reasoning_tokens = 0, reported_reasoning_tokens = None \<rparr>,
       output_started = False \<rparr>"

section \<open>One event\<close>

definition start_output :: "emitter_context \<Rightarrow> semantic_event \<Rightarrow> unit convert" where
  "start_output ctx e = sbind (sget output_started) (\<lambda>started.
     swhen (\<not> started \<and> starts_semantic_output e)
       (sthen (smodify (\<lambda>s. s\<lparr>output_started := True\<rparr>))
       (sthen (reports First_semantic)
       (on_emitter (emitter_start ctx)))))"

text \<open>A delta goes to the client once output has started; before, it reserves the message.\<close>

definition pass_on :: "bool \<Rightarrow> unit emit_op \<Rightarrow> unit emit_op \<Rightarrow> unit convert" where
  "pass_on reserves now before = sbind (sget output_started) (\<lambda>started.
     if started then on_emitter now else swhen reserves (on_emitter before))"

definition convert_content ::
  "emitter_context \<Rightarrow> content_kind \<Rightarrow> jsstr \<Rightarrow> jsstr option \<Rightarrow> jsstr \<Rightarrow> unit convert" where
  "convert_content ctx kind key order_key delta =
     (let message_key = or_default order_key key
      in sthen (on_ledger (case kind of
             Text_kind \<Rightarrow> append_text key delta message_key
           | Refusal_kind \<Rightarrow> append_refusal key delta message_key))
         (pass_on True (content_delta ctx kind key delta order_key) (reserve_message message_key)))"

definition convert_content_done ::
  "emitter_context \<Rightarrow> content_kind \<Rightarrow> jsstr \<Rightarrow> jsstr option \<Rightarrow> jsstr \<Rightarrow> unit convert" where
  "convert_content_done ctx kind key order_key snapshot =
     (let message_key = or_default order_key key
      in sbind (on_ledger (case kind of
             Text_kind \<Rightarrow> observe_text key message_key
           | Refusal_kind \<Rightarrow> observe_refusal key message_key)) (\<lambda>first.
         sbind (sget (\<lambda>s. case kind of
             Text_kind \<Rightarrow> text_value key (the_ledger s)
           | Refusal_kind \<Rightarrow> refusal_value key (the_ledger s))) (\<lambda>current.
         sbind (reconcile_snapshot current snapshot) (\<lambda>suffix.
         if suffix \<noteq> [] then
           sthen (on_ledger (case kind of
               Text_kind \<Rightarrow> append_text key suffix message_key
             | Refusal_kind \<Rightarrow> append_refusal key suffix message_key))
           (pass_on False (content_delta ctx kind key suffix order_key) (reserve_message message_key))
         else
           swhen first
             (pass_on True (content_delta ctx kind key [] order_key) (reserve_message message_key))))))"

definition convert_snapshot ::
  "jsstr \<Rightarrow> jsstr \<Rightarrow> jsstr option \<Rightarrow> presentation \<Rightarrow> nat \<Rightarrow> jsstr \<Rightarrow> unit convert" where
  "convert_snapshot key part_key item_id pres index v =
     sbind (sget (\<lambda>s. reasoning_value part_key (the_ledger s))) (\<lambda>current.
     sbind (reconcile_snapshot current v) (\<lambda>suffix.
     swhen (suffix \<noteq> []) (on_ledger (append_reasoning key part_key item_id pres index suffix))))"

definition convert_tool_done ::
  "emitter_context \<Rightarrow> jsstr \<Rightarrow> jsstr option \<Rightarrow> bool option \<Rightarrow> unit convert" where
  "convert_tool_done ctx key snapshot completed =
     sbind (on_ledger (finish_tool key snapshot (completed = Some True) True)) (\<lambda>suffix.
     sthen (swhen (suffix \<noteq> []) (on_emitter (emitter_tool_arguments ctx key suffix)))
     (swhen (completed \<noteq> Some False)
       (sbind (on_ledger (tool_of key)) (\<lambda>t.
       on_emitter (emitter_tool_done ctx key (arguments_json t))))))"

definition close_tool_of :: "emitter_context \<Rightarrow> jsstr \<Rightarrow> unit convert" where
  "close_tool_of ctx key = sbind (on_ledger (tool_of key)) (\<lambda>t.
     on_emitter (emitter_tool_done ctx key (arguments_json t)))"

definition convert_terminal :: "emitter_context \<Rightarrow> item_status \<Rightarrow> finish_reason \<Rightarrow> unit convert" where
  "convert_terminal ctx status reason =
     sthen (swhen (status = Completed)
       (sthen (on_ledger (finish_open_tools (\<lambda>_. True)))
       (sbind (sget (\<lambda>s. tool_keys (the_ledger s))) (sfor (close_tool_of ctx)))))
     (sbind (on_ledger (finish_open_reasoning status)) (\<lambda>rs.
     sthen (sfor (\<lambda>r. on_emitter (reasoning_done ctx r)) rs)
     (sbind (on_ledger (items status)) (\<lambda>outs.
     sbind (sget the_usage) (\<lambda>usage.
     sthen (on_emitter (emitter_finish ctx status reason usage outs))
     (reports (Terminal_report status)))))))"

fun convert_body :: "emitter_context \<Rightarrow> semantic_event \<Rightarrow> unit convert" where
  "convert_body ctx Semantic_progress = sreturn ()"
| "convert_body ctx (Reasoning_started key item_id ms os) = on_ledger (start_reasoning key item_id ms os)"
| "convert_body ctx (Reasoning_delta key part_key item_id pres index delta) =
     swhen (delta \<noteq> []) (on_ledger (append_reasoning key part_key item_id pres index delta))"
| "convert_body ctx (Reasoning_snapshot key part_key item_id pres index v) =
     convert_snapshot key part_key item_id pres index v"
| "convert_body ctx (Reasoning_done key status) =
     sbind (on_ledger (finish_reasoning key status)) (\<lambda>r. on_emitter (reasoning_done ctx r))"
| "convert_body ctx (Message_started key) =
     sthen (on_ledger (start_message key)) (on_emitter (emitter_message_start key))"
| "convert_body ctx (Text_piece key order_key delta) = convert_content ctx Text_kind key order_key delta"
| "convert_body ctx (Text_done key order_key v) = convert_content_done ctx Text_kind key order_key v"
| "convert_body ctx (Refusal_piece key order_key delta) = convert_content ctx Refusal_kind key order_key delta"
| "convert_body ctx (Refusal_done key order_key v) = convert_content_done ctx Refusal_kind key order_key v"
| "convert_body ctx (Content_done key order_key index) =
     sthen (on_ledger (finish_content key)) (on_emitter (content_done ctx order_key index))"
| "convert_body ctx (Item_done index item_type) =
     sthen (swhen (item_type = js ''message'') (on_ledger (finish_message (response_message_key index))))
     (on_emitter (item_done ctx index))"
| "convert_body ctx (Tool_started key item_id call_id name) =
     sthen (on_ledger (start_tool key item_id call_id name))
     (on_emitter (emitter_tool_start ctx key call_id name))"
| "convert_body ctx (Arguments_delta key delta) =
     sthen (on_ledger (append_tool_arguments key delta)) (on_emitter (emitter_tool_arguments ctx key delta))"
| "convert_body ctx (Tool_done key snapshot completed) = convert_tool_done ctx key snapshot completed"
| "convert_body ctx (Usage_update u) =
     sthen (smodify (\<lambda>s. s\<lparr>the_usage := u\<rparr>)) (reports (Usage_report u))"
| "convert_body ctx (Terminal status reason) = convert_terminal ctx status reason"

section \<open>The stream\<close>

text \<open>
  The loop over the decoded events. It ends with the terminal event; a stream that runs out before,
  or an event that throws, fails it. The client keeps what was written before: the emissions of an
  event are collected before they are yielded, so a failing event adds none but those of its start
  (the events a failing terminal has already yielded are left out).
\<close>

datatype conversion_end = Stream_done item_status | Stream_failed stream_error

definition convert_event :: "emitter_context \<Rightarrow> semantic_event \<Rightarrow> conversion \<Rightarrow> stream_error option \<times> conversion" where
  "convert_event ctx e s = (case start_output ctx e s of
     Inl err \<Rightarrow> (Some err, s)
   | Inr (_, t) \<Rightarrow> (case convert_body ctx e t of
       Inl err \<Rightarrow> (Some err, t)
     | Inr (_, u) \<Rightarrow> (None, u)))"

fun terminal_status :: "semantic_event \<Rightarrow> item_status option" where
  "terminal_status (Terminal status _) = Some status"
| "terminal_status _ = None"

fun convert_stream :: "emitter_context \<Rightarrow> semantic_event list \<Rightarrow> conversion \<Rightarrow> conversion_end \<times> conversion" where
  "convert_stream ctx [] s = (Stream_failed Stream_invalid, s)"
| "convert_stream ctx (e # es) s = (case convert_event ctx e s of
     (Some err, t) \<Rightarrow> (Stream_failed err, t)
   | (None, t) \<Rightarrow> (case terminal_status e of
         Some status \<Rightarrow> (Stream_done status, t)
       | None \<Rightarrow> convert_stream ctx es t))"

end
