(* ===== verification/Messages_Delivery.thy ===== *)
theory Messages_Delivery
  imports Messages_Blocks Messages_Stream Ledger_Items
begin

text \<open>
  What the conversion of a stream for a Messages client delivers: the ledger and the emitter are fed the
  same events, and \<open>conv_ok\<close> couples them. A tool call of the ledger and its tool in the emitter have the
  same call id, name and arguments; a tool whose block is closed is done in the ledger, so no arguments
  follow the end of a block. This needs the order in which the decoders give their events
  (\<open>orderly\<close>), which \<open>decodeResponsesStream\<close> keeps by giving the end of a call before the end of its item
  and by refusing events of finished items.
\<close>

section \<open>Ledger methods that leave the tools alone\<close>

lemma tools_of_maps [simp]:
  "tools (on_part key g s) = tools s" "tools (on_message key f s) = tools s"
  "tools (on_reasoning key h s) = tools s" "tools (on_reasoning_part key k s) = tools s"
  "tools (add_message key s) = tools s" "tools (add_reasoning key item_id ms os s) = tools s"
  by (simp_all add: on_part_def on_message_def on_reasoning_def on_reasoning_part_def add_message_def add_reasoning_def)

lemma tools_freeze_parts [simp]: "tools (fold freeze_part ks s) = tools s"
  by (induction ks arbitrary: s) (simp_all add: freeze_part_def)

lemma keeps_tools_charge:
  "keeps (\<lambda>s. tools s = ts) (reserve_bytes n)"
  "keeps (\<lambda>s. tools s = ts) (reserve_text v)"
  "keeps (\<lambda>s. tools s = ts) (reserve_opt v')"
  "keeps (\<lambda>s. tools s = ts) (reserve_opaque st)"
  "keeps (\<lambda>s. tools s = ts) (rebind_opaque st st')"
  "keeps (\<lambda>s. tools s = ts) (reserve_messages_state ms)"
proof -
  show bytes: "keeps (\<lambda>s. tools s = ts) (reserve_bytes n)" for n
    by (auto intro!: tripleI simp: reserve_bytes_def demand_def)
  show text_: "keeps (\<lambda>s. tools s = ts) (reserve_text v)" for v
    unfolding reserve_text_def by (rule bytes)
  show "keeps (\<lambda>s. tools s = ts) (reserve_opt v')"
    unfolding reserve_opt_def by (auto split: option.split intro: keeps_return text_)
  show opaque: "keeps (\<lambda>s. tools s = ts) (reserve_opaque st)" for st
    unfolding reserve_opaque_def by (intro keeps_bind keeps_lift bytes)
  show "keeps (\<lambda>s. tools s = ts) (rebind_opaque st st')"
    unfolding rebind_opaque_def by (intro keeps_bind keeps_then keeps_lift keeps_modify opaque) simp
  show "keeps (\<lambda>s. tools s = ts) (reserve_messages_state ms)"
    unfolding reserve_messages_state_def by (cases ms) (auto intro!: keeps_then text_)
qed

lemmas keeps_tools_intros = keeps_intros keeps_modify keeps_tools_charge

lemma keeps_tools_messages:
  "keeps (\<lambda>s. tools s = ts) (start_message key)"
  "keeps (\<lambda>s. tools s = ts) (observe_text key order_key)"
  "keeps (\<lambda>s. tools s = ts) (observe_refusal key order_key)"
  "keeps (\<lambda>s. tools s = ts) (append_text key delta order_key)"
  "keeps (\<lambda>s. tools s = ts) (append_refusal key delta order_key)"
  "keeps (\<lambda>s. tools s = ts) (finish_content key)"
  "keeps (\<lambda>s. tools s = ts) (finish_message key)"
  unfolding start_message_def observe_text_def observe_refusal_def append_text_def append_refusal_def
    finish_content_def finish_message_def message_of_def message_part_def open_for_def demand_def invalid_def
  by (intro keeps_tools_intros; simp)+

lemma keeps_tools_reasoning_of: "keeps (\<lambda>s. tools s = ts) (reasoning_of key item_id ms os)"
  unfolding reasoning_of_def create_reasoning_def update_messages_state_def update_opaque_state_def
    current_reasoning_def demand_def invalid_def
  by (intro keeps_tools_intros; simp)

lemma keeps_tools_item: "keeps (\<lambda>s. tools s = ts) (reasoning_item key r)"
proof -
  have "keeps (\<lambda>s. tools s = ts) (out_parts_of ks)" for ks
    by (induction ks) (simp_all only: out_parts_of.simps invalid_def, (intro keeps_intros; simp)+)
  then show ?thesis unfolding reasoning_item_def by (intro keeps_intros)
qed

lemma keeps_tools_reasoning:
  "keeps (\<lambda>s. tools s = ts) (start_reasoning key item_id ms os)"
  "keeps (\<lambda>s. tools s = ts) (append_reasoning key part_key item_id pres index delta)"
  "keeps (\<lambda>s. tools s = ts) (finish_reasoning key status)"
  "keeps (\<lambda>s. tools s = ts) (finish_open_reasoning status)"
proof -
  show "keeps (\<lambda>s. tools s = ts) (start_reasoning key item_id ms os)"
    unfolding start_reasoning_def by (intro keeps_intros keeps_tools_reasoning_of)
  show "keeps (\<lambda>s. tools s = ts) (append_reasoning key part_key item_id pres index delta)"
    unfolding append_reasoning_def reasoning_part_def demand_def Let_def
    by (intro keeps_tools_intros keeps_tools_reasoning_of; simp)
  show finish: "keeps (\<lambda>s. tools s = ts) (finish_reasoning key status)" for key
    unfolding finish_reasoning_def current_reasoning_def demand_def invalid_def
    by (intro keeps_intros keeps_tools_item keeps_tools_freeze)
  show "keeps (\<lambda>s. tools s = ts) (finish_open_reasoning status)"
    unfolding finish_open_reasoning_def finish_open_entry_def by (intro keeps_intros finish)
qed

lemma keeps_tools_items: "keeps (\<lambda>s. tools s = ts) (items status)"
proof -
  have "keeps (\<lambda>s. tools s = ts) (entry_items status e)" for e
    by (rule tripleI) (cases e, force dest: tripleD [OF entry_items_tools])
  then show ?thesis unfolding items_def by (intro keeps_intros)
qed

lemma keeps_tools_tool_of: "keeps (\<lambda>s. tools s = ts) (tool_of key)"
  unfolding tool_of_def invalid_def by (intro keeps_intros)

section \<open>The tools of the ledger and of the emitter\<close>

text \<open>A tool call of the ledger and its tool in the emitter.\<close>

definition same_tool :: "tool_state \<Rightarrow> emitter_tool \<Rightarrow> bool" where
  "same_tool t u \<longleftrightarrow> call_id_of u = tool_call_id t \<and> name_of u = tool_name t \<and>
     streamed_arguments u = arguments_json t \<and> (emitter_done u \<or> item_ended u \<or> emitter_closed u \<longrightarrow> tool_done t)"

definition coupled :: "ledger \<Rightarrow> messages_emitter \<Rightarrow> bool" where
  "coupled l s \<longleftrightarrow> (\<forall>key. rel_option same_tool (find_tool key l) (find_emitter_tool key s))"

text \<open>What a change that does not touch a tool leaves of it.\<close>

definition tool_kept :: "bool \<Rightarrow> emitter_tool \<Rightarrow> emitter_tool \<Rightarrow> bool" where
  "tool_kept fin t u \<longleftrightarrow> call_id_of u = call_id_of t \<and> name_of u = name_of t \<and>
     streamed_arguments u = streamed_arguments t \<and> emitter_done u = emitter_done t \<and> item_ended u = item_ended t \<and>
     (emitter_closed u \<longrightarrow> emitter_closed t \<or> emitter_done t \<or> item_ended t \<or> fin)"

lemma change_keeps_tool:
  assumes "emit_change fin ks s t" "key \<notin> ks"
  shows "rel_option (tool_kept fin) (find_emitter_tool key s) (find_emitter_tool key t)"
proof -
  have refl: "rel_option (tool_kept fin) x x" for x
    by (cases x) (simp_all add: tool_kept_def)
  from assms(1) show ?thesis
  proof cases
    case (start_tool k tool)
    then have "find_emitter_tool key t = (if key = k then Some (tool\<lparr>stream_index := Some (next_index s)\<rparr>)
        else find_emitter_tool key s)"
      by (simp add: view_def find_emitter_tool_def map_of_update_entry)
    then show ?thesis using start_tool refl by (auto simp: tool_kept_def)
  next
    case (close_tool k tool i)
    then have "find_emitter_tool key t = (if key = k then Some (tool\<lparr>emitter_closed := True\<rparr>)
        else find_emitter_tool key s)"
      by (simp add: view_def find_emitter_tool_def map_of_update_entry)
    then show ?thesis using close_tool refl by (auto simp: tool_kept_def)
  next
    case (add_tool k tool)
    then have "find_emitter_tool key t = find_emitter_tool key s"
      using assms(2) by (auto simp: view_def find_emitter_tool_def map_add_def split: option.split)
    then show ?thesis using refl by simp
  qed (use assms(2) refl in \<open>auto simp: view_def find_emitter_tool_def map_of_update_entry\<close>)
qed

lemma tool_kept_trans: "tool_kept fin t u \<Longrightarrow> tool_kept fin u v \<Longrightarrow> tool_kept fin t v"
  by (auto simp: tool_kept_def)

lemma changes_keep_tool:
  "emit_changes fin ks s t \<Longrightarrow> key \<notin> ks \<Longrightarrow>
   rel_option (tool_kept fin) (find_emitter_tool key s) (find_emitter_tool key t)"
proof (induction rule: rtranclp_induct)
  case base
  then show ?case by (cases "find_emitter_tool key s") (simp_all add: tool_kept_def)
next
  case (step u v)
  then show ?case
    using change_keeps_tool [OF step.hyps(2) step.prems]
    by (cases "find_emitter_tool key s"; cases "find_emitter_tool key u"; cases "find_emitter_tool key v")
      (auto intro: tool_kept_trans)
qed

lemma same_tool_kept: "same_tool t u \<Longrightarrow> tool_kept False u v \<Longrightarrow> same_tool t v"
  by (auto simp: same_tool_def tool_kept_def)

lemma coupled_calm:
  assumes "coupled l s" "emit_changes False {} s t" "tools l' = tools l"
  shows "coupled l' t"
  unfolding coupled_def
proof
  fix key
  have "rel_option (tool_kept False) (find_emitter_tool key s) (find_emitter_tool key t)"
    by (rule changes_keep_tool [OF assms(2)]) simp
  moreover have "rel_option same_tool (find_tool key l) (find_emitter_tool key s)"
    using assms(1) by (simp add: coupled_def)
  moreover have "find_tool key l' = find_tool key l" using assms(3) by (simp add: find_tool_def)
  ultimately show "rel_option same_tool (find_tool key l') (find_emitter_tool key t)"
    by (cases "find_tool key l"; cases "find_emitter_tool key s"; cases "find_emitter_tool key t")
      (auto intro: same_tool_kept)
qed

section \<open>Tools not written before the stream may write them\<close>

text \<open>Only a Responses stream writes tool blocks before its end.\<close>

definition unwritten :: "emitter_context \<Rightarrow> messages_emitter \<Rightarrow> bool" where
  "unwritten ctx s \<longleftrightarrow> (upstream_protocol ctx \<noteq> Responses \<longrightarrow> emitted_response_tools s = {})"

lemma unwritten_responses: "upstream_protocol ctx = Responses \<Longrightarrow> keeps (unwritten ctx) m"
  by (auto intro!: tripleI simp: unwritten_def)

lemma keeps_unwritten_basic:
  "keeps (unwritten ctx) (yields e)" "keeps (unwritten ctx) take_index" "keeps (unwritten ctx) close_active_text"
  "keeps (unwritten ctx) (on_emitter_tool key g)" "keeps (unwritten ctx) (mark_reasoning_emitted key)"
  "keeps (unwritten ctx) (first_key key)" "keeps (unwritten ctx) (record_streamed key kind delta)"
  by (auto intro!: tripleI simp: unwritten_def yields_def take_index_def close_active_text_def on_emitter_tool_def
      mark_reasoning_emitted_def first_key_def record_streamed_def Let_def split: option.splits)

lemma unwritten_modify: "(\<And>s. emitted_response_tools (g s) = emitted_response_tools s) \<Longrightarrow> keeps (unwritten ctx) (smodify g)"
  by (intro keeps_modify) (simp add: unwritten_def)

lemma keeps_unwritten_start: "keeps (unwritten ctx) (emitter_start c)"
  unfolding emitter_start_def by (intro keeps_intros keeps_unwritten_basic)

lemma keeps_unwritten_text: "keeps (unwritten ctx) (content_delta c kind key delta order_key)"
  unfolding content_delta_def emit_live_text_def open_text_def queue_content_def refuse_def Let_def
  by (intro keeps_intros keeps_unwritten_basic)
    (auto split: option.split intro!: keeps_intros keeps_unwritten_basic unwritten_modify)

lemma keeps_unwritten_reasoning: "keeps (unwritten ctx) (reasoning_done c item)"
proof -
  have "keeps (unwritten ctx) (carrier_token c item)"
    unfolding carrier_token_def create_stream_carrier_def refuse_def
    by (intro keeps_intros unwritten_modify) simp_all
  then have "keeps (unwritten ctx) (emit_reasoning c item b)" for b
    unfolding emit_reasoning_def emit_carrier_block_def emit_thinking_block_def Let_def refuse_def
    by (intro keeps_bind keeps_get)
      (auto split: option.split messages_reasoning.split intro!: keeps_intros keeps_unwritten_basic)
  then show ?thesis
    unfolding reasoning_done_def by (intro keeps_intros unwritten_modify) simp_all
qed

lemma keeps_unwritten_tools:
  "keeps (unwritten ctx) (emitter_tool_start ctx key call_id name)"
  "keeps (unwritten ctx) (emitter_tool_arguments c key delta)"
  "keeps (unwritten ctx) (emitter_tool_done c key arguments)"
proof -
  show "keeps (unwritten ctx) (emitter_tool_start ctx key call_id name)"
  proof (cases "upstream_protocol ctx = Responses")
    case False
    then show ?thesis
      using tripleD [OF keeps_unwritten_basic(3)]
      by (auto intro!: tripleI simp: emitter_tool_start_def swhen_def) (simp add: unwritten_def)
  qed (rule unwritten_responses)
  show "keeps (unwritten ctx) (emitter_tool_arguments c key delta)"
    unfolding emitter_tool_arguments_def refuse_def
    by (intro keeps_intros keeps_unwritten_basic unwritten_modify) simp_all
  show "keeps (unwritten ctx) (emitter_tool_done c key arguments)"
    unfolding emitter_tool_done_def refuse_def by (intro keeps_intros keeps_unwritten_basic)
qed

section \<open>The invariant of a conversion\<close>

definition conv_ok :: "emitter_context \<Rightarrow> jsstr set \<Rightarrow> conversion \<Rightarrow> bool" where
  "conv_ok ctx opens s \<longleftrightarrow> ledger_ok (the_ledger s) \<and> (\<exists>bs. client_view (the_emitter s) bs) \<and>
     coupled (the_ledger s) (the_emitter s) \<and> unwritten ctx (the_emitter s) \<and>
     (\<forall>key t. find_tool key (the_ledger s) = Some t \<longrightarrow> \<not> tool_done t \<longrightarrow> key \<in> opens)"

lemma on_ledger_Inr [simp]:
  "on_ledger m s = Inr (x, t) \<longleftrightarrow> (\<exists>l. m (the_ledger s) = Inr (x, l) \<and> t = s\<lparr>the_ledger := l\<rparr>)"
  by (auto simp: on_ledger_def split: sum.splits)

lemma on_emitter_Inr [simp]:
  "on_emitter m s = Inr (x, t) \<longleftrightarrow> (\<exists>u. m (the_emitter s) = Inr (x, u) \<and> t = s\<lparr>the_emitter := u\<rparr>)"
  by (auto simp: on_emitter_def split: sum.splits)

lemma conv_ok_ledger:
  assumes "within changes m" "\<And>ts. keeps (\<lambda>s. tools s = ts) m"
  shows "keeps (conv_ok ctx opens) (on_ledger m)"
proof (rule tripleI)
  fix s t :: conversion and x
  assume ok: "conv_ok ctx opens s" and "on_ledger m s = Inr (x, t)"
  then obtain l where l: "m (the_ledger s) = Inr (x, l)" and t: "t = s\<lparr>the_ledger := l\<rparr>" by auto
  have same: "tools l = tools (the_ledger s)" by (rule tripleD [OF assms(2) l refl])
  moreover have "ledger_ok l" using ok withinD [OF assms(1) l] by (auto simp: conv_ok_def intro: ledger_ok_changes)
  ultimately show "conv_ok ctx opens t"
    using ok by (simp add: t conv_ok_def coupled_def find_tool_def)
qed

lemma conv_ok_emitter:
  assumes "within (emit_changes False {}) m" "keeps (unwritten ctx) m"
  shows "keeps (conv_ok ctx opens) (on_emitter m)"
proof (rule tripleI)
  fix s t :: conversion and x
  assume ok: "conv_ok ctx opens s" and "on_emitter m s = Inr (x, t)"
  then obtain u where u: "m (the_emitter s) = Inr (x, u)" and t: "t = s\<lparr>the_emitter := u\<rparr>" by auto
  have "emit_changes False {} (the_emitter s) u" by (rule withinD [OF assms(1) u])
  then show "conv_ok ctx opens t"
    using ok changes_keep_view tripleD [OF assms(2) u] coupled_calm
    by (auto simp: t conv_ok_def)
qed

section \<open>Tool calls\<close>

lemma emitter_tool_start_result:
  assumes "emitter_tool_start ctx key call_id name s = Inr (x, t)"
  shows "\<exists>u. find_emitter_tool key t = Some u \<and> call_id_of u = call_id \<and> name_of u = name \<and>
    streamed_arguments u = [] \<and> \<not> emitter_done u \<and> \<not> item_ended u \<and> \<not> emitter_closed u"
proof -
  let ?new = "\<lparr> call_id_of = call_id, name_of = name, streamed_arguments = [], emitter_done = False,
    stream_index = None, emitter_closed = False, item_ended = False \<rparr>"
  obtain s1 where s1: "find_emitter_tool key s1 = None"
    and live: "swhen (upstream_protocol ctx = Responses \<and> allows_item key (response_frontier s1)) (emit_tool key False)
       (s1\<lparr>buffer_after_tool := True, emitter_tools := emitter_tools s1 @ [(key, ?new)]\<rparr>) = Inr (x, t)"
    using assms by (auto simp: emitter_tool_start_def)
  let ?s2 = "s1\<lparr>buffer_after_tool := True, emitter_tools := emitter_tools s1 @ [(key, ?new)]\<rparr>"
  have "within (emit_changes False {}) (swhen b (emit_tool key False))" for b
    by (intro emi.within_when within_emit_tool) simp
  then have "emit_changes False {} ?s2 t" using live by (rule withinD)
  then have "rel_option (tool_kept False) (find_emitter_tool key ?s2) (find_emitter_tool key t)"
    by (rule changes_keep_tool) simp
  moreover have "find_emitter_tool key ?s2 = Some ?new"
    using s1 by (simp add: find_emitter_tool_def map_add_def)
  ultimately show ?thesis by (auto simp: rel_option_iff tool_kept_def split: option.splits)
qed

lemma emitter_arguments_result:
  "emitter_tool_arguments ctx key d s = Inr (x, t) \<Longrightarrow> find_emitter_tool key s = Some u \<Longrightarrow>
   find_emitter_tool key t = Some (u\<lparr>streamed_arguments := streamed_arguments u @ d\<rparr>)"
  by (auto simp: emitter_tool_arguments_def on_emitter_tool_def yields_def swhen_def refuse_def
      find_emitter_tool_def map_of_update_entry split: option.splits if_splits)

lemma emitter_done_result:
  assumes "emitter_tool_done ctx key arguments s = Inr (x, t)" "find_emitter_tool key s = Some u"
  shows "\<exists>v. find_emitter_tool key t = Some v \<and> call_id_of v = call_id_of u \<and> name_of v = name_of u \<and>
    streamed_arguments v = streamed_arguments u"
proof -
  obtain s1 where s1: "close_active_text s = Inr ((), s1)" using assms(1) by (auto simp: emitter_tool_done_def)
  have "find_emitter_tool key s1 = Some u"
    using tripleD [OF keeps_tools_close [of "\<lambda>ts. map_of ts key = Some u"] s1] assms(2) by (simp add: find_emitter_tool_def)
  then show ?thesis
    using assms(1) s1
    by (auto simp: emitter_tool_done_def on_emitter_tool_def yields_def swhen_def
        find_emitter_tool_def map_of_update_entry split: option.splits if_splits)
qed

text \<open>A change that touches one tool keeps the others coupled.\<close>

lemma coupled_touched:
  assumes "coupled l s" "emit_changes False {key} s t"
    and others: "\<And>k. k \<noteq> key \<Longrightarrow> find_tool k l' = find_tool k l"
    and touched: "rel_option same_tool (find_tool key l') (find_emitter_tool key t)"
  shows "coupled l' t"
  unfolding coupled_def
proof
  fix k
  show "rel_option same_tool (find_tool k l') (find_emitter_tool k t)"
  proof (cases "k = key")
    case False
    then have "rel_option (tool_kept False) (find_emitter_tool k s) (find_emitter_tool k t)"
      by (intro changes_keep_tool [OF assms(2)]) simp
    moreover have "rel_option same_tool (find_tool k l) (find_emitter_tool k s)"
      using assms(1) by (simp add: coupled_def)
    ultimately show ?thesis
      unfolding others [OF False]
      by (cases "find_tool k l"; cases "find_emitter_tool k s"; cases "find_emitter_tool k t")
        (auto intro: same_tool_kept)
  qed (simp add: touched)
qed

lemma coupledD:
  "coupled l s \<Longrightarrow> find_tool key l = Some t \<Longrightarrow> \<exists>u. find_emitter_tool key s = Some u \<and> same_tool t u"
  by (auto simp: coupled_def rel_option_iff dest!: spec [of _ key] split: option.splits)

lemma coupled_ledger:
  assumes "coupled l s" "\<And>key. rel_option (\<lambda>t t'. tool_call_id t' = tool_call_id t \<and> tool_name t' = tool_name t \<and>
      arguments_json t' = arguments_json t \<and> (tool_done t \<longrightarrow> tool_done t')) (find_tool key l) (find_tool key l')"
  shows "coupled l' s"
  unfolding coupled_def
proof
  fix key
  show "rel_option same_tool (find_tool key l') (find_emitter_tool key s)"
    using assms(2) [of key] assms(1)
    by (cases "find_tool key l"; cases "find_tool key l'"; cases "find_emitter_tool key s")
      (auto simp: coupled_def same_tool_def dest!: spec [of _ key])
qed

lemma takes_arguments_open:
  assumes "coupled l s" "find_tool key l = Some t" "\<not> tool_done t" "client_view s bs" "unwritten ctx s"
  shows "takes_arguments ctx key s"
proof -
  obtain u where u: "find_emitter_tool key s = Some u" "same_tool t u" using coupledD [OF assms(1,2)] by blast
  have "upstream_protocol ctx = Responses" if "stream_index u \<noteq> None"
  proof -
    have "key \<in> emitted_response_tools s"
      using blocks_matchD(6) [OF client_viewD [OF assms(4)], of key] u(1) that by (auto simp: find_emitter_tool_def)
    then show ?thesis using assms(5) by (auto simp: unwritten_def)
  qed
  then show ?thesis using u assms(3) by (auto simp: takes_arguments_def same_tool_def)
qed

text \<open>Arguments and the end of a call, on the emitter's side.\<close>

lemma conv_arguments:
  assumes ok: "coupled l s" "client_view s bs" "unwritten ctx s"
    and tool: "find_tool key l = Some t" "\<not> tool_done t"
    and run: "emitter_tool_arguments ctx key d s = Inr (x, s')"
    and next_tool: "find_tool key l' = Some t'" "tool_call_id t' = tool_call_id t" "tool_name t' = tool_name t"
      "arguments_json t' = arguments_json t @ d"
    and others: "\<And>k. k \<noteq> key \<Longrightarrow> find_tool k l' = find_tool k l"
  shows "coupled l' s' \<and> (\<exists>bs'. client_view s' bs') \<and> unwritten ctx s'"
proof (intro conjI)
  have changes: "emit_changes False {key} s s'"
    by (rule within_fromD [OF within_tool_arguments run takes_arguments_open [OF ok(1) tool ok(2,3)]]) simp
  then show "\<exists>bs'. client_view s' bs'" using ok(2) by (rule changes_keep_view)
  show "unwritten ctx s'" by (rule tripleD [OF keeps_unwritten_tools(2) run ok(3)])
  obtain u where u: "find_emitter_tool key s = Some u" "same_tool t u" using coupledD [OF ok(1) tool(1)] by blast
  show "coupled l' s'"
    by (rule coupled_touched [OF ok(1) changes others])
      (use emitter_arguments_result [OF run u(1)] u(2) next_tool tool(2) in \<open>auto simp: same_tool_def\<close>)
qed

lemma conv_tool_done:
  assumes ok: "coupled l s" "client_view s bs" "unwritten ctx s"
    and tool: "find_tool key l = Some t" "tool_done t"
    and run: "emitter_tool_done ctx key arguments s = Inr (x, s')"
  shows "coupled l s' \<and> (\<exists>bs'. client_view s' bs') \<and> unwritten ctx s'"
proof (intro conjI)
  have changes: "emit_changes False {key} s s'"
    by (rule withinD [OF within_tool_done run]) simp
  then show "\<exists>bs'. client_view s' bs'" using ok(2) by (rule changes_keep_view)
  show "unwritten ctx s'" by (rule tripleD [OF keeps_unwritten_tools(3) run ok(3)])
  obtain u where u: "find_emitter_tool key s = Some u" "same_tool t u" using coupledD [OF ok(1) tool(1)] by blast
  show "coupled l s'"
    by (rule coupled_touched [OF ok(1) changes refl])
      (use emitter_done_result [OF run u(1)] u(2) tool in \<open>auto simp: same_tool_def\<close>)
qed

text \<open>And on the ledger's.\<close>

lemma find_tool_charge [simp]: "find_tool k (s\<lparr>used_bytes := n\<rparr>) = find_tool k s"
  by (simp add: find_tool_def)

lemma start_tool_result:
  assumes "start_tool key item_id call_id name s = Inr (x, t)"
  shows "find_tool key s = None"
    and "\<exists>v. find_tool key t = Some v \<and> tool_call_id v = call_id \<and> tool_name v = name \<and> arguments_json v = [] \<and>
      \<not> tool_done v"
    and "k \<noteq> key \<Longrightarrow> find_tool k t = find_tool k s"
proof -
  have opt: "tools u = tools s" if "reserve_opt i s = Inr (y, u)" for i s u y
    by (rule tripleD [OF keeps_tools_charge(3) that refl])
  show "find_tool key s = None" using assms by (auto simp: start_tool_def demand_def)
  with assms show "\<exists>v. find_tool key t = Some v \<and> tool_call_id v = call_id \<and> tool_name v = name \<and>
      arguments_json v = [] \<and> \<not> tool_done v"
    by (auto simp: start_tool_def demand_def find_tool_def map_add_def dest!: opt)
  show "k \<noteq> key \<Longrightarrow> find_tool k t = find_tool k s"
    using assms by (auto simp: start_tool_def demand_def find_tool_def map_add_def dest!: opt split: option.split)
qed

lemma append_arguments_result:
  assumes "append_tool_arguments key d s = Inr (x, t)"
  shows "\<exists>v. find_tool key s = Some v \<and> \<not> tool_done v \<and>
      find_tool key t = Some (v\<lparr>arguments_json := arguments_json v @ d\<rparr>)"
    and "k \<noteq> key \<Longrightarrow> find_tool k t = find_tool k s"
  using assms by (auto simp: append_tool_arguments_def tool_of_def demand_def invalid_def find_on_tool split: option.splits)

lemma finish_tool_others:
  "finish_tool key snapshot completed validate s = Inr (suffix, t) \<Longrightarrow> k \<noteq> key \<Longrightarrow> find_tool k t = find_tool k s"
  by (auto simp: finish_tool_def tool_of_def apply_snapshot_def demand_def invalid_def check_arguments_def swhen_def
      find_on_tool Let_def split: option.splits if_splits)

lemma finish_tool_done:
  "finish_tool key snapshot completed validate s = Inr (suffix, t) \<Longrightarrow> find_tool key s = Some v \<Longrightarrow> tool_done v \<Longrightarrow>
   suffix = [] \<and> t = s"
  by (auto simp: finish_tool_def tool_of_def check_arguments_def swhen_def invalid_def split: if_splits)

lemma finish_tool_known: "finish_tool key snapshot completed validate s = Inr (suffix, t) \<Longrightarrow> \<exists>v. find_tool key s = Some v"
  by (auto simp: finish_tool_def tool_of_def invalid_def split: option.splits)

lemma finish_open_tool_result:
  "finish_open_tool validates e s = Inr (x, t) \<Longrightarrow> t = on_tool (fst e) (\<lambda>t. t\<lparr>tool_done := True\<rparr>) s"
  by (auto simp: finish_open_tool_def check_arguments_def swhen_def split: if_splits)

lemma finish_open_tools_result:
  assumes "finish_open_tools validates s = Inr (x, t)"
  shows "rel_option (\<lambda>v w. tool_call_id w = tool_call_id v \<and> tool_name w = tool_name v \<and>
      arguments_json w = arguments_json v \<and> (tool_done v \<longrightarrow> tool_done w)) (find_tool key s) (find_tool key t)"
    and "find_tool key t = Some w \<Longrightarrow> tool_done w"
proof -
  let ?r = "\<lambda>v w. tool_call_id w = tool_call_id v \<and> tool_name w = tool_name v \<and>
      arguments_json w = arguments_json v \<and> (tool_done v \<longrightarrow> tool_done w)"
  have run: "sfor (finish_open_tool validates) es s = Inr (x, t) \<Longrightarrow>
      rel_option ?r (find_tool key s) (find_tool key t) \<and>
      (key \<in> fst ` set es \<longrightarrow> (\<forall>w. find_tool key t = Some w \<longrightarrow> tool_done w))" for es s
  proof (induction es arbitrary: s)
    case Nil
    then show ?case by (cases "find_tool key s") auto
  next
    case (Cons e es)
    then have rest: "sfor (finish_open_tool validates) es (on_tool (fst e) (\<lambda>t. t\<lparr>tool_done := True\<rparr>) s) = Inr (x, t)"
      by (auto dest: finish_open_tool_result)
    show ?case
      using Cons.IH [OF rest]
      by (cases "find_tool key s"; cases "find_tool key t") (auto simp: find_on_tool split: if_splits)
  qed
  have all: "sfor (finish_open_tool validates) (tools s) s = Inr (x, t)"
    using assms by (simp add: finish_open_tools_def)
  show rel: "rel_option ?r (find_tool key s) (find_tool key t)" using run [OF all] by blast
  show "find_tool key t = Some w \<Longrightarrow> tool_done w"
  proof -
    assume w: "find_tool key t = Some w"
    then obtain v where "find_tool key s = Some v" using rel by (auto simp: rel_option_iff split: option.splits)
    then have "key \<in> fst ` set (tools s)" by (auto simp: find_tool_def dest!: map_of_SomeD intro: rev_image_eqI)
    then show ?thesis using run [OF all] w by blast
  qed
qed

section \<open>Every event keeps the invariant\<close>

text \<open>
  The order the decoders give the events. A stream converted for a Messages client comes from a Chat or
  a Responses upstream (a Messages upstream is passed on as it is). Of these only Responses streams
  report finished content parts and items, and the end of a call comes before the end of its item.
  \<open>opens\<close> are the calls that are not over.
\<close>

fun in_order :: "protocol \<Rightarrow> jsstr set \<Rightarrow> semantic_event \<Rightarrow> bool" where
  "in_order p opens (Item_done i _) = (p = Responses \<and> response_tool_key i \<notin> opens)"
| "in_order p opens (Content_done _ _ _) = (p = Responses)"
| "in_order p opens _ = True"

fun open_after :: "jsstr set \<Rightarrow> semantic_event \<Rightarrow> jsstr set" where
  "open_after opens (Tool_started key _ _ _) = insert key opens"
| "open_after opens (Tool_done key _ _) = opens - {key}"
| "open_after opens _ = opens"

fun orderly :: "protocol \<Rightarrow> jsstr set \<Rightarrow> semantic_event list \<Rightarrow> bool" where
  "orderly p opens [] = True"
| "orderly p opens (e # es) = (in_order p opens e \<and> orderly p (open_after opens e) es)"

lemma conv_okD:
  assumes "conv_ok ctx opens s"
  obtains bs where "ledger_ok (the_ledger s)" "client_view (the_emitter s) bs" "coupled (the_ledger s) (the_emitter s)"
    "unwritten ctx (the_emitter s)"
    "\<And>key t. find_tool key (the_ledger s) = Some t \<Longrightarrow> \<not> tool_done t \<Longrightarrow> key \<in> opens"
  using assms unfolding conv_ok_def by blast

lemma conv_ok_reports: "keeps (conv_ok ctx opens) (reports e)" if "\<And>w. e \<noteq> Wire w"
proof -
  have "wires [e] = []" using that by (cases e) auto
  then show ?thesis
    unfolding reports_def
    by (intro conv_ok_emitter quiet_modify unwritten_modify) (simp_all add: view_def)
qed

lemma conv_ok_other: "(\<And>s. the_ledger (g s) = the_ledger s \<and> the_emitter (g s) = the_emitter s) \<Longrightarrow>
    keeps (conv_ok ctx opens) (smodify g)"
  by (intro keeps_modify) (simp add: conv_ok_def)

lemma conv_ok_start: "keeps (conv_ok ctx opens) (start_output c e)"
  unfolding start_output_def
  by (intro keeps_intros conv_ok_other conv_ok_reports conv_ok_emitter within_start keeps_unwritten_start) simp_all

lemma conv_ok_pass:
  "keeps (conv_ok ctx opens) (pass_on b (content_delta c kind key delta order_key) (reserve_message k))"
  unfolding pass_on_def reserve_message_def
  by (intro keeps_intros conv_ok_emitter within_content_delta keeps_unwritten_text within_quiet keeps_unwritten_basic)

lemma conv_ok_content_ops:
  "keeps (conv_ok ctx opens) (on_ledger (case kind of Text_kind \<Rightarrow> append_text key delta k | Refusal_kind \<Rightarrow> append_refusal key delta k))"
  "keeps (conv_ok ctx opens) (on_ledger (case kind of Text_kind \<Rightarrow> observe_text key k | Refusal_kind \<Rightarrow> observe_refusal key k))"
  by (cases kind; auto intro!: conv_ok_ledger keeps_tools_messages intro: changes_intros)+

lemma conv_ok_content:
  "keeps (conv_ok ctx opens) (convert_content c kind key order_key delta)"
  "keeps (conv_ok ctx opens) (convert_content_done c kind key order_key snapshot)"
  unfolding convert_content_def convert_content_done_def reconcile_snapshot_def Let_def
  by (intro keeps_intros conv_ok_content_ops conv_ok_pass)+

lemma conv_ok_reasoning: "keeps (conv_ok ctx opens) (on_emitter (reasoning_done c r))"
  by (intro conv_ok_emitter within_reasoning_done keeps_unwritten_reasoning)

text \<open>The end of an item: its call, if it has one, is over already.\<close>

lemma end_item_result:
  assumes "end_item key s = Inr (x, t)"
  shows "rel_option (\<lambda>u v. call_id_of v = call_id_of u \<and> name_of v = name_of u \<and> streamed_arguments v = streamed_arguments u)
      (find_emitter_tool key s) (find_emitter_tool key t)"
  using assms
  by (cases "find_emitter_tool key s")
    (auto simp: end_item_def close_open_tool_def on_emitter_tool_def yields_def swhen_def find_emitter_tool_def
      map_of_update_entry split: option.splits if_splits)

lemma coupled_item_done:
  assumes ok: "coupled l s" and run: "item_done ctx i s = Inr (x, t)"
    and over: "\<And>v. find_tool (response_tool_key i) l = Some v \<Longrightarrow> tool_done v"
  shows "coupled l t"
proof -
  let ?key = "response_tool_key i"
  obtain a b where a: "end_item ?key s = Inr ((), a)" and b: "on_frontier (mark_item_done i) a = Inr ((), b)"
    and drain: "drain_ready_content ctx b = Inr (x, t)"
    using run by (auto simp: item_done_def)
  have "find_emitter_tool ?key b = find_emitter_tool ?key a"
    using b by (auto simp: on_frontier_def find_emitter_tool_def)
  moreover have "rel_option (tool_kept False) (find_emitter_tool ?key b) (find_emitter_tool ?key t)"
    by (rule changes_keep_tool [where ks = "{}", OF withinD [OF within_drain drain]]) simp
  moreover have "rel_option same_tool (find_tool ?key l) (find_emitter_tool ?key s)"
    using ok by (simp add: coupled_def)
  ultimately have "rel_option same_tool (find_tool ?key l) (find_emitter_tool ?key t)"
    using end_item_result [OF a] over
    by (cases "find_tool ?key l"; cases "find_emitter_tool ?key s"; cases "find_emitter_tool ?key a";
        cases "find_emitter_tool ?key t") (auto simp: same_tool_def tool_kept_def)
  then show ?thesis
    by (rule coupled_touched [OF ok withinD [OF within_item_done run] refl, rotated]) simp
qed

lemma conv_ok_tool_done:
  assumes ok: "conv_ok ctx opens s" and run: "convert_tool_done ctx key snapshot completed s = Inr (x, t)"
  shows "conv_ok ctx (opens - {key}) t"
proof -
  obtain bs where l: "ledger_ok (the_ledger s)" and view: "client_view (the_emitter s) bs"
    and coupled: "coupled (the_ledger s) (the_emitter s)" and un: "unwritten ctx (the_emitter s)"
    and opens: "\<And>key t. find_tool key (the_ledger s) = Some t \<Longrightarrow> \<not> tool_done t \<Longrightarrow> key \<in> opens"
    by (rule conv_okD [OF ok]) blast
  obtain suffix l' u where fin: "finish_tool key snapshot (completed = Some True) True (the_ledger s) = Inr (suffix, l')"
    and args: "swhen (suffix \<noteq> []) (on_emitter (emitter_tool_arguments ctx key suffix)) (s\<lparr>the_ledger := l'\<rparr>) = Inr ((), u)"
    and close: "swhen (completed \<noteq> Some False) (sbind (on_ledger (tool_of key)) (\<lambda>t.
       on_emitter (emitter_tool_done ctx key (arguments_json t)))) u = Inr (x, t)"
    using run by (auto simp: convert_tool_done_def)
  obtain v where v: "find_tool key (the_ledger s) = Some v" using finish_tool_known [OF fin] by blast
  obtain w where w: "find_tool key l' = Some w" "tool_done w" "tool_call_id w = tool_call_id v" "tool_name w = tool_name v"
      "arguments_json w = arguments_json v @ suffix" and not_done: "suffix \<noteq> [] \<longrightarrow> \<not> tool_done v"
    using finish_tool_result [OF fin v] finish_tool_done [OF fin v] v by (cases "tool_done v") auto
  have others: "k \<noteq> key \<Longrightarrow> find_tool k l' = find_tool k (the_ledger s)" for k by (rule finish_tool_others [OF fin])
  have u: "coupled l' (the_emitter u) \<and> (\<exists>bs'. client_view (the_emitter u) bs') \<and> unwritten ctx (the_emitter u) \<and> the_ledger u = l'"
  proof (cases "suffix = []")
    case True
    have "coupled l' (the_emitter s)"
    proof (rule coupled_ledger [OF coupled])
      fix k
      show "rel_option (\<lambda>t t'. tool_call_id t' = tool_call_id t \<and> tool_name t' = tool_name t \<and>
          arguments_json t' = arguments_json t \<and> (tool_done t \<longrightarrow> tool_done t')) (find_tool k (the_ledger s)) (find_tool k l')"
        using others [of k] v w True by (cases "k = key"; cases "find_tool k (the_ledger s)") auto
    qed
    then show ?thesis using args True view un by (auto simp: swhen_def)
  next
    case False
    then obtain e where e: "emitter_tool_arguments ctx key suffix (the_emitter s) = Inr ((), e)"
      and ue: "u = s\<lparr>the_ledger := l', the_emitter := e\<rparr>"
      using args by (auto simp: swhen_def)
    have "\<not> tool_done v" using False not_done by blast
    from conv_arguments [OF coupled view un v this e w(1,3,4,5) others] show ?thesis by (simp add: ue)
  qed
  then obtain bs' where u': "coupled l' (the_emitter u)" "client_view (the_emitter u) bs'" "unwritten ctx (the_emitter u)"
    "the_ledger u = l'" by blast
  have t: "coupled l' (the_emitter t) \<and> (\<exists>bs'. client_view (the_emitter t) bs') \<and> unwritten ctx (the_emitter t) \<and> the_ledger t = l'"
  proof (cases "completed = Some False")
    case True
    then show ?thesis using close u' by (auto simp: swhen_def)
  next
    case False
    then obtain e where e: "emitter_tool_done ctx key (arguments_json w) (the_emitter u) = Inr (x, e)"
      and te: "t = u\<lparr>the_ledger := l', the_emitter := e\<rparr>"
      using close w u'(4) by (auto simp: swhen_def tool_of_def)
    from conv_tool_done [OF u'(1-3) w(1,2) e] show ?thesis by (simp add: te)
  qed
  moreover have "ledger_ok l'" using l ledger_ok_changes [OF withinD [OF within_finish_tool fin]] by blast
  moreover have "k \<in> opens - {key}" if "find_tool k l' = Some v'" "\<not> tool_done v'" for k v'
    using that others [of k] opens [of k v'] w by (cases "k = key") auto
  ultimately show ?thesis by (auto simp: conv_ok_def)
qed

lemma conv_ok_item_done:
  assumes ok: "conv_ok ctx opens s" and resp: "upstream_protocol ctx = Responses"
    and closed: "response_tool_key i \<notin> opens" and run: "convert_body ctx (Item_done i item_type) s = Inr (x, t)"
  shows "conv_ok ctx opens t"
proof -
  obtain u where u: "swhen (item_type = js ''message'') (on_ledger (finish_message (response_message_key i))) s = Inr ((), u)"
    and t: "on_emitter (item_done ctx i) u = Inr (x, t)"
    using run by auto
  have "keeps (conv_ok ctx opens) (swhen (item_type = js ''message'') (on_ledger (finish_message (response_message_key i))))"
    by (intro keeps_intros conv_ok_ledger keeps_tools_messages within_finish_message)
  then have "conv_ok ctx opens u" using tripleD u ok by fast
  then obtain bs where u': "ledger_ok (the_ledger u)" "client_view (the_emitter u) bs" "coupled (the_ledger u) (the_emitter u)"
    "\<And>key t. find_tool key (the_ledger u) = Some t \<Longrightarrow> \<not> tool_done t \<Longrightarrow> key \<in> opens"
    by (rule conv_okD) blast
  obtain w where w: "item_done ctx i (the_emitter u) = Inr (x, w)" and tw: "t = u\<lparr>the_emitter := w\<rparr>" using t by auto
  have "coupled (the_ledger u) w" by (rule coupled_item_done [OF u'(3) w]) (use u'(4) closed in blast)
  moreover have "\<exists>bs'. client_view w bs'"
    by (rule changes_keep_view [OF withinD [OF within_item_done w] u'(2)]) blast
  ultimately show ?thesis using u'(1,4) resp by (auto simp: conv_ok_def tw unwritten_def)
qed

lemma conv_ok_tool_started:
  assumes ok: "conv_ok ctx opens s" and run: "convert_body ctx (Tool_started key item_id call_id name) s = Inr (x, t)"
  shows "conv_ok ctx (insert key opens) t"
proof -
  obtain bs where l: "ledger_ok (the_ledger s)" and view: "client_view (the_emitter s) bs"
    and coupled: "coupled (the_ledger s) (the_emitter s)" and un: "unwritten ctx (the_emitter s)"
    and opens: "\<And>key t. find_tool key (the_ledger s) = Some t \<Longrightarrow> \<not> tool_done t \<Longrightarrow> key \<in> opens"
    by (rule conv_okD [OF ok]) blast
  obtain l' w where l': "start_tool key item_id call_id name (the_ledger s) = Inr ((), l')"
    and w: "emitter_tool_start ctx key call_id name (the_emitter s) = Inr (x, w)"
    and t: "t = s\<lparr>the_ledger := l', the_emitter := w\<rparr>"
    using run by auto
  note st = start_tool_result [OF l']
  have changes: "emit_changes False {key} (the_emitter s) w" by (rule withinD [OF within_tool_start w]) simp
  have "coupled l' w"
    by (rule coupled_touched [OF coupled changes st(3)])
      (use st(2) emitter_tool_start_result [OF w] in \<open>auto simp: same_tool_def\<close>)
  moreover have "\<exists>bs'. client_view w bs'" by (rule changes_keep_view [OF changes view])
  moreover have "unwritten ctx w" by (rule tripleD [OF keeps_unwritten_tools(1) w un])
  moreover have "ledger_ok l'" using l ledger_ok_changes [OF withinD [OF within_start_tool l']] by blast
  moreover have "k \<in> insert key opens" if "find_tool k l' = Some v" "\<not> tool_done v" for k v
    using that st(3) [of k] opens [of k v] by (cases "k = key") auto
  ultimately show ?thesis by (auto simp: conv_ok_def t)
qed

lemma conv_ok_arguments:
  assumes ok: "conv_ok ctx opens s" and run: "convert_body ctx (Arguments_delta key d) s = Inr (x, t)"
  shows "conv_ok ctx opens t"
proof -
  obtain bs where l: "ledger_ok (the_ledger s)" and view: "client_view (the_emitter s) bs"
    and coupled: "coupled (the_ledger s) (the_emitter s)" and un: "unwritten ctx (the_emitter s)"
    and opens: "\<And>key t. find_tool key (the_ledger s) = Some t \<Longrightarrow> \<not> tool_done t \<Longrightarrow> key \<in> opens"
    by (rule conv_okD [OF ok]) blast
  obtain l' w where l': "append_tool_arguments key d (the_ledger s) = Inr ((), l')"
    and w: "emitter_tool_arguments ctx key d (the_emitter s) = Inr (x, w)"
    and t: "t = s\<lparr>the_ledger := l', the_emitter := w\<rparr>"
    using run by auto
  obtain v where v: "find_tool key (the_ledger s) = Some v" "\<not> tool_done v"
      "find_tool key l' = Some (v\<lparr>arguments_json := arguments_json v @ d\<rparr>)"
    using append_arguments_result(1) [OF l'] by blast
  note others = append_arguments_result(2) [OF l']
  have "coupled l' w \<and> (\<exists>bs'. client_view w bs') \<and> unwritten ctx w"
    by (rule conv_arguments [OF coupled view un v(1,2) w v(3)]) (simp_all add: others)
  moreover have "ledger_ok l'" using l ledger_ok_changes [OF withinD [OF within_append_arguments l']] by blast
  moreover have "k \<in> opens" if "find_tool k l' = Some v'" "\<not> tool_done v'" for k v'
    using that others [of k] opens [of k] v by (cases "k = key") auto
  ultimately show ?thesis by (auto simp: conv_ok_def t)
qed

text \<open>The events that leave the tools alone.\<close>

fun tool_event :: "semantic_event \<Rightarrow> bool" where
  "tool_event (Item_done _ _) = True"
| "tool_event (Tool_started _ _ _ _) = True"
| "tool_event (Arguments_delta _ _) = True"
| "tool_event (Tool_done _ _ _) = True"
| "tool_event (Terminal _ _) = True"
| "tool_event _ = False"

lemma conv_ok_quiet:
  assumes "\<not> tool_event e" "in_order (upstream_protocol ctx) opens e"
  shows "keeps (conv_ok ctx opens') (convert_body ctx e)"
proof (cases e)
  case (Content_done key order_key index)
  then have resp: "upstream_protocol ctx = Responses" using assms(2) by simp
  show ?thesis
    unfolding Content_done convert_body.simps
    by (intro keeps_intros conv_ok_ledger conv_ok_emitter keeps_tools_messages within_finish_content
        within_content_done unwritten_responses resp)
qed (use assms(1) in \<open>auto simp: emitter_message_start_def convert_snapshot_def reconcile_snapshot_def
    intro!: keeps_intros conv_ok_ledger conv_ok_emitter conv_ok_content conv_ok_reasoning conv_ok_other conv_ok_reports
      keeps_tools_reasoning keeps_tools_messages within_start_reasoning within_append_reasoning
      within_finish_reasoning within_start_message within_quiet keeps_unwritten_basic\<close>)

lemma conv_ok_event:
  assumes ok: "conv_ok ctx opens s" and order: "in_order (upstream_protocol ctx) opens e"
    and run: "convert_body ctx e s = Inr (x, t)" and not_last: "terminal_status e = None"
  shows "conv_ok ctx (open_after opens e) t"
proof (cases "tool_event e")
  case False
  then have "open_after opens e = opens" by (cases e) auto
  then show ?thesis using tripleD [OF conv_ok_quiet [OF False order] run ok] by simp
next
  case True
  show ?thesis
  proof (cases e)
    case (Item_done i item_type)
    then show ?thesis using conv_ok_item_done [OF ok _ _ run [unfolded Item_done]] order by simp
  next
    case (Tool_started key item_id call_id name)
    then show ?thesis using conv_ok_tool_started [OF ok run [unfolded Tool_started]] by simp
  next
    case (Arguments_delta key d)
    then show ?thesis using conv_ok_arguments [OF ok run [unfolded Arguments_delta]] by simp
  next
    case (Tool_done key snapshot completed)
    then show ?thesis using conv_ok_tool_done [OF ok] run by simp
  qed (use True not_last in simp_all)
qed

section \<open>The end of the stream\<close>

lemma conv_ok_close_tools:
  assumes "conv_ok ctx opens s" "sfor (close_tool_of ctx) ks s = Inr (x, t)"
    and "\<And>key v. find_tool key (the_ledger s) = Some v \<Longrightarrow> tool_done v"
  shows "conv_ok ctx opens t"
  using assms
proof (induction ks arbitrary: s)
  case (Cons k ks)
  obtain u where u: "close_tool_of ctx k s = Inr ((), u)" and rest: "sfor (close_tool_of ctx) ks u = Inr (x, t)"
    using Cons.prems(2) by auto
  obtain v e where v: "find_tool k (the_ledger s) = Some v"
    and e: "emitter_tool_done ctx k (arguments_json v) (the_emitter s) = Inr ((), e)"
    and ue: "u = s\<lparr>the_emitter := e\<rparr>"
    using u by (auto simp: close_tool_of_def tool_of_def invalid_def split: option.splits)
  obtain bs where "ledger_ok (the_ledger s)" "client_view (the_emitter s) bs" "coupled (the_ledger s) (the_emitter s)"
    "unwritten ctx (the_emitter s)"
    by (rule conv_okD [OF Cons.prems(1)]) blast
  with conv_tool_done [OF this(3,2,4) v Cons.prems(3) [OF v] e] have "conv_ok ctx opens u"
    using Cons.prems(1) by (simp add: conv_ok_def ue)
  then show ?case using Cons.IH [OF _ rest] Cons.prems(3) by (simp add: ue)
qed simp

text \<open>What the client has when the emitter has finished.\<close>

definition listed :: "response_item list \<Rightarrow> messages_emitter \<Rightarrow> bool" where
  "listed outs s \<longleftrightarrow> (\<forall>item \<in> set outs. is_tool_item item \<longrightarrow> item_key_of item \<in> emitted_response_tools s)"

lemma emitted_grow: "emit_changes fin ks s t \<Longrightarrow> emitted_response_tools s \<subseteq> emitted_response_tools t"
proof (induction rule: rtranclp_induct)
  case (step u v)
  from step.hyps(2) have "emitted_response_tools u \<subseteq> emitted_response_tools v"
    by cases (auto simp: view_def)
  with step.IH show ?case by blast
qed simp

lemma tool_block_emits: "tool_block key tool ends s = Inr (x, t) \<Longrightarrow> key \<in> emitted_response_tools t"
  unfolding tool_block_def take_index_def on_emitter_tool_def yields_def
  by (cases "streamed_arguments tool = []"; cases "ends \<and> \<not> emitter_closed tool") (auto simp: swhen_def)

lemma emit_tool_emits:
  assumes "emit_tool key close s = Inr (x, t)" "client_view s bs"
  shows "key \<in> emitted_response_tools t"
proof (cases "find_emitter_tool key s")
  case None
  then show ?thesis using assms(1) by (simp add: emit_tool_def refuse_def)
next
  case (Some u)
  show ?thesis
  proof (cases "stream_index u")
    case None
    then show ?thesis
      using assms(1) Some by (auto simp: emit_tool_def dest: tool_block_emits)
  next
    case (Some i)
    then have "t = s" using assms(1) \<open>find_emitter_tool key s = Some u\<close> by (auto simp: emit_tool_def)
    moreover have "key \<in> emitted_response_tools s"
      using blocks_matchD(6) [OF client_viewD [OF assms(2)], of key] Some \<open>find_emitter_tool key s = Some u\<close>
      by (auto simp: find_emitter_tool_def)
    ultimately show ?thesis by simp
  qed
qed

lemma buffered_item_emits:
  assumes "emit_buffered_item ctx allow (Tool_item key a b c d) s = Inr (x, t)" "client_view s bs"
  shows "key \<in> emitted_response_tools t"
  using assms emit_tool_emits
  by (auto simp: emit_buffered_item_def refuse_def swhen_def split: option.splits if_splits)

lemma buffered_items_emit:
  "emit_buffered_items ctx outs allow s = Inr (x, t) \<Longrightarrow> client_view s bs \<Longrightarrow> listed outs t"
  unfolding emit_buffered_items_def
proof (induction outs arbitrary: s bs)
  case Nil
  show ?case by (simp add: listed_def)
next
  case (Cons item outs)
  obtain u where u: "emit_buffered_item ctx allow item s = Inr ((), u)"
    and rest: "sfor (emit_buffered_item ctx allow) outs u = Inr (x, t)"
    using Cons.prems(1) by auto
  have single: "emit_buffered_items ctx [item] allow s = Inr ((), u)"
    using u by (simp add: emit_buffered_items_def)
  have "emit_changes True {} s u" by (rule withinD [OF within_buffered single])
  then obtain bs' where bs': "client_view u bs'" using changes_keep_view Cons.prems(2) by blast
  have "emit_changes True {} u t"
    by (rule withinD [OF within_buffered rest [folded emit_buffered_items_def]])
  then have "emitted_response_tools u \<subseteq> emitted_response_tools t" by (rule emitted_grow)
  moreover have "item_key_of item \<in> emitted_response_tools u" if "is_tool_item item"
    using buffered_item_emits u Cons.prems(2) that by (cases item) (auto simp: item_key_of_def)
  ultimately show ?case using Cons.IH [OF rest bs'] by (auto simp: listed_def)
qed

lemma finish_result:
  assumes run: "emitter_finish ctx status reason usage outs s = Inr (x, t)" and view: "client_view s bs"
  shows "\<exists>bs'. client_view t bs' \<and> (\<forall>b \<in> set bs'. block_closed b) \<and> listed outs t \<and> emit_changes True {} s t \<and>
    (\<exists>es. wires (out t) = es @ [Message_delta (messages_finish reason) (messages_usage_of usage), Message_stop])"
proof -
  let ?allow = "status = Completed \<and> (\<exists>item \<in> set outs. is_tool_call item)"
  obtain a b c d where a: "close_active_text s = Inr ((), a)" and b: "close_open_tools a = Inr ((), b)"
    and c: "emit_buffered_items ctx outs ?allow b = Inr ((), c)" and d: "close_open_tools c = Inr ((), d)"
    and t: "t = d\<lparr>out := (out d @ [Wire (Message_delta (messages_finish reason) (messages_usage_of usage))]) @ [Wire Message_stop]\<rparr>"
    using run by (auto simp: emitter_finish_def yields_def)
  have all: "emit_changes True {} s t" by (rule withinD [OF within_finish run])
  then obtain bs' where bs': "client_view t bs'" using changes_keep_view view by blast
  have "emit_changes True {} s b"
    using withinD [OF within_close_active a] withinD [OF within_close_tools b] by (rule rtranclp_trans)
  then obtain bs2 where "client_view b bs2" using changes_keep_view view by blast
  then have "listed outs c" by (rule buffered_items_emit [OF c])
  moreover have "emitted_response_tools c \<subseteq> emitted_response_tools d"
    by (rule emitted_grow [OF withinD [OF within_close_tools d]])
  ultimately have "listed outs t" unfolding listed_def t by simp blast
  moreover have "\<forall>b \<in> set bs'. block_closed b"
  proof (rule all_blocks_closed [OF bs'])
    have "active_text a = None" using tripleD [OF closes_active a] by simp
    then have "active_text b = None" using close_open_tools_settles(2) [OF b] by simp
    then have "active_text c = None" using tripleD [OF buffered_keeps_no_text c] by simp
    then show "active_text t = None" using close_open_tools_settles(2) [OF d] by (simp add: t)
    show "tool_settled key t" for key
      using close_open_tools_settles(1) [OF d] by (simp add: t tool_settled_def find_emitter_tool_def)
  qed
  ultimately show ?thesis using bs' all by (auto simp: t)
qed

text \<open>The tool calls a client reads off its blocks, and those of the ledger.\<close>

fun block_call :: "client_block \<Rightarrow> jsstr \<times> jsstr \<times> jsstr" where
  "block_call b = (case block_kind b of
     Tool_use_block i n \<Rightarrow> (i, n, json_of (block_deltas b)) | _ \<Rightarrow> ([], [], []))"

definition shown_calls :: "client_block list \<Rightarrow> (jsstr \<times> jsstr \<times> jsstr) list" where
  "shown_calls bs = map block_call (filter (\<lambda>b. is_tool_block (block_kind b)) bs)"

definition ledger_calls :: "ledger \<Rightarrow> (jsstr \<times> jsstr \<times> jsstr) list" where
  "ledger_calls l = map (\<lambda>(_, t). (tool_call_id t, tool_name t, arguments_json t)) (tools l)"

lemma mset_filter_nth: "mset (map f (filter P xs)) = image_mset (\<lambda>i. f (xs ! i)) (mset_set {i. i < length xs \<and> P (xs ! i)})"
proof -
  let ?is = "filter (\<lambda>i. P (xs ! i)) [0..<length xs]"
  have "filter P xs = map ((!) xs) ?is"
    using filter_map [of P "(!) xs" "[0..<length xs]"] by (simp add: map_nth comp_def)
  then have "mset (map f (filter P xs)) = image_mset (\<lambda>i. f (xs ! i)) (mset ?is)"
    by (simp add: multiset.map_comp comp_def)
  also have "mset ?is = mset_set (set ?is)" by (rule mset_set_set [symmetric]) simp
  also have "set ?is = {i. i < length xs \<and> P (xs ! i)}" by auto
  finally show ?thesis .
qed

lemma mset_assoc:
  assumes "distinct (map fst es)"
  shows "mset (map g es) = image_mset (\<lambda>k. g (k, the (map_of es k))) (mset_set (fst ` set es))"
proof -
  have "mset (map fst es) = mset_set (fst ` set es)"
    using mset_set_set [OF assms] by simp
  moreover have "map g es = map (\<lambda>k. g (k, the (map_of es k))) (map fst es)"
    using assms by (auto simp: map_of_is_SomeI)
  ultimately show ?thesis by (metis mset_map)
qed

lemma calls_delivered:
  assumes view: "client_view s bs" and dist: "distinct (map fst (tools l))"
    and calls: "\<And>key. rel_option (\<lambda>t u. call_id_of u = tool_call_id t \<and> name_of u = tool_name t \<and>
      streamed_arguments u = arguments_json t) (find_tool key l) (find_emitter_tool key s)"
    and written: "\<And>key. find_tool key l \<noteq> None \<Longrightarrow> key \<in> emitted_response_tools s"
  shows "mset (shown_calls bs) = mset (ledger_calls l)"
proof -
  note m = client_viewD [OF view]
  let ?keys = "fst ` set (tools l)" and ?I = "{i. i < length bs \<and> is_tool_block (block_kind (bs ! i))}"
  define index where "index k = the (stream_index (the (find_emitter_tool k s)))" for k
  have tool: "\<exists>t u. find_tool k l = Some t \<and> find_emitter_tool k s = Some u \<and> stream_index u = Some (index k) \<and>
      call_id_of u = tool_call_id t \<and> name_of u = tool_name t \<and> streamed_arguments u = arguments_json t \<and>
      index k < length bs \<and> shows_tool u (bs ! index k)" if key: "k \<in> ?keys" for k
  proof -
    obtain t where t: "find_tool k l = Some t"
      using key by (auto simp: find_tool_def dest!: weak_map_of_SomeI)
    moreover from this obtain u where u: "find_emitter_tool k s = Some u" "call_id_of u = tool_call_id t"
        "name_of u = tool_name t" "streamed_arguments u = arguments_json t"
      using calls [of k] by (auto simp: rel_option_iff split: option.splits)
    moreover have "stream_index u \<noteq> None"
      using written [of k] t u(1) blocks_matchD(6) [OF m, of k] by (auto simp: find_emitter_tool_def)
    then have i: "stream_index u = Some (index k)" using u(1) by (auto simp: index_def)
    moreover have "index k < length bs \<and> shows_tool u (bs ! index k)"
      using blocks_matchD(3) [OF m _ i] u(1) by (simp add: find_emitter_tool_def)
    ultimately show ?thesis by blast
  qed
  have inj: "inj_on index ?keys"
  proof (rule inj_onI)
    fix a b assume "a \<in> ?keys" "b \<in> ?keys" "index a = index b"
    with tool [of a] tool [of b] show "a = b"
      using blocks_matchD(5) [OF m] by (fastforce simp: find_emitter_tool_def)
  qed
  have "index ` ?keys = ?I"
  proof (intro equalityI subsetI)
    fix i assume "i \<in> index ` ?keys"
    then show "i \<in> ?I" using tool by (fastforce simp: shows_tool_def)
  next
    fix i assume "i \<in> ?I"
    then obtain k u where u: "find_emitter_tool k s = Some u" "stream_index u = Some i"
      using blocks_matchD(8) [OF m, of i] by (auto simp: tool_owned_def find_emitter_tool_def)
    then obtain t where "find_tool k l = Some t" using calls [of k] by (auto simp: rel_option_iff split: option.splits)
    then have "k \<in> ?keys" by (auto simp: find_tool_def dest!: map_of_SomeD intro: rev_image_eqI)
    moreover have "index k = i" using u by (simp add: index_def)
    ultimately show "i \<in> index ` ?keys" by blast
  qed
  then have indexes: "mset_set ?I = image_mset index (mset_set ?keys)"
    using image_mset_mset_set [OF inj] by simp
  have "mset (shown_calls bs) = image_mset (\<lambda>k. block_call (bs ! index k)) (mset_set ?keys)"
    unfolding shown_calls_def mset_filter_nth indexes by (simp add: multiset.map_comp comp_def)
  also have "\<dots> = image_mset (\<lambda>k. (\<lambda>(_, t). (tool_call_id t, tool_name t, arguments_json t)) (k, the (map_of (tools l) k))) (mset_set ?keys)"
  proof (rule image_mset_cong)
    fix k assume "k \<in># mset_set ?keys"
    then have "k \<in> ?keys" by simp
    from tool [OF this] show "block_call (bs ! index k) =
        (\<lambda>(_, t). (tool_call_id t, tool_name t, arguments_json t)) (k, the (map_of (tools l) k))"
      by (auto simp: shows_tool_def find_tool_def)
  qed
  also have "\<dots> = mset (ledger_calls l)"
    unfolding ledger_calls_def by (rule mset_assoc [OF dist, symmetric])
  finally show ?thesis .
qed

lemma terminal_result:
  assumes ok: "conv_ok ctx opens s" and run: "convert_terminal ctx status reason s = Inr (x, t)"
  shows "\<exists>bs. client_view (the_emitter t) bs \<and> (\<forall>b \<in> set bs. block_closed b) \<and>
    mset (shown_calls bs) = mset (ledger_calls (the_ledger t)) \<and>
    (\<exists>es. wires (out (the_emitter t)) =
       es @ [Message_delta (messages_finish reason) (messages_usage_of (the_usage t)), Message_stop])"
proof -
  obtain a b c outs l e where a: "swhen (status = Completed)
       (sthen (on_ledger (finish_open_tools (\<lambda>_. True)))
       (sbind (sget (\<lambda>s. tool_keys (the_ledger s))) (sfor (close_tool_of ctx)))) s = Inr ((), a)"
    and b: "sbind (on_ledger (finish_open_reasoning status)) (sfor (\<lambda>r. on_emitter (reasoning_done ctx r))) a = Inr ((), b)"
    and outs: "items status (the_ledger b) = Inr (outs, l)"
    and fin: "emitter_finish ctx status reason (the_usage b) outs (the_emitter b) = Inr ((), e)"
    and t: "t = b\<lparr>the_ledger := l, the_emitter := e\<lparr>out := out e @ [Terminal_report status]\<rparr>\<rparr>"
    using run by (auto simp: convert_terminal_def reports_def)
  have "conv_ok ctx opens a"
  proof (cases "status = Completed")
    case True
    then obtain l1 where l1: "finish_open_tools (\<lambda>_. True) (the_ledger s) = Inr ((), l1)"
      and rest: "sfor (close_tool_of ctx) (tool_keys l1) (s\<lparr>the_ledger := l1\<rparr>) = Inr ((), a)"
      using a by (auto simp: swhen_def)
    note r = finish_open_tools_result [OF l1]
    have "coupled l1 (the_emitter s)" using coupled_ledger [OF _ r(1)] ok by (auto simp: conv_ok_def)
    then have "conv_ok ctx opens (s\<lparr>the_ledger := l1\<rparr>)"
      using ok r(2) ledger_ok_changes [OF withinD [OF within_finish_open_tools l1]] by (auto simp: conv_ok_def)
    then show ?thesis using conv_ok_close_tools [OF _ rest] r(2) by simp
  qed (use a ok in \<open>simp add: swhen_def\<close>)
  moreover have "keeps (conv_ok ctx opens) (sbind (on_ledger (finish_open_reasoning status)) (sfor (\<lambda>r. on_emitter (reasoning_done ctx r))))"
    by (intro keeps_intros conv_ok_ledger conv_ok_reasoning keeps_tools_reasoning within_finish_open_reasoning)
  ultimately have "conv_ok ctx opens b" using tripleD b by fast
  then obtain bs where b': "ledger_ok (the_ledger b)" "client_view (the_emitter b) bs" "coupled (the_ledger b) (the_emitter b)"
    by (rule conv_okD) blast
  have same: "tools l = tools (the_ledger b)" by (rule tripleD [OF keeps_tools_items outs refl])
  obtain bs' es where bs': "client_view e bs'" "\<forall>b \<in> set bs'. block_closed b" "listed outs e" "emit_changes True {} (the_emitter b) e"
    "wires (out e) = es @ [Message_delta (messages_finish reason) (messages_usage_of (the_usage b)), Message_stop]"
    using finish_result [OF fin b'(2)] by blast
  have "mset (shown_calls bs') = mset (ledger_calls l)"
  proof (rule calls_delivered [OF bs'(1)])
    show "distinct (map fst (tools l))" using b'(1) same by (simp add: ledger_ok_def tools_ok_def)
    fix key
    have "rel_option (tool_kept True) (find_emitter_tool key (the_emitter b)) (find_emitter_tool key e)"
      by (rule changes_keep_tool [OF bs'(4)]) simp
    moreover have "rel_option same_tool (find_tool key l) (find_emitter_tool key (the_emitter b))"
      using b'(3) same by (simp add: coupled_def find_tool_def)
    ultimately show "rel_option (\<lambda>t u. call_id_of u = tool_call_id t \<and> name_of u = tool_name t \<and>
        streamed_arguments u = arguments_json t) (find_tool key l) (find_emitter_tool key e)"
      by (cases "find_tool key l"; cases "find_emitter_tool key (the_emitter b)"; cases "find_emitter_tool key e")
        (auto simp: same_tool_def tool_kept_def)
    show "key \<in> emitted_response_tools e" if known: "find_tool key l \<noteq> None"
    proof -
      obtain v where v: "(key, v) \<in> set (tools l)" using known map_of_SomeD [of "tools l" key] by (auto simp: find_tool_def)
      have "mset (filter is_tool_item outs) = mset (map tool_item (tools l))"
        using items_tools [OF b'(1) outs] same by simp
      then have "tool_item (key, v) \<in> set (filter is_tool_item outs)"
        using v by (metis image_eqI list.set_map set_mset_mset)
      then show ?thesis using bs'(3) by (auto simp: listed_def tool_item_def item_key_of_def)
    qed
  qed
  moreover have "client_view (e\<lparr>out := out e @ [Terminal_report status]\<rparr>) bs'"
    using bs'(1) by (simp add: client_view_def view_def)
  ultimately show ?thesis using bs' by (intro exI [of _ bs'] conjI exI [of _ es]) (simp_all add: t)
qed

lemma new_conversion_ok: "0 \<le> budget \<Longrightarrow> conv_ok ctx {} (new_conversion uuid budget degradations)"
proof -
  have "wires (map Degradation_report degradations) = []" by (induction degradations) simp_all
  then have "view ((new_emitter uuid)\<lparr>out := map Degradation_report degradations\<rparr>) = view (new_emitter uuid)"
    by (simp add: view_def new_emitter_def)
  then have "client_view ((new_emitter uuid)\<lparr>out := map Degradation_report degradations\<rparr>) []"
    using new_emitter_view [of uuid] by (simp add: client_view_def view_def)
  then show "0 \<le> budget \<Longrightarrow> conv_ok ctx {} (new_conversion uuid budget degradations)"
    using ledger_ok_new by (auto simp: conv_ok_def new_conversion_def coupled_def unwritten_def new_emitter_def
        new_ledger_def find_tool_def find_emitter_tool_def)
qed

lemma stream_result:
  assumes "convert_stream ctx es s = (r, t)" "conv_ok ctx opens s" "orderly (upstream_protocol ctx) opens es"
  shows "(\<exists>bs. client_view (the_emitter t) bs) \<and>
    (\<forall>status. r = Stream_done status \<longrightarrow> (\<exists>u reason opens'. conv_ok ctx opens' u \<and>
       convert_terminal ctx status reason u = Inr ((), t)))"
  using assms
proof (induction es arbitrary: s opens)
  case Nil
  then show ?case by (auto simp: conv_ok_def)
next
  case (Cons e es)
  show ?case
  proof (cases "start_output ctx e s")
    case (Inl err)
    then show ?thesis using Cons.prems by (auto simp: convert_event_def conv_ok_def)
  next
    case (Inr p)
    then obtain a where a: "start_output ctx e s = Inr ((), a)" by (cases p) auto
    have ok: "conv_ok ctx opens a" by (rule tripleD [OF conv_ok_start a Cons.prems(2)])
    show ?thesis
    proof (cases "convert_body ctx e a")
      case (Inl err)
      then show ?thesis using Cons.prems(1) a ok by (auto simp: convert_event_def conv_ok_def)
    next
      case (Inr q)
      then obtain b where b: "convert_body ctx e a = Inr ((), b)" by (cases q) auto
      show ?thesis
      proof (cases "terminal_status e")
        case (Some status)
        then obtain reason where e: "e = Terminal status reason" by (cases e) auto
        then have last: "convert_terminal ctx status reason a = Inr ((), b)" using b by simp
        have "r = Stream_done status" "t = b" using Cons.prems(1) a b e by (auto simp: convert_event_def)
        then show ?thesis using terminal_result [OF ok last] ok last by blast
      next
        case None
        have "conv_ok ctx (open_after opens e) b"
          using conv_ok_event [OF ok _ b None] Cons.prems(3) by simp
        moreover have "convert_stream ctx es b = (r, t)" using Cons.prems(1) a b None by (simp add: convert_event_def)
        ultimately show ?thesis using Cons.IH [of b "open_after opens e"] Cons.prems(3) by simp
      qed
    qed
  qed
qed

section \<open>Properties\<close>

text \<open>A concrete conversion: one tool call of a Chat stream.\<close>

definition sample_events :: "semantic_event list" where
  "sample_events = [Tool_started (js ''t'') None (js ''c'') (js ''n''), Arguments_delta (js ''t'') (js ''{}''),
     Terminal Completed Tool_calls]"

definition sample_context :: emitter_context where
  "sample_context = \<lparr> upstream_protocol = Chat, model_name = js ''m'', accumulator_bytes = 9, carrier = None \<rparr>"

lemmas convert_run = errst_run ledger_run on_ledger_def on_emitter_def reports_def

lemmas sample_run = convert_run convert_event_def start_output_def emitter_start_def yields_def new_conversion_def
  new_ledger_def new_emitter_def start_tool_def find_tool_def emitter_tool_start_def close_active_text_def
  find_emitter_tool_def append_tool_arguments_def on_tool_def emitter_tool_arguments_def on_emitter_tool_def
  convert_terminal_def finish_open_tools_def finish_open_tool_def check_arguments_def tool_keys_def close_tool_of_def
  emitter_tool_done_def finish_open_reasoning_def finish_open_entry_def items_def js_sort_def entry_items_def
  tool_items_def emitter_finish_def close_open_tools_def close_open_tool_def emit_buffered_items_def
  emit_buffered_item_def emit_tool_def tool_block_def take_index_def

lemma sample_conversion:
  "\<exists>t. convert_stream sample_context sample_events (new_conversion (js ''u'') 9 []) = (Stream_done Completed, t) \<and>
     apply_events (wires (out (the_emitter t))) [] = Some [\<lparr> block_kind = Tool_use_block (js ''c'') (js ''n''),
       block_deltas = [Json_delta (js ''{}'')], block_closed = True \<rparr>] \<and>
     ledger_calls (the_ledger t) = [(js ''c'', js ''n'', js ''{}'')]"
  by (simp add: sample_events_def sample_context_def sample_run empty_object_valid [unfolded js_def, simplified]
      touch_block_def ledger_calls_def js_def utf8_length_def utf8_width_def)

lemma sample_orderly: "orderly (upstream_protocol sample_context) {} sample_events"
  by (simp add: sample_events_def)







text \<open>C1: when the conversion of a stream is done, the tool calls the client has read are those of the
  ledger, each once, with its call id, its name and its complete arguments.\<close>

theorem messages_stream_calls:
  assumes "orderly (upstream_protocol ctx) {} es" and "0 \<le> budget"
    and "convert_stream ctx es (new_conversion uuid budget degradations) = (Stream_done status, t)"
    and "apply_events (wires (out (the_emitter t))) [] = Some bs"
  shows "mset (shown_calls bs) = mset (ledger_calls (the_ledger t))"
proof -
  obtain u reason opens where u: "conv_ok ctx opens u" "convert_terminal ctx status reason u = Inr ((), t)"
    using stream_result [OF assms(3) new_conversion_ok [OF assms(2)] assms(1)] by blast
  from terminal_result [OF u] assms(4) show ?thesis by (auto simp: client_view_def)
qed

lemma messages_stream_calls_witness:
  "\<exists>t bs. convert_stream sample_context sample_events (new_conversion (js ''u'') 9 []) = (Stream_done Completed, t) \<and>
     apply_events (wires (out (the_emitter t))) [] = Some bs \<and> mset (shown_calls bs) = mset (ledger_calls (the_ledger t)) \<and>
     ledger_calls (the_ledger t) = [(js ''c'', js ''n'', js ''{}'')]"
proof -
  obtain t bs where "convert_stream sample_context sample_events (new_conversion (js ''u'') 9 []) = (Stream_done Completed, t)"
    "apply_events (wires (out (the_emitter t))) [] = Some bs" "ledger_calls (the_ledger t) = [(js ''c'', js ''n'', js ''{}'')]"
    using sample_conversion by blast
  with messages_stream_calls [OF sample_orderly _ this(1,2)] show ?thesis by auto
qed

end
