(* ===== verification/Spec2Isabelle.thy ===== *)
theory Spec2Isabelle
  imports Canonical_Json Sse_Records Admission Inference_Pool Stream_Execution Request_Attempt Conversion_Basics Ledger_Items Messages_Delivery
begin

text \<open>
  Placeholder header.
\<close>

end
